(* ===== verification/Prelude.thy ===== *)
theory Prelude
  imports Complex_Main "HOL-Library.AList" "HOL-Library.Char_ord" "HOL-Library.List_Lexorder"
    "HOL-Library.Multiset"
begin

text \<open>
  Shared vocabulary of the development: the parts of Go's standard library that several
  packages of the repository call (package \<open>strings\<close>, \<open>strconv\<close>, \<open>sort\<close>), the result
  type, and the lemmas about them.

  Go strings are byte strings; they are modelled as \<^typ>\<open>string\<close> and the case and white-space
  tables are those of the ASCII range. Bytes above 127 are letters of no case and never
  space, so a non-ASCII capital letter or non-ASCII space is treated as an ordinary byte.
  \<open>int64\<close> values are \<^typ>\<open>int\<close> with the range stated where a conversion can leave it.
  \<open>float64\<close> values are \<^typ>\<open>real\<close>: rounding is not modelled.
\<close>

named_theorems go_string "facts about the string functions of the Go library"

subsection \<open>Machine integers\<close>

definition in_int64 :: "int \<Rightarrow> bool" where
  "in_int64 i \<longleftrightarrow> - (2 ^ 63) \<le> i \<and> i < 2 ^ 63"

text \<open>The conversion \<open>uint64(i)\<close> of a signed integer.\<close>

definition to_uint64 :: "int \<Rightarrow> nat" where
  "to_uint64 i = nat (i mod 2 ^ 64)"

subsection \<open>Package strings\<close>

definition lower_char :: "char \<Rightarrow> char" where
  "lower_char c = (if 65 \<le> (of_char c :: nat) \<and> (of_char c :: nat) \<le> 90
     then char_of ((of_char c :: nat) + 32) else c)"

definition ToLower :: "string \<Rightarrow> string" where
  "ToLower s = map lower_char s"

text \<open>White space of \<open>strings.TrimSpace\<close>: tab, newline, vertical tab, form feed, return, space.\<close>

definition is_space :: "char \<Rightarrow> bool" where
  "is_space c \<longleftrightarrow> (9 \<le> (of_char c :: nat) \<and> (of_char c :: nat) \<le> 13) \<or> (of_char c :: nat) = 32"

definition TrimSpace :: "string \<Rightarrow> string" where
  "TrimSpace s = rev (dropWhile is_space (rev (dropWhile is_space s)))"

fun HasPrefix :: "string \<Rightarrow> string \<Rightarrow> bool" where
  "HasPrefix s [] = True"
| "HasPrefix [] (p # ps) = False"
| "HasPrefix (c # cs) (p # ps) = (c = p \<and> HasPrefix cs ps)"

definition TrimPrefix :: "string \<Rightarrow> string \<Rightarrow> string" where
  "TrimPrefix s p = (if HasPrefix s p then drop (length p) s else s)"

fun Join :: "string list \<Rightarrow> string \<Rightarrow> string" where
  "Join [] sep = []"
| "Join [s] sep = s"
| "Join (s # t # ss) sep = s @ sep @ Join (t # ss) sep"

text \<open>\<open>strings.Split\<close> and \<open>strings.Cut\<close> for a separator of one character.\<close>

fun Split :: "string \<Rightarrow> char \<Rightarrow> string list" where
  "Split [] sep = [[]]"
| "Split (c # cs) sep =
     (if c = sep then [] # Split cs sep
      else (case Split cs sep of [] \<Rightarrow> [[c]] | p # ps \<Rightarrow> (c # p) # ps))"

definition Cut_before :: "string \<Rightarrow> char \<Rightarrow> string" where
  "Cut_before s sep = takeWhile (\<lambda>c. c \<noteq> sep) s"

subsection \<open>Package strconv\<close>

definition digit_char :: "nat \<Rightarrow> char" where
  "digit_char n = char_of (48 + n)"

definition is_digit :: "char \<Rightarrow> bool" where
  "is_digit c \<longleftrightarrow> 48 \<le> (of_char c :: nat) \<and> (of_char c :: nat) \<le> 57"

definition digit_val :: "char \<Rightarrow> nat" where
  "digit_val c = (of_char c :: nat) - 48"

fun dec_digits :: "nat \<Rightarrow> string" where
  "dec_digits n =
     (if n < 10 then [digit_char n] else dec_digits (n div 10) @ [digit_char (n mod 10)])"

declare dec_digits.simps [simp del]

text \<open>\<open>strconv.Itoa\<close>, \<open>strconv.FormatInt(_, 10)\<close> and the verb \<open>%d\<close>.\<close>

definition Itoa :: "int \<Rightarrow> string" where
  "Itoa i = (if i < 0 then ''-'' @ dec_digits (nat (- i)) else dec_digits (nat i))"

definition dec_val :: "string \<Rightarrow> nat" where
  "dec_val s = foldl (\<lambda>a c. 10 * a + digit_val c) 0 s"

text \<open>
  \<open>strconv.ParseInt(s, 10, 64)\<close>: an optional sign and digits. The first component is the
  returned number (0 on a syntax error, the nearest bound on a range error), the second
  whether the error is nil.
\<close>

definition ParseInt64 :: "string \<Rightarrow> int \<times> bool" where
  "ParseInt64 s =
     (let neg = (s \<noteq> [] \<and> hd s = CHR ''-'');
          ds = (if s \<noteq> [] \<and> (hd s = CHR ''-'' \<or> hd s = CHR ''+'') then tl s else s)
      in if ds = [] \<or> \<not> list_all is_digit ds then (0, False)
         else let n = int (dec_val ds); i = (if neg then - n else n)
              in if in_int64 i then (i, True)
                 else (if neg then - (2 ^ 63) else 2 ^ 63 - 1, False))"

subsection \<open>Package sort\<close>

text \<open>
  \<open>sort.SliceStable(xs, less)\<close>: the stable sort of a slice by a \<open>less\<close> function, as
  insertion from the right.
\<close>

fun ins_by :: "('a \<Rightarrow> 'a \<Rightarrow> bool) \<Rightarrow> 'a \<Rightarrow> 'a list \<Rightarrow> 'a list" where
  "ins_by lt x [] = [x]"
| "ins_by lt x (y # ys) = (if lt y x then y # ins_by lt x ys else x # y # ys)"

fun SliceStable :: "('a \<Rightarrow> 'a \<Rightarrow> bool) \<Rightarrow> 'a list \<Rightarrow> 'a list" where
  "SliceStable lt [] = []"
| "SliceStable lt (x # xs) = ins_by lt x (SliceStable lt xs)"

subsection \<open>Lemmas: characters and strings\<close>

lemma lower_char_idem [simp]: "lower_char (lower_char c) = lower_char c"
  by (auto simp: lower_char_def)

lemma ToLower_idem [go_string]: "ToLower (ToLower s) = ToLower s"
  by (simp add: ToLower_def)

lemma ToLower_append [go_string]: "ToLower (s @ t) = ToLower s @ ToLower t"
  by (simp add: ToLower_def)

lemma ToLower_Cons [go_string]: "ToLower (c # s) = lower_char c # ToLower s"
  by (simp add: ToLower_def)

lemma ToLower_Nil [go_string]: "ToLower [] = []"
  by (simp add: ToLower_def)

lemma TrimSpace_Nil [simp]: "TrimSpace [] = []"
  by (simp add: TrimSpace_def)

lemma TrimSpace_keep_last:
  assumes "s \<noteq> []" and "\<not> is_space (last s)"
  shows "TrimSpace s = dropWhile is_space s"
proof -
  let ?d = "dropWhile is_space s"
  have ne: "?d \<noteq> []"
    using assms by (metis dropWhile_eq_Nil_conv last_in_set)
  then have "last ?d = last s"
    by (metis dropWhile_eq_drop last_drop drop_eq_Nil2 leI)
  with ne assms have "dropWhile is_space (rev ?d) = rev ?d"
    by (cases "rev ?d") (simp_all add: hd_rev [symmetric])
  then show ?thesis
    by (simp add: TrimSpace_def)
qed

lemma HasPrefix_append [simp]: "HasPrefix (p @ s) p"
  by (induction p) auto

lemma HasPrefix_iff: "HasPrefix s p \<longleftrightarrow> (\<exists>t. s = p @ t)"
proof (induction s p rule: HasPrefix.induct)
  case (3 c cs p ps)
  then show ?case by auto
qed auto

lemma TrimPrefix_append [simp]: "TrimPrefix (p @ s) p = s"
  by (simp add: TrimPrefix_def)

lemma Join_Cons: "ss \<noteq> [] \<Longrightarrow> Join (s # ss) sep = s @ sep @ Join ss sep"
  by (cases ss) auto

lemma Split_ne [simp]: "Split s sep \<noteq> []"
  by (cases s) (auto split: list.splits)

lemma Split_no_sep: "p \<in> set (Split s sep) \<Longrightarrow> sep \<notin> set p"
  by (induction s arbitrary: p) (fastforce split: if_splits list.splits)+

lemma Join_Split: "Join (Split s sep) [sep] = s"
proof (induction s)
  case (Cons c cs)
  show ?case
  proof (cases "Split cs sep")
    case Nil
    then show ?thesis by simp
  next
    case (Cons p ps)
    with Cons.IH show ?thesis by (cases ps) auto
  qed
qed simp

lemma Split_append:
  "sep \<notin> set p \<Longrightarrow> Split (p @ sep # s) sep = p # Split s sep"
  by (induction p) auto

lemma Split_single: "sep \<notin> set p \<Longrightarrow> Split p sep = [p]"
  by (induction p) auto

lemma Split_Join:
  "ps \<noteq> [] \<Longrightarrow> (\<And>p. p \<in> set ps \<Longrightarrow> sep \<notin> set p) \<Longrightarrow> Split (Join ps [sep]) sep = ps"
proof (induction ps)
  case (Cons p ps)
  then show ?case by (cases ps) (simp_all add: Split_single Split_append)
qed simp

subsection \<open>Lemmas: lists\<close>

lemma set_map_filter: "x \<in> set (List.map_filter f xs) \<longleftrightarrow> (\<exists>k \<in> set xs. f k = Some x)"
  by (induction xs) (auto simp: map_filter_simps split: option.splits)

subsection \<open>Lemmas: decimal numbers\<close>

lemma digit_char_is_digit [simp]: "n < 10 \<Longrightarrow> is_digit (digit_char n)"
  by (simp add: is_digit_def digit_char_def)

lemma digit_val_char [simp]: "n < 10 \<Longrightarrow> digit_val (digit_char n) = n"
  by (simp add: digit_val_def digit_char_def)

lemma dec_digits_ne [simp]: "dec_digits n \<noteq> []"
  by (subst dec_digits.simps) simp

lemma dec_digits_digits: "list_all is_digit (dec_digits n)"
proof (induction n rule: dec_digits.induct)
  case (1 n)
  then show ?case by (subst dec_digits.simps) simp
qed

lemma dec_val_snoc: "dec_val (s @ [c]) = 10 * dec_val s + digit_val c"
  by (simp add: dec_val_def)

lemma dec_val_digits [simp]: "dec_val (dec_digits n) = n"
proof (induction n rule: dec_digits.induct)
  case (1 n)
  show ?case
  proof (cases "n < 10")
    case True
    then show ?thesis by (subst dec_digits.simps) (simp add: dec_val_def)
  next
    case False
    with 1 show ?thesis by (subst dec_digits.simps) (simp add: dec_val_snoc)
  qed
qed

lemma dec_digits_inj: "dec_digits m = dec_digits n \<Longrightarrow> m = n"
  by (metis dec_val_digits)

lemma minus_not_digit [simp]: "\<not> is_digit (CHR ''-'')"
  by (simp add: is_digit_def)

lemma plus_not_digit [simp]: "\<not> is_digit (CHR ''+'')"
  by (simp add: is_digit_def)

lemma hd_dec_digits: "is_digit (hd (dec_digits n))"
  using dec_digits_digits [of n] by (cases "dec_digits n") auto

lemma Itoa_inj [simp]: "Itoa i = Itoa j \<longleftrightarrow> i = j"
proof
  assume eq: "Itoa i = Itoa j"
  have hd_neg: "hd (dec_digits n) \<noteq> CHR ''-''" for n
    using hd_dec_digits [of n] minus_not_digit by metis
  show "i = j"
  proof (cases "i < 0"; cases "j < 0")
    assume "i < 0" "j < 0"
    with eq have "nat (- i) = nat (- j)" by (simp add: Itoa_def dec_digits_inj)
    with \<open>i < 0\<close> \<open>j < 0\<close> show ?thesis by simp
  next
    assume "i < 0" "\<not> j < 0"
    with eq hd_neg [of "nat j"] show ?thesis by (metis Itoa_def append_Cons list.sel(1))
  next
    assume "\<not> i < 0" "j < 0"
    with eq hd_neg [of "nat i"] show ?thesis by (metis Itoa_def append_Cons list.sel(1))
  next
    assume "\<not> i < 0" "\<not> j < 0"
    with eq have "nat i = nat j" by (simp add: Itoa_def dec_digits_inj)
    with \<open>\<not> i < 0\<close> \<open>\<not> j < 0\<close> show ?thesis by simp
  qed
qed simp

lemma Itoa_ne [simp]: "Itoa i \<noteq> []"
  by (simp add: Itoa_def)

lemma Itoa_chars: "c \<in> set (Itoa i) \<Longrightarrow> c = CHR ''-'' \<or> is_digit c"
  using dec_digits_digits by (auto simp: Itoa_def list_all_iff split: if_splits)

lemma ParseInt64_Itoa [simp]: "in_int64 i \<Longrightarrow> ParseInt64 (Itoa i) = (i, True)"
proof -
  assume r: "in_int64 i"
  have h: "hd (dec_digits n) \<noteq> CHR ''-'' \<and> hd (dec_digits n) \<noteq> CHR ''+''" for n
    using hd_dec_digits [of n] minus_not_digit plus_not_digit by metis
  show ?thesis
    using r h [of "nat i"] dec_digits_digits
    by (cases "i < 0") (simp_all add: Itoa_def ParseInt64_def Let_def)
qed

subsection \<open>Lemmas: maxima\<close>

lemma Max_insert_max:
  assumes "finite (A :: int set)"
  shows "Max (insert (max v w) A) = Max (insert v (insert w A))"
proof (cases "A = {}")
  case False
  with assms show ?thesis by (simp add: max.assoc)
qed simp

subsection \<open>Comparators\<close>

text \<open>
  The contract of a \<open>less\<close> function passed to package \<open>sort\<close>: a strict weak order. Every
  comparator of the repository is an interpretation of it in the theory that declares it.
\<close>

lemma mset_ins_by [simp]: "mset (ins_by lt x ys) = add_mset x (mset ys)"
  by (induction ys) auto

lemma mset_SliceStable [simp]: "mset (SliceStable lt xs) = mset xs"
  by (induction xs) auto

lemma set_SliceStable [simp]: "set (SliceStable lt xs) = set xs"
  by (metis mset_SliceStable set_mset_mset)

lemma length_SliceStable [simp]: "length (SliceStable lt xs) = length xs"
  by (metis mset_SliceStable size_mset)

lemma SliceStable_eq_Nil [simp]: "SliceStable lt xs = [] \<longleftrightarrow> xs = []"
  by (metis length_0_conv length_SliceStable)

lemma distinct_map_SliceStable [simp]:
  "distinct (map f (SliceStable lt xs)) \<longleftrightarrow> distinct (map f xs)"
  by (metis mset_SliceStable mset_map distinct_count_atmost_1 set_map set_SliceStable
      mset_eq_imp_distinct_iff)

lemma sorted_wrt_unique:
  assumes "sorted_wrt R xs" "sorted_wrt R ys" "mset xs = mset ys"
    and "\<And>a b. a \<in> set xs \<Longrightarrow> b \<in> set xs \<Longrightarrow> R a b \<Longrightarrow> R b a \<Longrightarrow> a = b"
  shows "xs = ys"
  using assms
proof (induction xs arbitrary: ys)
  case (Cons x xs)
  obtain y ys' where ys: "ys = y # ys'"
    using Cons.prems(3) by (cases ys) auto
  have "x = y"
  proof (rule ccontr)
    assume ne: "x \<noteq> y"
    have "x \<in> set ys" "y \<in> set (x # xs)"
      using Cons.prems(3) ys by (metis list.set_intros(1) set_mset_mset)+
    with ne ys Cons.prems(1,2) have "R y x" "R x y" by auto
    with Cons.prems(4) [of x y] \<open>y \<in> set (x # xs)\<close> ne show False by auto
  qed
  moreover have "xs = ys'"
    using Cons.IH [of ys'] Cons.prems ys \<open>x = y\<close> by auto
  ultimately show ?case using ys by simp
qed simp

lemma sorted_wrt_strict:
  assumes "distinct (map f xs)" "sorted_wrt (\<lambda>a b. \<not> lt b a) xs"
    and "\<And>a b. \<not> lt b a \<Longrightarrow> f a \<noteq> f b \<Longrightarrow> R a b"
  shows "sorted_wrt R xs"
  using assms by (induction xs) auto

locale strict_weak_order =
  fixes lt :: "'a \<Rightarrow> 'a \<Rightarrow> bool"
  assumes irrefl: "\<not> lt x x"
    and trans: "lt x y \<Longrightarrow> lt y z \<Longrightarrow> lt x z"
    and neg_trans: "lt x z \<Longrightarrow> lt x y \<or> lt y z"
begin

lemma sorted_ins_by:
  "sorted_wrt (\<lambda>a b. \<not> lt b a) ys \<Longrightarrow> sorted_wrt (\<lambda>a b. \<not> lt b a) (ins_by lt x ys)"
proof (induction ys)
  case (Cons y ys)
  have st: "set (ins_by lt x zs) = insert x (set zs)" for zs
    by (metis mset_ins_by set_mset_add_mset_insert set_mset_mset)
  show ?case
  proof (cases "lt y x")
    case True
    then have "\<not> lt x y" by (meson irrefl trans)
    with True Cons st [of ys] show ?thesis by simp
  next
    case False
    have "\<not> lt z x" if "z \<in> set ys" for z
      using that False Cons.prems neg_trans [of z x y] by auto
    with False Cons.prems show ?thesis by auto
  qed
qed simp

lemma sorted_SliceStable: "sorted_wrt (\<lambda>a b. \<not> lt b a) (SliceStable lt xs)"
  by (induction xs) (simp_all add: sorted_ins_by)

lemma ins_by_stable:
  "filter (\<lambda>y. \<not> lt k y \<and> \<not> lt y k) (ins_by lt x ys) =
   filter (\<lambda>y. \<not> lt k y \<and> \<not> lt y k) (x # ys)"
proof (induction ys)
  case (Cons y ys)
  then show ?case using neg_trans [of y x k] by auto
qed simp

text \<open>Elements that compare equal keep their order.\<close>

lemma SliceStable_stable:
  "filter (\<lambda>y. \<not> lt k y \<and> \<not> lt y k) (SliceStable lt xs) =
   filter (\<lambda>y. \<not> lt k y \<and> \<not> lt y k) xs"
  by (induction xs) (simp_all add: ins_by_stable del: filter.simps, simp)

text \<open>Where different elements never compare equal, the input order does not matter.\<close>

lemma SliceStable_perm:
  assumes "mset xs = mset ys"
    and "\<And>a b. a \<in> set xs \<Longrightarrow> b \<in> set xs \<Longrightarrow> a \<noteq> b \<Longrightarrow> lt a b \<or> lt b a"
  shows "SliceStable lt xs = SliceStable lt ys"
  by (rule sorted_wrt_unique [OF sorted_SliceStable sorted_SliceStable])
     (use assms in \<open>auto\<close>)

end

end
