(* ===== verification/Contract.thy ===== *)
theory Contract
  imports Prelude
begin

text \<open>
  Package \<open>internal/contract\<close> (\<open>doc.go\<close>): the canonical document every source is
  normalized to, its validation, its namespaced id, its point id and its searchable text.

  \<open>Op\<close> and \<open>Tier\<close> are string types in the code and stay strings here, so that an
  unknown value is representable and \<open>Validate\<close> has something to reject. A \<open>time.Time\<close> is the
  instant in nanoseconds since the Unix epoch; the zero value of the type is the instant
  of 1 January of the year 1. The UUIDv5 of \<open>github.com/google/uuid\<close> is a parameter.
\<close>

type_synonym time = int

text \<open>The zero \<open>time.Time\<close>: \<open>IsZero\<close> compares with it.\<close>

definition zero_time :: time where
  "zero_time = - 62135596800 * 10 ^ 9"

definition OpUpsert :: string where "OpUpsert = ''upsert''"

definition OpDelete :: string where "OpDelete = ''delete''"

definition TierUrgent :: string where "TierUrgent = ''urgent''"

definition TierBulk :: string where "TierBulk = ''bulk''"

record metadata =
  Category :: string
  URL :: string
  Author :: string

record canonical_doc =
  Source :: string
  SourceID :: string
  DocID :: string
  TenantID :: int
  Op :: string
  Tier :: string
  Version :: int
  CommitTS :: time
  Title :: string
  Body :: string
  ChunkID :: int
  Metadata :: metadata

definition NamespacedDocID :: "string \<Rightarrow> string \<Rightarrow> string" where
  "NamespacedDocID source nativeID = source @ '':'' @ nativeID"

datatype doc_error =
    SourceRequired
  | DocIDRequired
  | InvalidOp string
  | InvalidTier string
  | NegativeVersion int
  | CommitTSRequired
  | UpsertNeedsText

text \<open>\<open>Validate\<close> returns the first violated rule; \<^term>\<open>None\<close> is the nil error.\<close>

definition Validate :: "canonical_doc \<Rightarrow> doc_error option" where
  "Validate d =
     (if Source d = [] then Some SourceRequired
      else if DocID d = [] then Some DocIDRequired
      else if Op d \<noteq> OpUpsert \<and> Op d \<noteq> OpDelete then Some (InvalidOp (Op d))
      else if Tier d \<noteq> TierUrgent \<and> Tier d \<noteq> TierBulk then Some (InvalidTier (Tier d))
      else if Version d < 0 then Some (NegativeVersion (Version d))
      else if CommitTS d = zero_time then Some CommitTSRequired
      else if Op d = OpUpsert \<and> Body d = [] \<and> Title d = [] then Some UpsertNeedsText
      else None)"

text \<open>\<open>PointID\<close>: \<open>uuid5\<close> is \<open>uuid.NewSHA1(uuid.NameSpaceDNS, _)\<close>.\<close>

definition PointID :: "(string \<Rightarrow> string) \<Rightarrow> canonical_doc \<Rightarrow> string" where
  "PointID uuid5 d = uuid5 (DocID d)"

definition Text :: "canonical_doc \<Rightarrow> string" where
  "Text d =
     (if Title d = [] then Body d
      else if Body d = [] then Title d
      else Title d @ [CHR 0x0A, CHR 0x0A] @ Body d)"

subsection \<open>Lemmas\<close>

lemmas op_tier_defs = OpUpsert_def OpDelete_def TierUrgent_def TierBulk_def

lemma OpUpsert_neq_OpDelete [simp]: "OpUpsert \<noteq> OpDelete" "OpDelete \<noteq> OpUpsert"
  by (simp_all add: op_tier_defs)

lemma Validate_Some_iff:
  "Validate d = None \<longleftrightarrow>
     Source d \<noteq> [] \<and> DocID d \<noteq> [] \<and> (Op d = OpUpsert \<or> Op d = OpDelete) \<and>
     (Tier d = TierUrgent \<or> Tier d = TierBulk) \<and> 0 \<le> Version d \<and>
     CommitTS d \<noteq> zero_time \<and> (Op d = OpUpsert \<longrightarrow> Body d \<noteq> [] \<or> Title d \<noteq> [])"
  by (auto simp: Validate_def)

lemma Validate_not_delete: "Validate d = None \<Longrightarrow> Op d \<noteq> OpDelete \<Longrightarrow> Op d = OpUpsert"
  by (auto simp: Validate_Some_iff)

lemma NamespacedDocID_eq: "NamespacedDocID s a = NamespacedDocID s b \<longleftrightarrow> a = b"
  by (simp add: NamespacedDocID_def)

lemma Text_empty_iff: "Text d = [] \<longleftrightarrow> Title d = [] \<and> Body d = []"
  by (auto simp: Text_def)

end
