(* ===== verification/Json.thy ===== *)
theory Json
  imports Prelude
begin

text \<open>
  Package \<open>encoding/json\<close> as the repository uses it. A byte string is either the text of a
  JSON value, represented by its syntax tree, or not JSON; the concrete syntax (escapes,
  white space) is not modelled. A number literal is \<open>JInt\<close> when it has neither fraction nor
  exponent. Decoding into a struct follows \<open>json.Unmarshal\<close>: fields are processed in
  document order, a key selects a field regardless of case, unknown keys are ignored,
  \<open>null\<close> leaves a non-pointer field unchanged, a value of the wrong kind or an integer
  outside the field's range is an error.
\<close>

datatype json =
    JNull
  | JBool bool
  | JInt int
  | JFrac real
  | JStr string
  | JArr "json list"
  | JObj "(string \<times> json) list"

text \<open>A message value or a request body. The empty byte string is \<open>NotJSON []\<close>.\<close>

datatype raw = JText json | NotJSON string

datatype json_error = JsonSyntax | JsonType

type_synonym 'a decoder = "json \<Rightarrow> 'a \<Rightarrow> json_error + 'a"

definition dec_string :: "string decoder" where
  "dec_string j old =
     (case j of JNull \<Rightarrow> Inr old | JStr s \<Rightarrow> Inr s | _ \<Rightarrow> Inl JsonType)"

definition dec_int64 :: "int decoder" where
  "dec_int64 j old =
     (case j of JNull \<Rightarrow> Inr old
      | JInt i \<Rightarrow> if in_int64 i then Inr i else Inl JsonType
      | _ \<Rightarrow> Inl JsonType)"

text \<open>The decoder of a struct from the setter of its fields; the key arrives in lower case.\<close>

fun dec_fields ::
  "(string \<Rightarrow> json \<Rightarrow> 'a \<Rightarrow> json_error + 'a) \<Rightarrow> (string \<times> json) list \<Rightarrow> 'a \<Rightarrow> json_error + 'a" where
  "dec_fields set_field [] x = Inr x"
| "dec_fields set_field ((k, j) # kvs) x =
     (case set_field (ToLower k) j x of
        Inl e \<Rightarrow> Inl e
      | Inr y \<Rightarrow> dec_fields set_field kvs y)"

definition dec_struct :: "(string \<Rightarrow> json \<Rightarrow> 'a \<Rightarrow> json_error + 'a) \<Rightarrow> 'a decoder" where
  "dec_struct set_field j old =
     (case j of JNull \<Rightarrow> Inr old
      | JObj kvs \<Rightarrow> dec_fields set_field kvs old
      | _ \<Rightarrow> Inl JsonType)"

text \<open>A pointer field: \<open>null\<close> makes it nil, an object is decoded into the target, allocated if nil.\<close>

definition dec_pointer :: "'a \<Rightarrow> 'a decoder \<Rightarrow> 'a option decoder" where
  "dec_pointer zero dec j old =
     (if j = JNull then Inr None
      else (case dec j (case old of None \<Rightarrow> zero | Some x \<Rightarrow> x) of
              Inl e \<Rightarrow> Inl e | Inr y \<Rightarrow> Inr (Some y)))"

text \<open>\<open>json.Unmarshal(value, &x)\<close> with \<open>x\<close> initially \<open>zero\<close>.\<close>

definition Unmarshal :: "'a decoder \<Rightarrow> 'a \<Rightarrow> raw \<Rightarrow> json_error + 'a" where
  "Unmarshal dec zero v = (case v of NotJSON _ \<Rightarrow> Inl JsonSyntax | JText j \<Rightarrow> dec j zero)"

text \<open>A setter that stores the decoded value of one field.\<close>

definition into :: "'b decoder \<Rightarrow> 'b \<Rightarrow> ('b \<Rightarrow> 'a) \<Rightarrow> json \<Rightarrow> json_error + 'a" where
  "into dec old upd j = (case dec j old of Inl e \<Rightarrow> Inl e | Inr x \<Rightarrow> Inr (upd x))"

definition dec_float :: "real decoder" where
  "dec_float j old =
     (case j of JNull \<Rightarrow> Inr old
      | JInt i \<Rightarrow> Inr (real_of_int i)
      | JFrac r \<Rightarrow> Inr r
      | _ \<Rightarrow> Inl JsonType)"

text \<open>A slice field: \<open>null\<close> makes it nil, every element is decoded into a zero value.\<close>

fun dec_elems :: "'a \<Rightarrow> 'a decoder \<Rightarrow> json list \<Rightarrow> json_error + 'a list" where
  "dec_elems zero dec [] = Inr []"
| "dec_elems zero dec (j # js) =
     (case dec j zero of
        Inl e \<Rightarrow> Inl e
      | Inr x \<Rightarrow> (case dec_elems zero dec js of Inl e \<Rightarrow> Inl e | Inr xs \<Rightarrow> Inr (x # xs)))"

definition dec_slice :: "'a \<Rightarrow> 'a decoder \<Rightarrow> 'a list decoder" where
  "dec_slice zero dec j old =
     (case j of JNull \<Rightarrow> Inr [] | JArr js \<Rightarrow> dec_elems zero dec js | _ \<Rightarrow> Inl JsonType)"

text \<open>A \<open>map[string]string\<close> field: an object's keys are added to the existing map.\<close>

fun dec_map_entries :: "(string \<times> json) list \<Rightarrow> (string \<times> string) list \<Rightarrow> json_error + (string \<times> string) list" where
  "dec_map_entries [] m = Inr m"
| "dec_map_entries ((k, j) # kvs) m =
     (case dec_string j [] of
        Inl e \<Rightarrow> Inl e
      | Inr v \<Rightarrow> dec_map_entries kvs (AList.update k v m))"

definition dec_string_map :: "(string \<times> string) list decoder" where
  "dec_string_map j old =
     (case j of JNull \<Rightarrow> Inr [] | JObj kvs \<Rightarrow> dec_map_entries kvs old | _ \<Rightarrow> Inl JsonType)"

subsection \<open>HTTP round trips\<close>

text \<open>
  The outcome of \<open>http.Client.Do\<close>: a transport error, or a status code and a body. A client
  operation takes the function from its request to this outcome as an argument.
\<close>

datatype http_reply = TransportError string | Reply int raw

datatype http_error = HttpTransport string | HttpStatus int | HttpDecode json_error

subsection \<open>Lemmas\<close>

lemma dec_map_entries_distinct:
  "dec_map_entries kvs m = Inr m' \<Longrightarrow> distinct (map fst m) \<Longrightarrow> distinct (map fst m')"
proof (induction kvs arbitrary: m)
  case (Cons kv kvs)
  then show ?case
    by (cases kv) (auto split: sum.splits intro: distinct_update)
qed simp

lemma dec_string_map_distinct:
  "dec_string_map j m = Inr m' \<Longrightarrow> distinct (map fst m) \<Longrightarrow> distinct (map fst m')"
  by (auto simp: dec_string_map_def split: json.splits dest: dec_map_entries_distinct)

lemma dec_string_JStr [simp]: "dec_string (JStr s) old = Inr s"
  by (simp add: dec_string_def)

lemma dec_int64_JInt [simp]: "in_int64 i \<Longrightarrow> dec_int64 (JInt i) old = Inr i"
  by (simp add: dec_int64_def)

lemma dec_int64_range: "dec_int64 j old = Inr i \<Longrightarrow> in_int64 old \<Longrightarrow> in_int64 i"
  by (auto simp: dec_int64_def split: json.splits if_splits)

lemma into_simps [simp]:
  "dec j old = Inr x \<Longrightarrow> into dec old upd j = Inr (upd x)"
  "dec j old = Inl e \<Longrightarrow> into dec old upd j = Inl e"
  by (simp_all add: into_def)

lemma dec_fields_inv:
  assumes "\<And>k j x y. P x \<Longrightarrow> set_field k j x = Inr y \<Longrightarrow> P y"
  shows "P x \<Longrightarrow> dec_fields set_field kvs x = Inr y \<Longrightarrow> P y"
proof (induction kvs arbitrary: x)
  case (Cons kv kvs)
  then show ?case using assms by (cases kv) (auto split: sum.splits; blast)
qed simp

end
