(* ===== verification/Timestamp.thy ===== *)
theory Timestamp
  imports Contract Json
begin

text \<open>
  The JSON form of a \<open>time.Time\<close>: \<open>MarshalJSON\<close> writes the instant in UTC in the layout
  \<open>RFC3339Nano\<close> and fails outside the years 0 to 9999; \<open>UnmarshalJSON\<close> reads a strict RFC 3339
  text. The calendar is the proleptic Gregorian one. Only the instant is kept: the zone of
  a parsed time is used to compute it and then dropped.
\<close>

subsection \<open>Calendar\<close>

definition leap :: "int \<Rightarrow> bool" where
  "leap y \<longleftrightarrow> 4 dvd y \<and> (\<not> 100 dvd y \<or> 400 dvd y)"

definition months :: "int \<Rightarrow> int list" where
  "months y = [31, if leap y then 29 else 28, 31, 30, 31, 30, 31, 31, 30, 31, 30, 31]"

text \<open>The year and the day of the year (from 0) of a day counted from 1 January of the year 1.\<close>

definition year_day :: "int \<Rightarrow> int \<times> int" where
  "year_day z =
     (let n400 = z div 146097; d400 = z mod 146097;
          n100 = min 3 (d400 div 36524); d100 = d400 - 36524 * n100;
          n4 = d100 div 1461; d4 = d100 mod 1461;
          n1 = min 3 (d4 div 365)
      in (400 * n400 + 100 * n100 + 4 * n4 + n1 + 1, d4 - 365 * n1))"

definition days_before :: "int \<Rightarrow> int" where
  "days_before y = 365 * (y - 1) + (y - 1) div 4 - (y - 1) div 100 + (y - 1) div 400"

fun find_month :: "int \<Rightarrow> int list \<Rightarrow> int \<Rightarrow> int \<times> int" where
  "find_month m [] d = (m, d)"
| "find_month m (l # ls) d = (if d < l then (m, d) else find_month (m + 1) ls (d - l))"

text \<open>The day number of 1 January 1970, and the length of a day in nanoseconds.\<close>

definition epoch_day :: int where "epoch_day = 719162"

definition day_ns :: int where "day_ns = 86400 * 10 ^ 9"

definition year_of :: "time \<Rightarrow> int" where
  "year_of t = fst (year_day (t div day_ns + epoch_day))"

subsection \<open>Formatting\<close>

text \<open>A number in \<open>w\<close> decimal digits.\<close>

fun digits :: "nat \<Rightarrow> nat \<Rightarrow> string" where
  "digits 0 n = []"
| "digits (Suc w) n = digits w (n div 10) @ [digit_char (n mod 10)]"

text \<open>The fraction \<open>.999999999\<close>: nine digits without trailing zeros, nothing for zero.\<close>

definition fraction :: "nat \<Rightarrow> string" where
  "fraction ns =
     (if ns = 0 then []
      else CHR ''.'' # rev (dropWhile (\<lambda>c. c = CHR ''0'') (rev (digits 9 ns))))"

definition FormatRFC3339 :: "time \<Rightarrow> string" where
  "FormatRFC3339 t =
     (let (y, yd) = year_day (t div day_ns + epoch_day);
          (m, d) = find_month 1 (months y) yd;
          sec = t mod day_ns div 10 ^ 9
      in digits 4 (nat y) @ ''-'' @ digits 2 (nat m) @ ''-'' @ digits 2 (nat (d + 1)) @ ''T'' @
         digits 2 (nat (sec div 3600)) @ '':'' @ digits 2 (nat (sec div 60 mod 60)) @ '':'' @
         digits 2 (nat (sec mod 60)) @ fraction (nat (t mod 10 ^ 9)) @ ''Z'')"

text \<open>\<open>Time.MarshalJSON\<close>; \<^term>\<open>None\<close> is the error.\<close>

definition marshal_time :: "time \<Rightarrow> json option" where
  "marshal_time t = (if 0 \<le> year_of t \<and> year_of t \<le> 9999 then Some (JStr (FormatRFC3339 t)) else None)"

subsection \<open>Parsing\<close>

definition parse_uint :: "string \<Rightarrow> int \<Rightarrow> int \<Rightarrow> int option" where
  "parse_uint s lo hi =
     (if list_all is_digit s \<and> lo \<le> int (dec_val s) \<and> int (dec_val s) \<le> hi
      then Some (int (dec_val s)) else None)"

text \<open>The zone: \<open>Z\<close>, or a signed offset in hours and minutes, as seconds.\<close>

definition parse_zone :: "string \<Rightarrow> int option" where
  "parse_zone s =
     (if s = ''Z'' then Some 0
      else if length s = 6 \<and> (s ! 0 = CHR ''+'' \<or> s ! 0 = CHR ''-'') \<and> s ! 3 = CHR '':'' then
        (case (parse_uint (take 2 (drop 1 s)) 0 23, parse_uint (take 2 (drop 4 s)) 0 59) of
           (Some h, Some m) \<Rightarrow> Some ((if s ! 0 = CHR ''-'' then - 1 else 1) * (3600 * h + 60 * m))
         | _ \<Rightarrow> None)
      else None)"

text \<open>The optional fraction (digits past the ninth are dropped) and the text after it.\<close>

definition parse_fraction :: "string \<Rightarrow> int \<times> string" where
  "parse_fraction s =
     (case s of
        c # d # r \<Rightarrow>
          if c = CHR ''.'' \<and> is_digit d then
            (let ds = take 9 (takeWhile is_digit (d # r))
             in (int (dec_val (ds @ replicate (9 - length ds) (CHR ''0''))), dropWhile is_digit (d # r)))
          else (0, s)
      | _ \<Rightarrow> (0, s))"

definition ParseRFC3339 :: "string \<Rightarrow> time option" where
  "ParseRFC3339 s =
     (if length s < 19 \<or> s ! 4 \<noteq> CHR ''-'' \<or> s ! 7 \<noteq> CHR ''-'' \<or> s ! 10 \<noteq> CHR ''T'' \<or>
         s ! 13 \<noteq> CHR '':'' \<or> s ! 16 \<noteq> CHR '':'' then None
      else (case (parse_uint (take 4 s) 0 9999, parse_uint (take 2 (drop 5 s)) 1 12) of
              (Some y, Some m) \<Rightarrow>
                (let (ns, z) = parse_fraction (drop 19 s)
                 in case (parse_uint (take 2 (drop 8 s)) 1 (months y ! nat (m - 1)),
                          parse_uint (take 2 (drop 11 s)) 0 23, parse_uint (take 2 (drop 14 s)) 0 59,
                          parse_uint (take 2 (drop 17 s)) 0 59, parse_zone z) of
                      (Some d, Some h, Some mi, Some sec, Some off) \<Rightarrow>
                        Some (((days_before y + sum_list (take (nat (m - 1)) (months y)) + d - 1 - epoch_day) * 86400
                               + 3600 * h + 60 * mi + sec - off) * 10 ^ 9 + ns)
                    | _ \<Rightarrow> None)
            | _ \<Rightarrow> None))"

definition dec_time :: "time decoder" where
  "dec_time j old =
     (case j of JNull \<Rightarrow> Inr old
      | JStr s \<Rightarrow> (case ParseRFC3339 s of None \<Rightarrow> Inl JsonType | Some t \<Rightarrow> Inr t)
      | _ \<Rightarrow> Inl JsonType)"

subsection \<open>Lemmas\<close>

lemma min_div_bounds:
  fixes r n :: int
  assumes "0 \<le> r" "r < 4 * n + 1" "0 < n"
  defines "b \<equiv> min 3 (r div n)"
  shows "0 \<le> b" "b \<le> 3" "0 \<le> r - n * b" "r - n * b < n \<or> b = 3 \<and> r - n * b = n"
proof -
  note n = assms(3)
  have d: "n * (r div n) \<le> r" "r < n * (r div n) + n" "0 \<le> r div n"
    using n assms(1) mult_div_mod_eq [of n r] pos_mod_bound [OF n, of r] pos_mod_sign [OF n, of r]
    by (linarith, linarith, simp add: pos_imp_zdiv_nonneg_iff)
  show "0 \<le> b" "b \<le> 3" using d(3) by (simp_all add: b_def)
  show "0 \<le> r - n * b" "r - n * b < n \<or> b = 3 \<and> r - n * b = n"
  proof (atomize (full), cases "r div n \<le> 3")
    case True
    then show "0 \<le> r - n * b \<and> (r - n * b < n \<or> b = 3 \<and> r - n * b = n)"
      using d by (simp add: b_def min_def)
  next
    case False
    then have b: "b = 3" and "4 \<le> r div n" by (simp_all add: b_def)
    then have "n * 4 \<le> n * (r div n)" using n by simp
    then have "r = 4 * n" using d(1) assms(2) by linarith
    with b show "0 \<le> r - n * b \<and> (r - n * b < n \<or> b = 3 \<and> r - n * b = n)"
      using n by simp
  qed
qed

lemma year_day_inverse:
  assumes "year_day z = (y, yd)"
  shows "days_before y + yd = z" and "0 \<le> yd" and "yd < (if leap y then 366 else 365)"
proof -
  define a where "a = z div 146097"
  define r where "r = z mod 146097"
  define b where "b = min 3 (r div 36524)"
  define q where "q = r - 36524 * b"
  define c where "c = q div 1461"
  define e where "e = q mod 1461"
  define f where "f = min 3 (e div 365)"
  have "(y, yd) = (400 * a + 100 * b + 4 * c + f + 1, e - 365 * f)"
    unfolding assms [symmetric] year_day_def Let_def a_def r_def b_def q_def c_def e_def f_def by (rule refl)
  then have y: "y = 400 * a + 100 * b + 4 * c + f + 1" and yd: "yd = e - 365 * f" by (simp_all only: prod.inject)
  have r: "0 \<le> r" "r < 146097" "z = 146097 * a + r" by (simp_all add: r_def a_def)
  have b: "0 \<le> b" "b \<le> 3" "0 \<le> q" "q < 36524 \<or> b = 3 \<and> q = 36524"
    using min_div_bounds [of r 36524] r(1,2) unfolding b_def q_def by auto
  have qce: "q = 1461 * c + e" "0 \<le> e" "e < 1461" by (simp_all add: c_def e_def)
  have c: "0 \<le> c" "c \<le> 24" using b(3,4) qce by linarith+
  have f: "0 \<le> f" "f \<le> 3" "0 \<le> yd" "yd < 365 \<or> f = 3 \<and> yd = 365"
    using min_div_bounds [of e 365] qce(2,3) unfolding yd f_def by auto
  have "(y - 1) div 4 = 100 * a + 25 * b + c"
    by (rule int_div_pos_eq [of _ _ _ f]) (use y f(1,2) in simp_all)
  moreover have "(y - 1) div 100 = 4 * a + b"
    by (rule int_div_pos_eq [of _ _ _ "4 * c + f"]) (use y f(1,2) c in simp_all)
  moreover have "(y - 1) div 400 = a"
    by (rule int_div_pos_eq [of _ _ _ "100 * b + 4 * c + f"]) (use y f(1,2) c b(1,2) in simp_all)
  ultimately have "days_before y = 365 * (y - 1) + (100 * a + 25 * b + c) - (4 * a + b) + a"
    by (simp only: days_before_def)
  also have "\<dots> + yd = 146097 * a + (36524 * b + (1461 * c + e))" unfolding y yd by simp
  also have "\<dots> = z" using qce(1) q_def r(3) by simp
  finally show "days_before y + yd = z" .
  show "0 \<le> yd" by (rule f(3))
  have "leap y" if "yd = 365"
  proof -
    have "f = 3" "e = 1460" using that f(4) yd by auto
    then have "c \<noteq> 24 \<or> b = 3" using b(4) qce(1) by auto
    have y4: "y = 4 * (100 * a + 25 * b + c + 1)" using y \<open>f = 3\<close> by simp
    then have "4 dvd y" by (rule dvdI)
    moreover have "400 dvd y" if "c = 24" "b = 3"
      using that y4 by (intro dvdI [of _ _ "a + 1"]) simp
    moreover have "\<not> 100 dvd y" if "c \<noteq> 24"
    proof -
      have "y mod 100 = 4 * (c + 1)"
        by (rule int_mod_pos_eq [of _ _ "4 * a + b"]) (use y4 c that in simp_all)
      then show ?thesis using c by (simp add: dvd_eq_mod_eq_0)
    qed
    ultimately show ?thesis using \<open>c \<noteq> 24 \<or> b = 3\<close> unfolding leap_def by blast
  qed
  then show "yd < (if leap y then 366 else 365)" using f(4) by auto
qed

lemma length_months [simp]: "length (months y) = 12"
  by (simp add: months_def)

lemma sum_months: "sum_list (months y) = (if leap y then 366 else 365)"
  by (simp add: months_def)

lemma find_month_inverse:
  assumes "find_month m ls d = (m', d')" "0 \<le> d" "d < sum_list ls"
  shows "\<exists>i. m' = m + int i \<and> i < length ls \<and> sum_list (take i ls) + d' = d \<and> 0 \<le> d' \<and> d' < ls ! i"
  using assms
proof (induction m ls d rule: find_month.induct)
  case (2 m l ls d)
  show ?case
  proof (cases "d < l")
    case True
    with 2 show ?thesis by (intro exI [of _ 0]) auto
  next
    case False
    with 2 obtain i where "m' = m + 1 + int i" "i < length ls" "sum_list (take i ls) + d' = d - l"
      "0 \<le> d'" "d' < ls ! i" by auto
    then show ?thesis by (intro exI [of _ "Suc i"]) auto
  qed
qed simp

lemma length_digits [simp]: "length (digits w n) = w"
  by (induction w arbitrary: n) auto

lemma digits_digits: "list_all is_digit (digits w n)"
  by (induction w arbitrary: n) auto

lemma dec_val_fixed: "dec_val (digits w n) = n mod 10 ^ w"
proof (induction w arbitrary: n)
  case 0
  show ?case by (simp add: dec_val_def)
next
  case (Suc w)
  have "n mod 10 ^ Suc w = 10 * (n div 10 mod 10 ^ w) + n mod 10"
    by (simp add: mod_mult2_eq)
  with Suc show ?case by (simp add: dec_val_snoc)
qed

lemma parse_uint_digits:
  assumes "0 \<le> i" "i < 10 ^ w"
  shows "parse_uint (digits w (nat i)) lo hi = (if lo \<le> i \<and> i \<le> hi then Some i else None)"
proof -
  have "nat i < 10 ^ w" using assms by (simp add: nat_less_iff)
  then have "int (dec_val (digits w (nat i))) = i" using assms(1) by (simp add: dec_val_fixed)
  then show ?thesis by (simp add: parse_uint_def digits_digits)
qed

lemma strip_pad:
  "rev (dropWhile P (rev s)) @ replicate k c = s" if "\<forall>x. P x \<longleftrightarrow> x = c" "k = length s - length (dropWhile P (rev s))"
proof -
  have tw: "takeWhile P (rev s) = replicate (length (takeWhile P (rev s))) c"
    by (metis replicate_length_same set_takeWhileD that(1))
  have len: "length (takeWhile P (rev s)) + length (dropWhile P (rev s)) = length s"
    by (metis length_append length_rev takeWhile_dropWhile_id)
  have "s = rev (takeWhile P (rev s) @ dropWhile P (rev s))" by simp
  also have "\<dots> = rev (dropWhile P (rev s)) @ rev (takeWhile P (rev s))" by (simp del: takeWhile_dropWhile_id)
  also have "rev (takeWhile P (rev s)) = replicate k c"
    using tw len that(2) by (metis add_diff_cancel_right' rev_replicate)
  finally show ?thesis by simp
qed

lemma strip_digits:
  assumes "0 < ns" "ns < 10 ^ 9"
  defines "ds \<equiv> rev (dropWhile (\<lambda>c. c = CHR ''0'') (rev (digits 9 ns)))"
  shows "ds \<noteq> []" "list_all is_digit ds" "length ds \<le> 9"
    "dec_val (ds @ replicate (9 - length ds) (CHR ''0'')) = ns"
proof -
  have all: "list_all is_digit (digits 9 ns)" by (rule digits_digits)
  have pad: "ds @ replicate (9 - length ds) (CHR ''0'') = digits 9 ns"
    unfolding ds_def by (rule strip_pad) (simp_all add: length_dropWhile_le)
  then show v: "dec_val (ds @ replicate (9 - length ds) (CHR ''0'')) = ns"
    using assms(2) by (simp add: dec_val_fixed)
  show "list_all is_digit ds" using all pad by (metis list_all_append)
  show "length ds \<le> 9"
    using length_dropWhile_le [of "\<lambda>c. c = CHR ''0''" "rev (digits 9 ns)"] by (simp add: ds_def)
  have "dec_val (replicate k (CHR ''0'')) = 0" for k
    by (induction k) (simp_all add: dec_val_def digit_val_def)
  then show "ds \<noteq> []" using v assms(1) by auto
qed

lemma parse_fraction_fraction:
  assumes "ns < 10 ^ 9"
  shows "parse_fraction (fraction ns @ ''Z'') = (int ns, ''Z'')"
proof (cases "ns = 0")
  case True
  then show ?thesis by (simp add: parse_fraction_def fraction_def)
next
  case False
  define ds where "ds = rev (dropWhile (\<lambda>c. c = CHR ''0'') (rev (digits 9 ns)))"
  have s: "ds \<noteq> []" "list_all is_digit ds" "length ds \<le> 9"
    "dec_val (ds @ replicate (9 - length ds) (CHR ''0'')) = ns"
    unfolding ds_def using strip_digits [of ns] False assms by auto
  have z: "\<not> is_digit (CHR ''Z'')" by (simp add: is_digit_def)
  have tw: "takeWhile is_digit (ds @ ''Z'') = ds" "dropWhile is_digit (ds @ ''Z'') = ''Z''"
    using s(2) z by (simp_all add: list_all_iff takeWhile_append2 dropWhile_append2)
  obtain d r where ds: "ds = d # r" using s(1) by (cases ds) auto
  have "parse_fraction (CHR ''.'' # ds @ ''Z'') = (int ns, ''Z'')"
    unfolding parse_fraction_def using s(2-4) tw ds by simp
  then show ?thesis using False by (simp add: fraction_def ds_def)
qed

lemma ParseRFC3339_Format:
  assumes "0 \<le> year_of t" "year_of t \<le> 9999"
  shows "ParseRFC3339 (FormatRFC3339 t) = Some t"
proof -
  obtain y yd where y: "year_day (t div day_ns + epoch_day) = (y, yd)" by fastforce
  obtain m d where m: "find_month 1 (months y) yd = (m, d)" by fastforce
  define sec where "sec = t mod day_ns div 10 ^ 9"
  define ns where "ns = t mod 10 ^ 9"
  note yi = year_day_inverse [OF y]
  obtain i where i: "m = 1 + int i" "i < 12" "sum_list (take i (months y)) + d = yd" "0 \<le> d" "d < months y ! i"
    using find_month_inverse [OF m] yi(2,3) by (auto simp: sum_months)
  have d31: "d < 31"
    using i(2,5) by (auto simp: months_def less_Suc_eq numeral_eq_Suc split: if_splits)
  have yr: "0 \<le> y" "y \<le> 9999" using assms y by (simp_all add: year_of_def)
  have "0 \<le> t mod day_ns" "t mod day_ns < 86400000000000" by (simp_all add: day_ns_def)
  moreover have "sec = t mod day_ns div 1000000000" by (simp add: sec_def)
  ultimately have sec: "0 \<le> sec" "sec < 86400" by linarith+
  have ns: "0 \<le> ns" "ns < 10 ^ 9" by (simp_all add: ns_def)
  have hm: "0 \<le> sec div 3600" "sec div 3600 \<le> 23" using sec by linarith+
  have t: "t = ((days_before y + yd - epoch_day) * 86400 + sec) * 10 ^ 9 + ns"
  proof -
    have "t = t div day_ns * day_ns + t mod day_ns" by simp
    moreover have "t mod day_ns = sec * 10 ^ 9 + ns"
    proof -
      have "t mod day_ns mod 10 ^ 9 = ns"
        unfolding ns_def by (rule mod_mod_cancel) (simp add: day_ns_def)
      then show ?thesis unfolding sec_def by (metis div_mult_mod_eq)
    qed
    moreover have "t div day_ns * day_ns = (days_before y + yd - epoch_day) * 86400 * 10 ^ 9"
      using yi(1) by (simp add: day_ns_def)
    ultimately show ?thesis by (simp only: distrib_right add.assoc)
  qed
  have hms: "sec = 3600 * (sec div 3600) + 60 * (sec div 60 mod 60) + sec mod 60"
  proof -
    have "sec div 3600 = sec div 60 div 60" by (simp add: zdiv_zmult2_eq [symmetric])
    then show ?thesis using mult_div_mod_eq [of 60 sec] mult_div_mod_eq [of 60 "sec div 60"] by linarith
  qed
  let ?s = "FormatRFC3339 t"
  have f: "?s = digits 4 (nat y) @ ''-'' @ digits 2 (nat m) @ ''-'' @ digits 2 (nat (d + 1)) @ ''T'' @
         digits 2 (nat (sec div 3600)) @ '':'' @ digits 2 (nat (sec div 60 mod 60)) @ '':'' @
         digits 2 (nat (sec mod 60)) @ fraction (nat ns) @ ''Z''"
    using y m by (simp add: FormatRFC3339_def sec_def ns_def Let_def)
  have c: "?s ! 4 = CHR ''-''" "?s ! 7 = CHR ''-''" "?s ! 10 = CHR ''T''" "?s ! 13 = CHR '':''"
    "?s ! 16 = CHR '':''" "\<not> length ?s < 19"
    unfolding f by (simp_all add: nth_append)
  have p: "take 4 ?s = digits 4 (nat y)" "take 2 (drop 5 ?s) = digits 2 (nat m)"
    "take 2 (drop 8 ?s) = digits 2 (nat (d + 1))" "take 2 (drop 11 ?s) = digits 2 (nat (sec div 3600))"
    "take 2 (drop 14 ?s) = digits 2 (nat (sec div 60 mod 60))" "take 2 (drop 17 ?s) = digits 2 (nat (sec mod 60))"
    "drop 19 ?s = fraction (nat ns) @ ''Z''"
    unfolding f by simp_all
  have u: "parse_uint (digits 4 (nat y)) 0 9999 = Some y" "parse_uint (digits 2 (nat m)) 1 12 = Some m"
    "parse_uint (digits 2 (nat (d + 1))) 1 (months y ! nat (m - 1)) = Some (d + 1)"
    "parse_uint (digits 2 (nat (sec div 3600))) 0 23 = Some (sec div 3600)"
    "parse_uint (digits 2 (nat (sec div 60 mod 60))) 0 59 = Some (sec div 60 mod 60)"
    "parse_uint (digits 2 (nat (sec mod 60))) 0 59 = Some (sec mod 60)"
    using yr i d31 hm by (simp_all add: parse_uint_digits)
  have fr: "parse_fraction (fraction (nat ns) @ ''Z'') = (ns, ''Z'')"
    using parse_fraction_fraction [of "nat ns"] ns by (simp add: nat_less_iff)
  have "ParseRFC3339 ?s = Some (((days_before y + sum_list (take (nat (m - 1)) (months y)) + (d + 1) - 1 - epoch_day) * 86400
      + 3600 * (sec div 3600) + 60 * (sec div 60 mod 60) + sec mod 60 - 0) * 10 ^ 9 + ns)"
    unfolding ParseRFC3339_def p u fr using c by (simp add: parse_zone_def u(3))
  also have "sum_list (take (nat (m - 1)) (months y)) = yd - d" using i(1,3) by simp
  also have "(days_before y + (yd - d) + (d + 1) - 1 - epoch_day) * 86400 + 3600 * (sec div 3600) +
      60 * (sec div 60 mod 60) + sec mod 60 - 0 = (days_before y + yd - epoch_day) * 86400 +
      (3600 * (sec div 3600) + 60 * (sec div 60 mod 60) + sec mod 60)"
    by simp
  also note hms [symmetric]
  finally show ?thesis using t by (simp only:)
qed

lemma dec_time_marshal: "marshal_time t = Some j \<Longrightarrow> dec_time j old = Inr t"
  by (auto simp: marshal_time_def dec_time_def ParseRFC3339_Format split: if_splits)

lemma marshal_time_dom: "marshal_time t \<noteq> None \<longleftrightarrow> 0 \<le> year_of t \<and> year_of t \<le> 9999"
  by (simp add: marshal_time_def)

text \<open>From 1 January of the year 1 on, the year is positive.\<close>

lemma year_of_nonneg: "- epoch_day * day_ns \<le> t \<Longrightarrow> 0 \<le> year_of t"
proof -
  assume t: "- epoch_day * day_ns \<le> t"
  have "- epoch_day \<le> t div day_ns"
    using zdiv_mono1 [OF t, of day_ns] by (simp add: day_ns_def epoch_day_def)
  then have z: "0 \<le> t div day_ns + epoch_day" by simp
  obtain y yd where y: "year_day (t div day_ns + epoch_day) = (y, yd)" by fastforce
  have "days_before y + yd = t div day_ns + epoch_day" "yd \<le> 365"
    using year_day_inverse [OF y] by (auto split: if_splits)
  with z have "- 365 \<le> days_before y" by linarith
  have "0 \<le> y"
  proof (rule ccontr)
    assume "\<not> 0 \<le> y"
    then have "y - 1 \<le> - 2" by simp
    then have "(y - 1) div 4 - (y - 1) div 100 + (y - 1) div 400 \<le> 1" by linarith
    with \<open>y - 1 \<le> - 2\<close> \<open>- 365 \<le> days_before y\<close> show False unfolding days_before_def by simp
  qed
  then show ?thesis using y by (simp add: year_of_def)
qed

end
