(* ===== verification/Wire.thy ===== *)
theory Wire
  imports Timestamp
begin

text \<open>
  Documents on the wire: the JSON of a \<open>CanonicalDoc\<close> (the struct tags of
  \<open>internal/contract/doc.go\<close>) that the normalizer writes with \<open>json.Marshal\<close> and the indexer
  reads with \<open>json.Unmarshal\<close>, and the dead-letter envelope both commands write. The value of
  a Kafka record is \<^term>\<open>None\<close> when it is null; a marshalling error that the code ignores
  leaves a nil slice, which is produced as a null value. Strings are those of JSON texts,
  so they are valid UTF-8 and survive encoding unchanged.
\<close>

type_synonym message = "raw option"

text \<open>A record to produce: topic, key (\<^term>\<open>None\<close> when nil) and value.\<close>

record out_record =
  or_Topic :: string
  or_Key :: "string option"
  or_Value :: message

subsection \<open>The canonical document\<close>

text \<open>A field with \<open>omitempty\<close> is left out when it is the empty string.\<close>

definition omit_empty :: "string \<Rightarrow> string \<Rightarrow> (string \<times> json) list" where
  "omit_empty k s = (if s = [] then [] else [(k, JStr s)])"

definition marshal_metadata :: "metadata \<Rightarrow> json" where
  "marshal_metadata m = JObj (omit_empty ''category'' (Category m) @ omit_empty ''url'' (URL m) @
     omit_empty ''author'' (Author m))"

text \<open>\<open>json.Marshal(doc)\<close>; \<^term>\<open>None\<close> is an error, which only the time can cause.\<close>

definition marshal_doc :: "canonical_doc \<Rightarrow> json option" where
  "marshal_doc d =
     (case marshal_time (CommitTS d) of
        None \<Rightarrow> None
      | Some ts \<Rightarrow> Some (JObj (
          [(''source'', JStr (Source d)), (''source_id'', JStr (SourceID d)), (''doc_id'', JStr (DocID d)),
           (''tenant_id'', JInt (TenantID d)), (''op'', JStr (Op d)), (''tier'', JStr (Tier d)),
           (''version'', JInt (Version d)), (''commit_ts'', ts)] @
          omit_empty ''title'' (Title d) @ omit_empty ''body'' (Body d) @
          (if ChunkID d = 0 then [] else [(''chunk_id'', JInt (ChunkID d))]) @
          [(''metadata'', marshal_metadata (Metadata d))])))"

definition zero_doc :: canonical_doc where
  "zero_doc = \<lparr>Source = [], SourceID = [], DocID = [], TenantID = 0, Op = [], Tier = [], Version = 0,
     CommitTS = zero_time, Title = [], Body = [], ChunkID = 0,
     Metadata = \<lparr>Category = [], URL = [], Author = []\<rparr>\<rparr>"

definition set_metadata :: "string \<Rightarrow> json \<Rightarrow> metadata \<Rightarrow> json_error + metadata" where
  "set_metadata k j m =
     (if k = ''category'' then into dec_string (Category m) (\<lambda>v. m\<lparr>Category := v\<rparr>) j
      else if k = ''url'' then into dec_string (URL m) (\<lambda>v. m\<lparr>URL := v\<rparr>) j
      else if k = ''author'' then into dec_string (Author m) (\<lambda>v. m\<lparr>Author := v\<rparr>) j
      else Inr m)"

definition dec_metadata :: "metadata decoder" where
  "dec_metadata = dec_struct set_metadata"

definition set_doc :: "string \<Rightarrow> json \<Rightarrow> canonical_doc \<Rightarrow> json_error + canonical_doc" where
  "set_doc k j d =
     (if k = ''source'' then into dec_string (Source d) (\<lambda>v. d\<lparr>Source := v\<rparr>) j
      else if k = ''source_id'' then into dec_string (SourceID d) (\<lambda>v. d\<lparr>SourceID := v\<rparr>) j
      else if k = ''doc_id'' then into dec_string (DocID d) (\<lambda>v. d\<lparr>DocID := v\<rparr>) j
      else if k = ''tenant_id'' then into dec_int64 (TenantID d) (\<lambda>v. d\<lparr>TenantID := v\<rparr>) j
      else if k = ''op'' then into dec_string (Op d) (\<lambda>v. d\<lparr>Op := v\<rparr>) j
      else if k = ''tier'' then into dec_string (Tier d) (\<lambda>v. d\<lparr>Tier := v\<rparr>) j
      else if k = ''version'' then into dec_int64 (Version d) (\<lambda>v. d\<lparr>Version := v\<rparr>) j
      else if k = ''commit_ts'' then into dec_time (CommitTS d) (\<lambda>v. d\<lparr>CommitTS := v\<rparr>) j
      else if k = ''title'' then into dec_string (Title d) (\<lambda>v. d\<lparr>Title := v\<rparr>) j
      else if k = ''body'' then into dec_string (Body d) (\<lambda>v. d\<lparr>Body := v\<rparr>) j
      else if k = ''chunk_id'' then into dec_int64 (ChunkID d) (\<lambda>v. d\<lparr>ChunkID := v\<rparr>) j
      else if k = ''metadata'' then into dec_metadata (Metadata d) (\<lambda>v. d\<lparr>Metadata := v\<rparr>) j
      else Inr d)"

definition dec_doc :: "canonical_doc decoder" where
  "dec_doc = dec_struct set_doc"

text \<open>\<open>json.Unmarshal\<close> of a record value; a null value is empty input, a syntax error.\<close>

definition read_doc :: "message \<Rightarrow> json_error + canonical_doc" where
  "read_doc v = (case v of None \<Rightarrow> Inl JsonSyntax | Some r \<Rightarrow> Unmarshal dec_doc zero_doc r)"

subsection \<open>The dead-letter envelope\<close>

text \<open>
  The value of a dead-letter record: \<open>json.RawMessage(original)\<close> is copied as it is (\<open>null\<close>
  when nil), and makes \<open>json.Marshal\<close> fail when it is not JSON; the error is ignored.
\<close>

definition dlq_value :: "string \<Rightarrow> string \<Rightarrow> message \<Rightarrow> message" where
  "dlq_value stage reason v =
     (let env = (\<lambda>j. Some (JText (JObj [(''error'', JStr reason), (''original'', j), (''stage'', JStr stage)])))
      in case v of None \<Rightarrow> env JNull | Some (JText j) \<Rightarrow> env j | Some (NotJSON s) \<Rightarrow> None)"

subsection \<open>Lemmas\<close>

lemma dec_fields_append:
  "dec_fields f (xs @ ys) x = (case dec_fields f xs x of Inl e \<Rightarrow> Inl e | Inr y \<Rightarrow> dec_fields f ys y)"
  by (induction xs arbitrary: x) (auto split: sum.splits)

lemma ToLower_keys [simp]:
  "ToLower ''source'' = ''source''" "ToLower ''source_id'' = ''source_id''" "ToLower ''doc_id'' = ''doc_id''"
  "ToLower ''tenant_id'' = ''tenant_id''" "ToLower ''op'' = ''op''" "ToLower ''tier'' = ''tier''"
  "ToLower ''version'' = ''version''" "ToLower ''commit_ts'' = ''commit_ts''" "ToLower ''title'' = ''title''"
  "ToLower ''body'' = ''body''" "ToLower ''chunk_id'' = ''chunk_id''" "ToLower ''metadata'' = ''metadata''"
  "ToLower ''category'' = ''category''" "ToLower ''url'' = ''url''" "ToLower ''author'' = ''author''"
  by (simp_all add: ToLower_def lower_char_def)

lemma dec_metadata_marshal:
  "dec_metadata (marshal_metadata m) \<lparr>Category = [], URL = [], Author = []\<rparr> = Inr m"
  by (cases m) (simp add: dec_metadata_def marshal_metadata_def dec_struct_def omit_empty_def set_metadata_def)

definition int64_fields :: "canonical_doc \<Rightarrow> bool" where
  "int64_fields d \<longleftrightarrow> in_int64 (TenantID d) \<and> in_int64 (Version d) \<and> in_int64 (ChunkID d)"

lemma read_marshal:
  assumes "int64_fields d" and "marshal_doc d = Some j"
  shows "read_doc (Some (JText j)) = Inr d"
proof -
  obtain ts where ts: "marshal_time (CommitTS d) = Some ts"
    using assms(2) by (auto simp: marshal_doc_def split: option.splits)
  show ?thesis
    using assms ts
    by (cases d) (auto simp: read_doc_def Unmarshal_def dec_doc_def marshal_doc_def dec_struct_def
        int64_fields_def set_doc_def zero_doc_def omit_empty_def dec_metadata_marshal dec_time_marshal)
qed

end
