(* ===== verification/Guard.thy ===== *)
theory Guard
  imports Prelude
begin

text \<open>
  Package \<open>internal/idempotency\<close> (\<open>guard.go\<close>): the version guard, a map from document id
  to the highest applied version. Every method holds the mutex for its whole body, so a
  method is one atomic step on the map.
\<close>

record guard =
  seen :: "string \<rightharpoonup> int"

definition NewGuard :: guard where
  "NewGuard = \<lparr>seen = Map.empty\<rparr>"

definition ShouldApply :: "guard \<Rightarrow> string \<Rightarrow> int \<Rightarrow> bool" where
  "ShouldApply g docID version =
     (case seen g docID of None \<Rightarrow> True | Some stored \<Rightarrow> version > stored)"

definition Commit :: "guard \<Rightarrow> string \<Rightarrow> int \<Rightarrow> guard" where
  "Commit g docID version =
     (case seen g docID of
        None \<Rightarrow> g\<lparr>seen := (seen g)(docID \<mapsto> version)\<rparr>
      | Some cur \<Rightarrow> if version > cur then g\<lparr>seen := (seen g)(docID \<mapsto> version)\<rparr> else g)"

text \<open>\<open>Version\<close> returns the pair (value, ok) of the map read.\<close>

definition GuardVersion :: "guard \<Rightarrow> string \<Rightarrow> int \<times> bool" where
  "GuardVersion g docID = (case seen g docID of None \<Rightarrow> (0, False) | Some v \<Rightarrow> (v, True))"

subsection \<open>The contract of a version guard\<close>

text \<open>
  What the indexer relies on: a guard is a watermark per key that only rises. The
  client's lemmas (replay safety, order independence of commits) follow from the laws.
\<close>

locale version_guard =
  fixes fresh :: "'g"
    and should :: "'g \<Rightarrow> string \<Rightarrow> int \<Rightarrow> bool"
    and commit :: "'g \<Rightarrow> string \<Rightarrow> int \<Rightarrow> 'g"
    and mark :: "'g \<Rightarrow> string \<Rightarrow> int option"
  assumes mark_fresh: "mark fresh k = None"
    and should_iff: "should g k v \<longleftrightarrow> (\<forall>w. mark g k = Some w \<longrightarrow> w < v)"
    and mark_commit_same:
      "mark (commit g k v) k = Some (case mark g k of None \<Rightarrow> v | Some w \<Rightarrow> max v w)"
    and mark_commit_other: "k \<noteq> k' \<Longrightarrow> mark (commit g k v) k' = mark g k'"
begin

fun commit_all :: "'g \<Rightarrow> (string \<times> int) list \<Rightarrow> 'g" where
  "commit_all g [] = g"
| "commit_all g ((k, v) # kvs) = commit_all (commit g k v) kvs"

lemma fresh_applies: "should fresh k v"
  by (simp add: should_iff mark_fresh)

lemma commit_blocks: "should (commit g k v) k w \<Longrightarrow> v < w"
  by (auto simp: should_iff mark_commit_same split: option.splits)

lemma commit_monotone: "mark g k = Some w \<Longrightarrow> \<exists>w'. mark (commit g k' v) k = Some w' \<and> w \<le> w'"
  by (cases "k = k'") (auto simp: mark_commit_same mark_commit_other)

lemma commit_all_monotone:
  "mark g k = Some w \<Longrightarrow> \<exists>w'. mark (commit_all g kvs) k = Some w' \<and> w \<le> w'"
proof (induction kvs arbitrary: g w)
  case (Cons kv kvs)
  obtain k' v where kv: "kv = (k', v)" by fastforce
  obtain w1 where w1: "mark (commit g k' v) k = Some w1" "w \<le> w1"
    using commit_monotone [OF Cons.prems] by blast
  then show ?case using Cons.IH [OF w1(1)] kv by force
qed auto

text \<open>A version committed once is never accepted again, whatever is committed later.\<close>

lemma commit_all_blocks:
  assumes "(k, v) \<in> set kvs" and "should (commit_all g kvs) k w"
  shows "v < w"
  using assms
proof (induction kvs arbitrary: g)
  case (Cons kv kvs)
  obtain k' v' where kv: "kv = (k', v')" by fastforce
  show ?case
  proof (cases "(k, v) = (k', v')")
    case True
    obtain u where u: "mark (commit g k v) k = Some u" "v \<le> u"
      using mark_commit_same by (force split: option.splits)
    obtain u' where "mark (commit_all (commit g k v) kvs) k = Some u'" "u \<le> u'"
      using commit_all_monotone [OF u(1)] by blast
    then show ?thesis using Cons.prems(2) kv True u(2) by (auto simp: should_iff)
  next
    case False
    then show ?thesis using Cons kv by auto
  qed
qed simp

lemma mark_commit_all:
  "mark (commit_all g kvs) k =
     (if filter (\<lambda>p. fst p = k) kvs = [] then mark g k
      else Some (Max (set (map snd (filter (\<lambda>p. fst p = k) kvs)) \<union> set_option (mark g k))))"
proof (induction kvs arbitrary: g)
  case (Cons kv kvs)
  obtain k' v where kv: "kv = (k', v)" by fastforce
  let ?vs = "set (map snd (filter (\<lambda>p. fst p = k) kvs))"
  show ?case
  proof (cases "k' = k")
    case True
    then show ?thesis
      using Cons.IH [of "commit g k v"] kv Max_insert_max [of ?vs v]
      by (auto simp: mark_commit_same insert_commute simp del: set_filter split: option.splits)
  next
    case False
    then show ?thesis using Cons.IH [of "commit g k' v"] kv by (simp add: mark_commit_other)
  qed
qed simp

text \<open>The watermark after a sequence of commits does not depend on their order.\<close>

lemma commit_all_perm:
  assumes "mset kvs = mset kvs'"
  shows "mark (commit_all g kvs) k = mark (commit_all g kvs') k"
proof -
  have "mset (filter (\<lambda>p. fst p = k) kvs) = mset (filter (\<lambda>p. fst p = k) kvs')"
    using assms by simp
  then have "set (filter (\<lambda>p. fst p = k) kvs) = set (filter (\<lambda>p. fst p = k) kvs')"
    by (metis set_mset_mset)
  then show ?thesis
    by (metis (no_types, lifting) mark_commit_all set_map set_empty)
qed

end

interpretation vg: version_guard NewGuard ShouldApply Commit seen
  by unfold_locales
     (auto simp: NewGuard_def ShouldApply_def Commit_def split: option.splits)

end
