(* ===== verification/Opensearch.thy ===== *)
theory Opensearch
  imports Contract
begin

text \<open>
  Package \<open>internal/opensearch\<close> (\<open>opensearch.go\<close>): the wrapper around the OpenSearch
  client. The cluster behind the client is a parameter: each operation takes the API call
  it makes as an argument, a function of the cluster state \<open>'os\<close>.
  \<open>external_versioning\<close> states the documented behaviour of a \<open>_bulk\<close> request whose items
  carry \<open>version_type=external\<close>: the response lists one status per item in request order; an
  item is applied only if its version exceeds the version the cluster holds for the id,
  deletes leave a tombstone with their version, and an item may also fail on its own (a
  mapping error 400, a full queue 429), in which case it is not applied.
\<close>

subsection \<open>Data\<close>

text \<open>The indexed shape \<open>osDoc\<close>; the formatted \<open>commit_ts\<close> is kept as the instant it denotes.\<close>

record os_doc =
  os_DocID :: string
  os_Source :: string
  os_TenantID :: string
  os_Title :: string
  os_Body :: string
  os_Category :: string
  os_Version :: int
  os_CommitTS :: time

text \<open>One action of a \<open>_bulk\<close> body: id, external version and, for \<open>index\<close>, the document.\<close>

datatype bulk_op = IndexOp string int os_doc | DeleteOp string int

datatype os_error =
    BulkErr string
  | BulkItemFailed string int
  | SearchErr string
  | MGetErr string
  | CreateIndexErr
  | HealthErr string

subsection \<open>New and EnsureIndex\<close>

definition IndexName :: string where "IndexName = ''documents''"

text \<open>\<open>strings.TrimRight(addr, "/")\<close>, the address \<open>New\<close> configures.\<close>

definition New_address :: "string \<Rightarrow> string" where
  "New_address addr = rev (dropWhile (\<lambda>c. c = CHR ''/'') (rev addr))"

text \<open>The field types of the mapping \<open>EnsureIndex\<close> creates the index with.\<close>

definition index_mapping :: "(string \<times> string) list" where
  "index_mapping = [(''doc_id'', ''keyword''), (''source'', ''keyword''), (''tenant_id'', ''keyword''),
     (''title'', ''text''), (''body'', ''text''), (''category'', ''keyword''), (''version'', ''long''),
     (''commit_ts'', ''date'')]"

text \<open>What \<open>Indices.Create\<close> returns: success, a structured error with its type, another error.\<close>

datatype create_result = CreateOK | CreateStructError string | CreateOtherError

definition EnsureIndex :: "create_result \<Rightarrow> os_error option" where
  "EnsureIndex r =
     (case r of
        CreateOK \<Rightarrow> None
      | CreateStructError t \<Rightarrow>
          (if t = ''resource_already_exists_exception'' then None else Some CreateIndexErr)
      | CreateOtherError \<Rightarrow> Some CreateIndexErr)"

subsection \<open>Bulk\<close>

definition os_doc_of :: "canonical_doc \<Rightarrow> os_doc" where
  "os_doc_of d = \<lparr>os_DocID = DocID d, os_Source = Source d, os_TenantID = Itoa (TenantID d),
     os_Title = Title d, os_Body = Body d, os_Category = Category (Metadata d),
     os_Version = Version d, os_CommitTS = CommitTS d\<rparr>"

definition bulk_op_of :: "canonical_doc \<Rightarrow> bulk_op" where
  "bulk_op_of d =
     (if Op d = OpDelete then DeleteOp (DocID d) (Version d)
      else IndexOp (DocID d) (Version d) (os_doc_of d))"

text \<open>The \<open>line\<close> that \<open>order\<close> records for an item.\<close>

definition bulk_line_of :: "canonical_doc \<Rightarrow> string \<times> bool" where
  "bulk_line_of d = (DocID d, Op d = OpDelete)"

text \<open>The inner loop over the entries of one response item (one per action).\<close>

fun scan_item :: "string \<Rightarrow> bool \<Rightarrow> int list \<Rightarrow> string set \<Rightarrow> os_error + string set" where
  "scan_item docID isDelete [] applied = Inr applied"
| "scan_item docID isDelete (status # rest) applied =
     (if status < 300 then scan_item docID isDelete rest (insert docID applied)
      else if status = 409 then scan_item docID isDelete rest applied
      else if status = 404 \<and> isDelete then scan_item docID isDelete rest (insert docID applied)
      else Inl (BulkItemFailed docID status))"

text \<open>The loop over the response items; items beyond the request lines end it.\<close>

fun scan_items ::
  "(string \<times> bool) list \<Rightarrow> int list list \<Rightarrow> string set \<Rightarrow> os_error + string set" where
  "scan_items order [] applied = Inr applied"
| "scan_items [] (item # items) applied = Inr applied"
| "scan_items ((docID, isDelete) # order) (item # items) applied =
     (case scan_item docID isDelete item applied of
        Inl e \<Rightarrow> Inl e
      | Inr applied' \<Rightarrow> scan_items order items applied')"

type_synonym 'os bulk_api = "'os \<Rightarrow> bulk_op list \<Rightarrow> (string + int list list) \<times> 'os"

definition Bulk :: "'os bulk_api \<Rightarrow> 'os \<Rightarrow> canonical_doc list \<Rightarrow> (os_error + string set) \<times> 'os" where
  "Bulk api s docs =
     (if docs = [] then (Inr {}, s)
      else (case api s (map bulk_op_of docs) of
              (Inl e, s') \<Rightarrow> (Inl (BulkErr e), s')
            | (Inr items, s') \<Rightarrow> (scan_items (map bulk_line_of docs) items {}, s')))"

subsection \<open>Search, GetByIDs, Health\<close>

record os_hit =
  hit_DocID :: string
  hit_Score :: real

text \<open>
  The search API takes the query text, the term filters and the size, and returns for each
  hit the \<open>doc_id\<close> of its \<open>_source\<close> (\<^term>\<open>None\<close> when it does not decode) and its score.
\<close>

type_synonym 'os search_api =
  "'os \<Rightarrow> string \<Rightarrow> (string \<times> string) list \<Rightarrow> int \<Rightarrow> string + (string option \<times> real) list"

definition OsSearch ::
  "'os search_api \<Rightarrow> 'os \<Rightarrow> string \<Rightarrow> (string \<times> string) list \<Rightarrow> int \<Rightarrow> os_error + os_hit list" where
  "OsSearch api s query filters sz =
     (case api s query filters sz of
        Inl e \<Rightarrow> Inl (SearchErr e)
      | Inr hits \<Rightarrow>
          Inr (map (\<lambda>(src, score). \<lparr>hit_DocID = (case src of None \<Rightarrow> [] | Some i \<Rightarrow> i),
                                     hit_Score = score\<rparr>) hits))"

record os_stored =
  st_DocID :: string
  st_Source :: string
  st_Title :: string
  st_Body :: string
  st_Category :: string

text \<open>One entry of an \<open>_mget\<close> response: \<open>_id\<close>, \<open>found\<close>, and the stored document.\<close>

record mget_item =
  mg_ID :: string
  mg_Found :: bool
  mg_Source :: os_doc

definition stored_of :: "os_doc \<Rightarrow> os_stored" where
  "stored_of s = \<lparr>st_DocID = os_DocID s, st_Source = os_Source s, st_Title = os_Title s,
     st_Body = os_Body s, st_Category = os_Category s\<rparr>"

fun mget_collect :: "mget_item list \<Rightarrow> (string \<rightharpoonup> os_stored) \<Rightarrow> (string \<rightharpoonup> os_stored)" where
  "mget_collect [] out = out"
| "mget_collect (d # ds) out =
     (if \<not> mg_Found d then mget_collect ds out
      else mget_collect ds (out(mg_ID d \<mapsto> stored_of (mg_Source d))))"

type_synonym 'os mget_api = "'os \<Rightarrow> string list \<Rightarrow> string + mget_item list"

definition GetByIDs ::
  "'os mget_api \<Rightarrow> 'os \<Rightarrow> string list \<Rightarrow> os_error + (string \<rightharpoonup> os_stored)" where
  "GetByIDs api s ids =
     (if ids = [] then Inr Map.empty
      else (case api s ids of
              Inl e \<Rightarrow> Inl (MGetErr e)
            | Inr ds \<Rightarrow> Inr (mget_collect ds Map.empty)))"

definition OsHealth :: "string option \<Rightarrow> os_error option" where
  "OsHealth r = map_option HealthErr r"

subsection \<open>The documented behaviour of external versioning\<close>

text \<open>A versioned store: the version held for an id and the live document, if any.\<close>

type_synonym vstore = "string \<rightharpoonup> int \<times> os_doc option"

definition op_id :: "bulk_op \<Rightarrow> string" where
  "op_id op = (case op of IndexOp i v d \<Rightarrow> i | DeleteOp i v \<Rightarrow> i)"

definition op_version :: "bulk_op \<Rightarrow> int" where
  "op_version op = (case op of IndexOp i v d \<Rightarrow> v | DeleteOp i v \<Rightarrow> v)"

definition op_result :: "bulk_op \<Rightarrow> os_doc option" where
  "op_result op = (case op of IndexOp i v d \<Rightarrow> Some d | DeleteOp i v \<Rightarrow> None)"

definition newer :: "vstore \<Rightarrow> string \<Rightarrow> int \<Rightarrow> bool" where
  "newer m i v = (case m i of None \<Rightarrow> True | Some (w, _) \<Rightarrow> v > w)"

definition live :: "vstore \<Rightarrow> string \<Rightarrow> bool" where
  "live m i = (case m i of Some (w, Some d) \<Rightarrow> True | _ \<Rightarrow> False)"

definition ext_status :: "vstore \<Rightarrow> bulk_op \<Rightarrow> int" where
  "ext_status m op =
     (if \<not> newer m (op_id op) (op_version op) then 409
      else (case op of
              IndexOp i v d \<Rightarrow> if live m i then 200 else 201
            | DeleteOp i v \<Rightarrow> if live m i then 200 else 404))"

definition ext_apply :: "vstore \<Rightarrow> bulk_op \<Rightarrow> vstore" where
  "ext_apply m op =
     (if newer m (op_id op) (op_version op)
      then m(op_id op \<mapsto> (op_version op, op_result op)) else m)"

fun ext_bulk :: "vstore \<Rightarrow> bulk_op list \<Rightarrow> int list \<times> vstore" where
  "ext_bulk m [] = ([], m)"
| "ext_bulk m (op # ops) =
     (let (ss, m') = ext_bulk (ext_apply m op) ops in (ext_status m op # ss, m'))"

text \<open>A failure of a single item: any error status but the two that the code expects.\<close>

definition item_failure :: "bulk_op \<Rightarrow> int \<Rightarrow> bool" where
  "item_failure op st \<longleftrightarrow>
     400 \<le> st \<and> st \<noteq> 409 \<and> (st = 404 \<longrightarrow> (case op of IndexOp i v d \<Rightarrow> True | DeleteOp i v \<Rightarrow> False))"

text \<open>The store after an answered request: items with a failure status were not applied.\<close>

fun bulk_outcome :: "vstore \<Rightarrow> bulk_op list \<Rightarrow> int list \<Rightarrow> vstore option" where
  "bulk_outcome m [] [] = Some m"
| "bulk_outcome m (op # ops) (st # sts) =
     (if st = ext_status m op then bulk_outcome (ext_apply m op) ops sts
      else if item_failure op st then bulk_outcome m ops sts
      else None)"
| "bulk_outcome m [] (st # sts) = None"
| "bulk_outcome m (op # ops) [] = None"

definition external_versioning :: "'os bulk_api \<Rightarrow> ('os \<Rightarrow> vstore) \<Rightarrow> bool" where
  "external_versioning api view \<longleftrightarrow>
     (\<forall>s ops items s'. api s ops = (Inr items, s') \<longrightarrow>
        (\<exists>sts. items = map (\<lambda>st. [st]) sts \<and> bulk_outcome (view s) ops sts = Some (view s')))"

text \<open>No item of an answer failed on its own.\<close>

definition items_taken :: "bulk_op list \<Rightarrow> int list list \<Rightarrow> bool" where
  "items_taken ops items \<longleftrightarrow> list_all2 (\<lambda>op item. \<forall>st\<in>set item. \<not> item_failure op st) ops items"

text \<open>The reference cluster, used to show that the hypothesis can hold.\<close>

definition ext_api :: "vstore bulk_api" where
  "ext_api m ops = (let (ss, m') = ext_bulk m ops in (Inr (map (\<lambda>st. [st]) ss), m'))"

text \<open>
  The effect of a request on the store and on the set of applied ids, as a specification of
  \<open>Bulk\<close>.
\<close>

definition applied_ids :: "vstore \<Rightarrow> canonical_doc list \<Rightarrow> string set" where
  "applied_ids m docs = {DocID d |d. d \<in> set docs \<and> newer m (DocID d) (Version d)}"

definition applied_store :: "vstore \<Rightarrow> canonical_doc list \<Rightarrow> vstore" where
  "applied_store m docs = foldl ext_apply m (map bulk_op_of docs)"

subsection \<open>Lemmas\<close>

lemma bulk_outcome_ext: "bulk_outcome m ops (fst (ext_bulk m ops)) = Some (snd (ext_bulk m ops))"
  by (induction ops arbitrary: m) (auto simp: Let_def split: prod.splits, metis fst_conv snd_conv)

lemma external_versioning_ext_api: "external_versioning ext_api (\<lambda>m. m)"
proof -
  have "fst (ext_api m ops) = Inr items \<Longrightarrow> items = map (\<lambda>st. [st]) (fst (ext_bulk m ops))"
    "snd (ext_api m ops) = snd (ext_bulk m ops)" for m ops items
    by (simp_all add: ext_api_def Let_def split_def)
  then show ?thesis
    unfolding external_versioning_def using bulk_outcome_ext by (metis fst_conv snd_conv)
qed

lemma op_of_doc [simp]:
  "op_id (bulk_op_of d) = DocID d" "op_version (bulk_op_of d) = Version d"
  "op_result (bulk_op_of d) = (if Op d = OpDelete then None else Some (os_doc_of d))"
  by (simp_all add: bulk_op_of_def op_id_def op_version_def op_result_def)

lemma ext_apply_other: "op_id op \<noteq> i \<Longrightarrow> ext_apply m op i = m i"
  by (simp add: ext_apply_def)

lemma newer_ext_apply_other:
  "op_id op \<noteq> i \<Longrightarrow> newer (ext_apply m op) i v \<longleftrightarrow> newer m i v"
  by (simp add: newer_def ext_apply_other)

text \<open>A failed item is a hard error of \<open>Bulk\<close>.\<close>

lemma scan_item_failure:
  "item_failure (bulk_op_of d) st \<Longrightarrow>
     scan_item (DocID d) (Op d = OpDelete) [st] applied = Inl (BulkItemFailed (DocID d) st)"
  by (auto simp: item_failure_def bulk_op_of_def split: if_splits)

text \<open>One item of the response puts the id into the applied set exactly when it was newer.\<close>

lemma scan_item_ext:
  "scan_item (DocID d) (Op d = OpDelete) [ext_status m (bulk_op_of d)] applied =
     Inr (if newer m (DocID d) (Version d) then insert (DocID d) applied else applied)"
  by (simp add: ext_status_def bulk_op_of_def op_id_def op_version_def)

lemma snd_ext_bulk: "snd (ext_bulk m ops) = foldl ext_apply m ops"
  by (induction ops arbitrary: m) (auto split: prod.splits simp: Let_def, metis snd_conv)

lemma applied_ids_Cons:
  assumes "DocID d \<notin> DocID ` set docs"
  shows "applied_ids m (d # docs) =
    (if newer m (DocID d) (Version d) then {DocID d} else {}) \<union>
    applied_ids (ext_apply m (bulk_op_of d)) docs"
proof -
  have "newer (ext_apply m (bulk_op_of d)) (DocID e) (Version e) = newer m (DocID e) (Version e)"
    if "e \<in> set docs" for e
    using assms that by (intro newer_ext_apply_other) force
  then show ?thesis by (auto simp: applied_ids_def)
qed

lemma scan_items_ext:
  assumes "distinct (map DocID docs)"
  shows "scan_items (map bulk_line_of docs)
           (map (\<lambda>st. [st]) (fst (ext_bulk m (map bulk_op_of docs)))) applied =
         Inr (applied \<union> applied_ids m docs)"
  using assms
proof (induction docs arbitrary: m applied)
  case Nil
  then show ?case by (simp add: applied_ids_def)
next
  case (Cons d docs)
  have "scan_items (map bulk_line_of docs)
          (map (\<lambda>st. [st]) (fst (ext_bulk (ext_apply m (bulk_op_of d)) (map bulk_op_of docs)))) a =
        Inr (a \<union> applied_ids (ext_apply m (bulk_op_of d)) docs)" for a
    using Cons by simp
  then show ?case
    using Cons.prems scan_item_ext [of d m applied]
    by (simp add: bulk_line_of_def [of d] Let_def split_def applied_ids_Cons del: scan_item.simps)
qed

text \<open>An answer that \<open>Bulk\<close> takes as success reports no failed item.\<close>

lemma scan_items_outcome:
  assumes "bulk_outcome m (map bulk_op_of docs) sts = Some m'"
    and "scan_items (map bulk_line_of docs) (map (\<lambda>st. [st]) sts) applied = Inr r"
  shows "sts = fst (ext_bulk m (map bulk_op_of docs)) \<and> m' = snd (ext_bulk m (map bulk_op_of docs))"
  using assms
proof (induction docs arbitrary: m sts applied)
  case Nil
  then show ?case by (cases sts) simp_all
next
  case (Cons d docs)
  then obtain st rest where sts: "sts = st # rest" by (cases sts) simp_all
  have "st = ext_status m (bulk_op_of d)"
    using Cons.prems scan_item_failure [of d st applied]
    by (auto simp: sts bulk_line_of_def [of d] simp del: scan_item.simps split: if_splits)
  then show ?case
    using Cons.prems Cons.IH [of "ext_apply m (bulk_op_of d)" rest]
    by (auto simp: sts bulk_line_of_def [of d] Let_def split_def simp del: scan_item.simps split: sum.splits)
qed

lemma applied_store_other: "i \<notin> DocID ` set docs \<Longrightarrow> applied_store m docs i = m i"
  by (induction docs arbitrary: m) (auto simp: applied_store_def ext_apply_other)

lemma applied_store_at:
  assumes "distinct (map DocID docs)" "d \<in> set docs"
  shows "applied_store m docs (DocID d) =
    (if newer m (DocID d) (Version d)
     then Some (Version d, if Op d = OpDelete then None else Some (os_doc_of d))
     else m (DocID d))"
  using assms
proof (induction docs arbitrary: m)
  case (Cons e docs)
  show ?case
  proof (cases "d = e")
    case True
    with Cons.prems have "DocID d \<notin> DocID ` set docs" by auto
    then have "applied_store (ext_apply m (bulk_op_of d)) docs (DocID d) =
        ext_apply m (bulk_op_of d) (DocID d)"
      by (rule applied_store_other)
    with True show ?thesis by (simp add: applied_store_def ext_apply_def)
  next
    case False
    with Cons.prems have ne: "DocID e \<noteq> DocID d" by auto
    have "applied_store m (e # docs) (DocID d) =
        applied_store (ext_apply m (bulk_op_of e)) docs (DocID d)"
      by (simp add: applied_store_def)
    also have "\<dots> = (if newer (ext_apply m (bulk_op_of e)) (DocID d) (Version d)
       then Some (Version d, if Op d = OpDelete then None else Some (os_doc_of d))
       else ext_apply m (bulk_op_of e) (DocID d))"
      using Cons False by simp
    finally show ?thesis using ne by (simp add: newer_ext_apply_other ext_apply_other)
  qed
qed simp

text \<open>The whole call: with distinct ids, \<open>Bulk\<close> reports exactly the newer documents.\<close>

lemma Bulk_external:
  assumes "external_versioning api view" "distinct (map DocID docs)"
    and "Bulk api s docs = (Inr applied, s')"
  shows "applied = applied_ids (view s) docs" and "view s' = applied_store (view s) docs"
proof -
  have "applied = applied_ids (view s) docs \<and> view s' = applied_store (view s) docs"
  proof (cases "docs = []")
    case True
    with assms(3) show ?thesis by (auto simp: Bulk_def applied_ids_def applied_store_def)
  next
    case False
    with assms(3) obtain items where
      api: "api s (map bulk_op_of docs) = (Inr items, s')" and
      sc: "scan_items (map bulk_line_of docs) items {} = Inr applied"
      by (auto simp: Bulk_def split: prod.splits sum.splits)
    obtain sts where sts: "items = map (\<lambda>st. [st]) sts"
      "bulk_outcome (view s) (map bulk_op_of docs) sts = Some (view s')"
      using assms(1) api unfolding external_versioning_def by blast
    have "items = map (\<lambda>st. [st]) (fst (ext_bulk (view s) (map bulk_op_of docs)))"
      and "view s' = snd (ext_bulk (view s) (map bulk_op_of docs))"
      using scan_items_outcome [OF sts(2)] sc sts(1) by blast+
    with sc scan_items_ext [OF assms(2), of "view s" "{}"] show ?thesis
      by (simp add: snd_ext_bulk applied_store_def)
  qed
  then show "applied = applied_ids (view s) docs" and "view s' = applied_store (view s) docs"
    by blast+
qed

lemma ext_status_no_failure: "\<not> item_failure op (ext_status m op)"
  by (simp add: item_failure_def ext_status_def split: bulk_op.splits)

lemma items_taken_ext: "items_taken ops (map (\<lambda>st. [st]) (fst (ext_bulk m ops)))"
  by (induction ops arbitrary: m) (auto simp: items_taken_def ext_status_no_failure Let_def split_def)

lemma outcome_taken:
  "bulk_outcome m ops sts = Some m' \<Longrightarrow> items_taken ops (map (\<lambda>st. [st]) sts) \<Longrightarrow>
     sts = fst (ext_bulk m ops) \<and> m' = snd (ext_bulk m ops)"
proof (induction m ops sts rule: bulk_outcome.induct)
  case (2 m op ops st sts)
  then show ?case by (auto simp: items_taken_def Let_def split_def split: if_splits)
qed simp_all

text \<open>When no item fails, a delivered request is no error, stale items included.\<close>

lemma Bulk_no_item_error:
  assumes "external_versioning api view" "distinct (map DocID docs)"
    and "api s (map bulk_op_of docs) = (Inr items, s')" "docs \<noteq> []"
    and "items_taken (map bulk_op_of docs) items"
  shows "Bulk api s docs = (Inr (applied_ids (view s) docs), s')"
proof -
  obtain sts where sts: "items = map (\<lambda>st. [st]) sts"
    "bulk_outcome (view s) (map bulk_op_of docs) sts = Some (view s')"
    using assms(1,3) unfolding external_versioning_def by blast
  have "items = map (\<lambda>st. [st]) (fst (ext_bulk (view s) (map bulk_op_of docs)))"
    using outcome_taken [OF sts(2)] assms(5) sts(1) by simp
  with assms scan_items_ext [OF assms(2), of "view s" "{}"] show ?thesis
    by (simp add: Bulk_def)
qed

text \<open>One failed item makes the whole call an error, whatever the others reported.\<close>

lemma Bulk_item_failure:
  assumes "external_versioning api view" "docs \<noteq> []"
    and "api s (map bulk_op_of docs) = (Inr items, s')" "\<not> items_taken (map bulk_op_of docs) items"
  shows "\<exists>e. Bulk api s docs = (Inl e, s')"
proof -
  obtain sts where sts: "items = map (\<lambda>st. [st]) sts"
    "bulk_outcome (view s) (map bulk_op_of docs) sts = Some (view s')"
    using assms(1,3) unfolding external_versioning_def by blast
  have "scan_items (map bulk_line_of docs) items {} \<noteq> Inr r" for r
    using scan_items_outcome [OF sts(2)] items_taken_ext assms(4) sts(1) by metis
  then show ?thesis using assms(2,3) by (cases "scan_items (map bulk_line_of docs) items {}") (auto simp: Bulk_def)
qed

lemma mget_collect_Some:
  "mget_collect ds out i = Some x \<Longrightarrow>
     out i = Some x \<or> (\<exists>d\<in>set ds. mg_Found d \<and> mg_ID d = i \<and> x = stored_of (mg_Source d))"
proof (induction ds arbitrary: out)
  case (Cons d ds)
  then show ?case
    by (cases "mg_Found d"; cases "mg_ID d = i") fastforce+
qed simp

end
