(* ===== verification/Qdrant.thy ===== *)
theory Qdrant
  imports Prelude
begin

text \<open>
  Package \<open>internal/qdrant\<close> (\<open>qdrant.go\<close>): the wrapper around the Qdrant client. The vector
  store behind the client is a parameter, as the cluster of \<open>Opensearch\<close> is; the
  predicates \<open>upsert_spec\<close>, \<open>delete_spec\<close> and \<open>query_spec\<close> state the documented behaviour of the
  three calls over a view of the collection as a map from point id to point. A keyword
  match condition holds for a payload value that is that string, never for an integer.
\<close>

subsection \<open>Data\<close>

datatype pvalue = PStr string | PInt int

record point =
  pt_ID :: string
  pt_Vector :: "real list"
  pt_Payload :: "(string \<times> pvalue) list"

datatype qd_error =
    ExistsErr string
  | CreateErr string
  | UpsertErr string
  | DeleteErr string
  | QueryErr string
  | ListErr string

definition Collection :: string where "Collection = ''documents''"

text \<open>A condition \<open>NewMatch(key, value)\<close>.\<close>

type_synonym match_cond = "string \<times> string"

type_synonym 'qd upsert_api = "'qd \<Rightarrow> point list \<Rightarrow> string option \<times> 'qd"
type_synonym 'qd delete_api = "'qd \<Rightarrow> match_cond list \<Rightarrow> string option \<times> 'qd"
type_synonym 'qd query_api =
  "'qd \<Rightarrow> real list \<Rightarrow> match_cond list \<Rightarrow> nat \<Rightarrow> string + ((string \<times> pvalue) list \<times> real) list"

subsection \<open>Operations\<close>

text \<open>\<open>New\<close>: the result of \<open>NewClient\<close>, the error wrapped; a client knows its collection.\<close>

definition NewQdrant :: "(string \<Rightarrow> int \<Rightarrow> string option) \<Rightarrow> string \<Rightarrow> int \<Rightarrow> string + string" where
  "NewQdrant connect host port =
     (case connect host port of
        Some e \<Rightarrow> Inl (''qdrant: connect: '' @ e)
      | None \<Rightarrow> Inr Collection)"

text \<open>
  \<open>EnsureCollection\<close>: the result of \<open>CollectionExists\<close>, then the \<open>CreateCollection\<close> call with
  the vector size.
\<close>

definition EnsureCollection ::
  "string + bool \<Rightarrow> (nat \<Rightarrow> string option) \<Rightarrow> int \<Rightarrow> qd_error option" where
  "EnsureCollection exists create dm =
     (case exists of
        Inl e \<Rightarrow> Some (ExistsErr e)
      | Inr True \<Rightarrow> None
      | Inr False \<Rightarrow> map_option CreateErr (create (to_uint64 dm)))"

definition Upsert :: "'qd upsert_api \<Rightarrow> 'qd \<Rightarrow> point list \<Rightarrow> qd_error option \<times> 'qd" where
  "Upsert api s points =
     (if points = [] then (None, s)
      else (case api s points of (e, s') \<Rightarrow> (map_option UpsertErr e, s')))"

definition DeleteByDocIDs :: "'qd delete_api \<Rightarrow> 'qd \<Rightarrow> string list \<Rightarrow> qd_error option \<times> 'qd" where
  "DeleteByDocIDs api s docIDs =
     (if docIDs = [] then (None, s)
      else (case api s (map (\<lambda>i. (''doc_id'', i)) docIDs) of
              (e, s') \<Rightarrow> (map_option DeleteErr e, s')))"

record qd_hit =
  qhit_DocID :: string
  qhit_Score :: real

text \<open>\<open>GetStringValue\<close> is the empty string for a value that is no string.\<close>

definition GetStringValue :: "pvalue \<Rightarrow> string" where
  "GetStringValue v = (case v of PStr s \<Rightarrow> s | PInt i \<Rightarrow> [])"

definition hit_of :: "(string \<times> pvalue) list \<times> real \<Rightarrow> qd_hit" where
  "hit_of r = \<lparr>qhit_DocID = (case map_of (fst r) ''doc_id'' of
                                None \<Rightarrow> [] | Some v \<Rightarrow> GetStringValue v),
               qhit_Score = snd r\<rparr>"

definition QdSearch ::
  "'qd query_api \<Rightarrow> 'qd \<Rightarrow> real list \<Rightarrow> (string \<times> string) list \<Rightarrow> int \<Rightarrow> qd_error + qd_hit list" where
  "QdSearch api s vector filters limit =
     (case api s vector filters (to_uint64 limit) of
        Inl e \<Rightarrow> Inl (QueryErr e)
      | Inr res \<Rightarrow> Inr (map hit_of res))"

definition QdHealth :: "string option \<Rightarrow> qd_error option" where
  "QdHealth r = map_option ListErr r"

subsection \<open>Documented behaviour of the store\<close>

definition matches :: "match_cond \<Rightarrow> point \<Rightarrow> bool" where
  "matches c p \<longleftrightarrow> map_of (pt_Payload p) (fst c) = Some (PStr (snd c))"

definition put_points :: "(string \<rightharpoonup> point) \<Rightarrow> point list \<Rightarrow> (string \<rightharpoonup> point)" where
  "put_points m ps = foldl (\<lambda>m p. m(pt_ID p \<mapsto> p)) m ps"

definition drop_points :: "(string \<rightharpoonup> point) \<Rightarrow> match_cond list \<Rightarrow> (string \<rightharpoonup> point)" where
  "drop_points m conds =
     (\<lambda>i. case m i of None \<Rightarrow> None
          | Some p \<Rightarrow> if list_ex (\<lambda>c. matches c p) conds then None else Some p)"

definition upsert_spec :: "'qd upsert_api \<Rightarrow> ('qd \<Rightarrow> string \<rightharpoonup> point) \<Rightarrow> bool" where
  "upsert_spec api view \<longleftrightarrow>
     (\<forall>s ps s'. api s ps = (None, s') \<longrightarrow> view s' = put_points (view s) ps)"

definition delete_spec :: "'qd delete_api \<Rightarrow> ('qd \<Rightarrow> string \<rightharpoonup> point) \<Rightarrow> bool" where
  "delete_spec api view \<longleftrightarrow>
     (\<forall>s cs s'. api s cs = (None, s') \<longrightarrow> view s' = drop_points (view s) cs)"

definition query_spec :: "'qd query_api \<Rightarrow> ('qd \<Rightarrow> string \<rightharpoonup> point) \<Rightarrow> bool" where
  "query_spec api view \<longleftrightarrow>
     (\<forall>s v must n res r. api s v must n = Inr res \<and> r \<in> set res \<longrightarrow>
        (\<exists>p \<in> ran (view s). pt_Payload p = fst r \<and> list_all (\<lambda>c. matches c p) must))"

text \<open>The reference store, used to show that the hypotheses can hold.\<close>

definition ref_upsert :: "(string \<rightharpoonup> point) upsert_api" where
  "ref_upsert m ps = (None, put_points m ps)"

definition ref_delete :: "(string \<rightharpoonup> point) delete_api" where
  "ref_delete m cs = (None, drop_points m cs)"

subsection \<open>Lemmas\<close>

lemma upsert_spec_ref: "upsert_spec ref_upsert (\<lambda>m. m)"
  by (simp add: upsert_spec_def ref_upsert_def)

lemma delete_spec_ref: "delete_spec ref_delete (\<lambda>m. m)"
  by (simp add: delete_spec_def ref_delete_def)

lemma put_points_Nil [simp]: "put_points m [] = m"
  by (simp add: put_points_def)

lemma put_points_Cons: "put_points m (p # ps) = put_points (m(pt_ID p \<mapsto> p)) ps"
  by (simp add: put_points_def)

lemma put_points_other: "i \<notin> pt_ID ` set ps \<Longrightarrow> put_points m ps i = m i"
  by (induction ps arbitrary: m) (auto simp: put_points_Cons)

lemma put_points_at:
  "distinct (map pt_ID ps) \<Longrightarrow> p \<in> set ps \<Longrightarrow> put_points m ps (pt_ID p) = Some p"
proof (induction ps arbitrary: m)
  case (Cons q ps)
  show ?case
  proof (cases "p = q")
    case True
    with Cons.prems have "pt_ID p \<notin> pt_ID ` set ps" by auto
    with True show ?thesis by (simp add: put_points_Cons put_points_other)
  next
    case False
    with Cons show ?thesis by (simp add: put_points_Cons)
  qed
qed simp

lemma drop_points_None [simp]: "m i = None \<Longrightarrow> drop_points m cs i = None"
  by (simp add: drop_points_def)

lemma drop_points_Some:
  "m i = Some p \<Longrightarrow> drop_points m cs i = (if \<exists>c\<in>set cs. matches c p then None else Some p)"
  by (simp add: drop_points_def list_ex_iff)

lemma drop_points_Nil [simp]: "drop_points m [] = m"
  by (auto simp: drop_points_def split: option.splits)

lemma Upsert_ok:
  assumes "upsert_spec api view" "Upsert api s ps = (None, s')"
  shows "view s' = put_points (view s) ps"
  using assms by (auto simp: Upsert_def upsert_spec_def split: if_splits prod.splits)

lemma DeleteByDocIDs_ok:
  assumes "delete_spec api view" "DeleteByDocIDs api s ids = (None, s')"
  shows "view s' = drop_points (view s) (map (\<lambda>i. (''doc_id'', i)) ids)"
  using assms by (auto simp: DeleteByDocIDs_def delete_spec_def split: if_splits prod.splits)

end
