(* ===== verification/Sha1.thy ===== *)
theory Sha1
  imports Prelude "HOL-Library.Word"
begin

unbundle bit_operations_syntax

text \<open>
  Package \<open>crypto/sha1\<close> and \<open>encoding/hex\<close>, which \<open>cache.Key\<close> uses to turn the normalized
  request into a fixed-size key: FIPS 180 SHA-1 over the bytes of the string.
\<close>

type_synonym u32 = "32 word"

definition sha1_pad :: "nat list \<Rightarrow> nat list" where
  "sha1_pad bs =
     (let n = length bs; z = (119 - n mod 64) mod 64; bits = 8 * n
      in bs @ [128] @ replicate z 0 @
         map (\<lambda>i. (bits div 256 ^ (7 - i)) mod 256) [0 ..< 8])"

fun be_words :: "nat list \<Rightarrow> u32 list" where
  "be_words (a # b # c # d # bs) =
     word_of_nat (((a * 256 + b) * 256 + c) * 256 + d) # be_words bs"
| "be_words _ = []"

primrec sha1_extend :: "nat \<Rightarrow> u32 list \<Rightarrow> u32 list" where
  "sha1_extend 0 w = w"
| "sha1_extend (Suc n) w =
     (let t = length w
      in sha1_extend n (w @ [word_rotl 1 (w ! (t - 3) XOR w ! (t - 8) XOR w ! (t - 14) XOR w ! (t - 16))]))"

definition sha1_f :: "nat \<Rightarrow> u32 \<Rightarrow> u32 \<Rightarrow> u32 \<Rightarrow> u32" where
  "sha1_f t b c d =
     (if t < 20 then (b AND c) OR (NOT b AND d)
      else if t < 40 then b XOR c XOR d
      else if t < 60 then (b AND c) OR (b AND d) OR (c AND d)
      else b XOR c XOR d)"

definition sha1_k :: "nat \<Rightarrow> u32" where
  "sha1_k t =
     (if t < 20 then 0x5A827999 else if t < 40 then 0x6ED9EBA1
      else if t < 60 then 0x8F1BBCDC else 0xCA62C1D6)"

fun sha1_rounds :: "nat \<Rightarrow> u32 list \<Rightarrow> u32 \<times> u32 \<times> u32 \<times> u32 \<times> u32 \<Rightarrow> u32 \<times> u32 \<times> u32 \<times> u32 \<times> u32" where
  "sha1_rounds t [] h = h"
| "sha1_rounds t (x # xs) (a, b, c, d, e) =
     sha1_rounds (Suc t) xs
       (word_rotl 5 a + sha1_f t b c d + e + x + sha1_k t, a, word_rotl 30 b, c, d)"

definition sha1_block :: "u32 \<times> u32 \<times> u32 \<times> u32 \<times> u32 \<Rightarrow> u32 list \<Rightarrow> u32 \<times> u32 \<times> u32 \<times> u32 \<times> u32" where
  "sha1_block h w =
     (case h of (h0, h1, h2, h3, h4) \<Rightarrow>
        (case sha1_rounds 0 (sha1_extend 64 w) h of (a, b, c, d, e) \<Rightarrow>
           (h0 + a, h1 + b, h2 + c, h3 + d, h4 + e)))"

function sha1_blocks :: "u32 \<times> u32 \<times> u32 \<times> u32 \<times> u32 \<Rightarrow> u32 list \<Rightarrow> u32 \<times> u32 \<times> u32 \<times> u32 \<times> u32" where
  "sha1_blocks h ws =
     (if length ws < 16 then h else sha1_blocks (sha1_block h (take 16 ws)) (drop 16 ws))"
  by pat_completeness auto
termination
  by (relation "measure (\<lambda>(h, ws). length ws)") auto

declare sha1_blocks.simps [simp del]

definition hex_digit :: "nat \<Rightarrow> char" where
  "hex_digit n = (if n < 10 then char_of (48 + n) else char_of (87 + n))"

definition hex_u32 :: "u32 \<Rightarrow> string" where
  "hex_u32 w = map (\<lambda>i. hex_digit ((unat w div 16 ^ (7 - i)) mod 16)) [0 ..< 8]"

text \<open>\<open>hex.EncodeToString(sha1.Sum(s))\<close>.\<close>

definition sha1_hex :: "string \<Rightarrow> string" where
  "sha1_hex s =
     (case sha1_blocks (0x67452301, 0xEFCDAB89, 0x98BADCFE, 0x10325476, 0xC3D2E1F0)
             (be_words (sha1_pad (map of_char s))) of
        (a, b, c, d, e) \<Rightarrow> hex_u32 a @ hex_u32 b @ hex_u32 c @ hex_u32 d @ hex_u32 e)"

lemma length_sha1_hex: "length (sha1_hex s) = 40"
  by (simp add: sha1_hex_def hex_u32_def split: prod.splits)

end
