(* ===== verification/Cache.thy ===== *)
theory Cache
  imports Sha1 Json
begin

text \<open>
  Package \<open>internal/cache\<close> (\<open>cache.go\<close>): the exact-match answer cache over Redis and the
  per-tenant generation counter. Redis is a parameter, a record of the three commands the
  package issues over a state \<open>'r\<close>; \<open>redis_spec\<close> states their documented behaviour (GET
  after SET, INCR on a decimal counter, other keys untouched). A stored value is plain
  text (the counter) or a JSON document, represented by its tree.
\<close>

datatype rvalue = Plain string | Stored json

record 'r redis =
  r_get :: "'r \<Rightarrow> string \<Rightarrow> rvalue option"
  r_set :: "'r \<Rightarrow> string \<Rightarrow> rvalue \<Rightarrow> int \<Rightarrow> 'r"
  r_incr :: "'r \<Rightarrow> string \<Rightarrow> 'r"

text \<open>The struct: whether a client is configured (\<open>rdb != nil\<close>) and the expiry in nanoseconds.\<close>

record cache =
  has_rdb :: bool
  ttl :: int

definition NewCache :: "string \<Rightarrow> int \<Rightarrow> cache" where
  "NewCache addr t = (if addr = [] then \<lparr>has_rdb = False, ttl = t\<rparr> else \<lparr>has_rdb = True, ttl = t\<rparr>)"

subsection \<open>Keys\<close>

text \<open>\<open>sort.Strings\<close> on the filter keys.\<close>

definition str_less :: "string \<Rightarrow> string \<Rightarrow> bool" where
  "str_less a b \<longleftrightarrow> a < b"

text \<open>The map read \<open>filters[k]\<close>, the empty string for an absent key.\<close>

definition filter_val :: "(string \<times> string) list \<Rightarrow> string \<Rightarrow> string" where
  "filter_val filters k = (case map_of filters k of None \<Rightarrow> [] | Some v \<Rightarrow> v)"

definition filter_part :: "(string \<times> string) list \<Rightarrow> string \<Rightarrow> string" where
  "filter_part filters k = ''|'' @ k @ ''='' @ filter_val filters k"

text \<open>The string that \<open>Key\<close> hashes.\<close>

definition key_material :: "string \<Rightarrow> (string \<times> string) list \<Rightarrow> int \<Rightarrow> string" where
  "key_material query filters gen =
     ''g'' @ Itoa gen @ ''|'' @ ToLower (TrimSpace query) @
     concat (map (filter_part filters) (SliceStable str_less (map fst filters)))"

definition Key :: "string \<Rightarrow> (string \<times> string) list \<Rightarrow> int \<Rightarrow> string" where
  "Key query filters gen = ''ans:'' @ sha1_hex (key_material query filters gen)"

definition genKey :: "string \<Rightarrow> string" where
  "genKey tenant = ''gen:'' @ (if tenant = [] then ''_global'' else tenant)"

subsection \<open>Operations\<close>

definition Generation :: "'r redis \<Rightarrow> cache \<Rightarrow> 'r \<Rightarrow> string \<Rightarrow> int" where
  "Generation api c s tenant =
     (if \<not> has_rdb c then 0
      else (case r_get api s (genKey tenant) of
              None \<Rightarrow> 0
            | Some (Plain v) \<Rightarrow> fst (ParseInt64 v)
            | Some (Stored j) \<Rightarrow> 0))"

definition BumpGeneration :: "'r redis \<Rightarrow> cache \<Rightarrow> 'r \<Rightarrow> string \<Rightarrow> 'r" where
  "BumpGeneration api c s tenant =
     (if \<not> has_rdb c then s else r_incr api s (genKey tenant))"

text \<open>
  \<open>Get\<close> into a \<open>map[string]any\<close>: the outer option is the returned bool, the inner one the
  map, \<^term>\<open>None\<close> for the nil map that \<open>null\<close> decodes to.
\<close>

definition CacheGet :: "'r redis \<Rightarrow> cache \<Rightarrow> 'r \<Rightarrow> string \<Rightarrow> (string \<times> json) list option option" where
  "CacheGet api c s key =
     (if \<not> has_rdb c then None
      else (case r_get api s key of
              Some (Stored (JObj kvs)) \<Rightarrow> Some (Some kvs)
            | Some (Stored JNull) \<Rightarrow> Some None
            | _ \<Rightarrow> None))"

definition CacheSet :: "'r redis \<Rightarrow> cache \<Rightarrow> 'r \<Rightarrow> string \<Rightarrow> (string \<times> json) list \<Rightarrow> 'r" where
  "CacheSet api c s key val =
     (if \<not> has_rdb c then s else r_set api s key (Stored (JObj val)) (ttl c))"

subsection \<open>Documented behaviour of Redis\<close>

definition counter_value :: "rvalue option \<Rightarrow> int option" where
  "counter_value v =
     (case v of None \<Rightarrow> Some 0
      | Some (Plain t) \<Rightarrow> (case ParseInt64 t of (n, ok) \<Rightarrow> if ok then Some n else None)
      | Some (Stored j) \<Rightarrow> None)"

definition redis_spec :: "'r redis \<Rightarrow> bool" where
  "redis_spec api \<longleftrightarrow>
     (\<forall>s k v t. r_get api (r_set api s k v t) k = Some v) \<and>
     (\<forall>s k k' v t. k' \<noteq> k \<longrightarrow> r_get api (r_set api s k v t) k' = r_get api s k') \<and>
     (\<forall>s k n. counter_value (r_get api s k) = Some n \<and> in_int64 (n + 1) \<longrightarrow>
        r_get api (r_incr api s k) k = Some (Plain (Itoa (n + 1)))) \<and>
     (\<forall>s k k'. k' \<noteq> k \<longrightarrow> r_get api (r_incr api s k) k' = r_get api s k')"

text \<open>The reference server, used to show that the hypothesis can hold.\<close>

definition ref_redis :: "(string \<rightharpoonup> rvalue) redis" where
  "ref_redis = \<lparr>r_get = (\<lambda>m k. m k),
     r_set = (\<lambda>m k v t. m(k \<mapsto> v)),
     r_incr = (\<lambda>m k. case counter_value (m k) of
                 None \<Rightarrow> m
               | Some n \<Rightarrow> if in_int64 (n + 1) then m(k \<mapsto> Plain (Itoa (n + 1))) else m)\<rparr>"

text \<open>The material is a \<open>|\<close>-separated list of parts.\<close>

definition key_parts :: "string \<Rightarrow> (string \<times> string) list \<Rightarrow> int \<Rightarrow> string list" where
  "key_parts query filters gen =
     (''g'' @ Itoa gen) # ToLower (TrimSpace query) #
     map (\<lambda>k. k @ ''='' @ filter_val filters k)
       (SliceStable str_less (map fst filters))"

text \<open>Without separator characters in the request, the material determines it (\<open>key_material_clean_inj\<close>).\<close>

definition clean_request :: "string \<Rightarrow> (string \<times> string) list \<Rightarrow> bool" where
  "clean_request query filters \<longleftrightarrow>
     CHR ''|'' \<notin> set query \<and> distinct (map fst filters) \<and>
     list_all (\<lambda>(k, v). CHR ''|'' \<notin> set k \<and> CHR ''='' \<notin> set k \<and> CHR ''|'' \<notin> set v) filters"

subsection \<open>Lemmas\<close>

interpretation str_order: strict_weak_order str_less
  by unfold_locales (auto simp: str_less_def)

lemma redis_spec_ref: "redis_spec ref_redis"
  by (auto simp: redis_spec_def ref_redis_def split: option.splits)

lemma redis_specD:
  assumes "redis_spec api"
  shows "r_get api (r_set api s k v t) k = Some v"
    and "k' \<noteq> k \<Longrightarrow> r_get api (r_set api s k v t) k' = r_get api s k'"
    and "counter_value (r_get api s k) = Some n \<Longrightarrow> in_int64 (n + 1) \<Longrightarrow>
      r_get api (r_incr api s k) k = Some (Plain (Itoa (n + 1)))"
    and "k' \<noteq> k \<Longrightarrow> r_get api (r_incr api s k) k' = r_get api s k'"
  using assms unfolding redis_spec_def by blast+

lemma genKey_inj: "t \<noteq> ''_global'' \<Longrightarrow> t' \<noteq> ''_global'' \<Longrightarrow> genKey t = genKey t' \<longleftrightarrow> t = t'"
  by (auto simp: genKey_def split: if_splits)

lemma Itoa_not_global [simp]: "Itoa i \<noteq> ''_global''"
proof
  assume "Itoa i = ''_global''"
  then have "CHR ''_'' \<in> set (Itoa i)" by simp
  then show False using Itoa_chars [of "CHR ''_''" i] by (simp add: is_digit_def)
qed

lemma genKey_Itoa_global: "genKey (Itoa i) \<noteq> genKey []"
  by (simp add: genKey_def)

text \<open>The filter map enters the key through its sorted keys only.\<close>

lemma key_material_perm:
  assumes "distinct (map fst fs)" "distinct (map fst fs')" "map_of fs = map_of fs'"
  shows "key_material q fs g = key_material q fs' g"
proof -
  have "set (map fst fs) = set (map fst fs')"
    using assms(3) by (metis dom_map_of_conv_image_fst set_map)
  then have "mset (map fst fs) = mset (map fst fs')"
    using assms(1,2) by (metis set_eq_iff_mset_eq_distinct)
  then have "SliceStable str_less (map fst fs) = SliceStable str_less (map fst fs')"
    by (rule str_order.SliceStable_perm) (auto simp: str_less_def)
  moreover have "filter_part fs = filter_part fs'"
    using assms(3) by (simp add: fun_eq_iff filter_part_def filter_val_def)
  ultimately show ?thesis by (simp add: key_material_def)
qed

lemma Join_bar: "Join (p # ps) ''|'' = p @ concat (map (\<lambda>q. ''|'' @ q) ps)"
  by (induction ps arbitrary: p) auto

lemma key_material_Join: "key_material q fs g = Join (key_parts q fs g) ''|''"
proof -
  have "filter_part fs = (\<lambda>k. ''|'' @ k @ ''='' @ filter_val fs k)"
    by (simp add: fun_eq_iff filter_part_def)
  then show ?thesis
    by (simp add: key_parts_def Join_bar key_material_def comp_def)
qed

lemma bar_not_Itoa [simp]: "CHR ''|'' \<notin> set (Itoa g)"
  using Itoa_chars [of "CHR ''|''" g] by (auto simp: is_digit_def)

text \<open>Keys of different generations hash different strings.\<close>

lemma key_material_gen:
  assumes "key_material q fs g = key_material q' fs' g'"
  shows "g = g'"
proof -
  have hd: "hd (Split (key_material q fs g) (CHR ''|'')) = ''g'' @ Itoa g" for q fs g
    using Split_append [of "CHR ''|''" "''g'' @ Itoa g"] by (simp add: key_material_def)
  have "''g'' @ Itoa g = ''g'' @ Itoa g'"
    using hd [of q fs g] hd [of q' fs' g'] assms by simp
  then show ?thesis by simp
qed

lemma eq_parts:
  assumes "CHR ''='' \<notin> set k" "CHR ''='' \<notin> set k'" "k @ ''='' @ v = k' @ ''='' @ v'"
  shows "k = k' \<and> v = v'"
proof -
  have "takeWhile (\<lambda>c. c \<noteq> CHR ''='') (k @ ''='' @ v) = k" if "CHR ''='' \<notin> set k" for k v
    using that by (subst takeWhile_append2) auto
  then show ?thesis using assms by (metis same_append_eq)
qed

lemma lower_bar: "lower_char c = CHR ''|'' \<Longrightarrow> c = CHR ''|''"
proof -
  assume a: "lower_char c = CHR ''|''"
  show ?thesis
  proof (cases "65 \<le> (of_char c :: nat) \<and> (of_char c :: nat) \<le> 90")
    case True
    with a have "char_of ((of_char c :: nat) + 32) = CHR ''|''" by (simp add: lower_char_def)
    then have "of_char (char_of ((of_char c :: nat) + 32) :: char) = (124 :: nat)" by simp
    with True show ?thesis by simp
  next
    case False
    then have "lower_char c = c" unfolding lower_char_def by (rule if_not_P)
    with a show ?thesis by simp
  qed
qed

lemma set_TrimSpace: "set (TrimSpace s) \<subseteq> set s"
  unfolding TrimSpace_def by (auto dest!: set_dropWhileD)

lemma clean_parts:
  assumes "clean_request q fs" "p \<in> set (key_parts q fs g)"
  shows "CHR ''|'' \<notin> set p"
proof -
  have "CHR ''|'' \<notin> set (ToLower (TrimSpace q))"
    using assms(1) set_TrimSpace [of q] lower_bar by (fastforce simp: clean_request_def ToLower_def)
  moreover have "CHR ''|'' \<notin> set (k @ ''='' @ filter_val fs k)" if "k \<in> set (map fst fs)" for k
    using assms(1) that
    by (fastforce simp: clean_request_def filter_val_def list_all_iff split: option.splits
        dest!: map_of_SomeD)
  moreover have "p = ''g'' @ Itoa g \<or> p = ToLower (TrimSpace q) \<or>
      (\<exists>k \<in> set (map fst fs). p = k @ ''='' @ filter_val fs k)"
    using assms(2) unfolding key_parts_def by auto
  ultimately show ?thesis using bar_not_Itoa [of g] by (elim disjE bexE) auto
qed

lemma map_filter_parts_inj:
  assumes "list_all (\<lambda>k. CHR ''='' \<notin> set k) ks" "list_all (\<lambda>k. CHR ''='' \<notin> set k) ks'"
    and "map (\<lambda>k. k @ ''='' @ f k) ks = map (\<lambda>k. k @ ''='' @ f' k) ks'"
  shows "ks = ks' \<and> (\<forall>k\<in>set ks. f k = f' k)"
  using assms
proof (induction ks arbitrary: ks')
  case (Cons k ks)
  then obtain k' ks1 where ks': "ks' = k' # ks1" by (cases ks') auto
  with Cons.prems have "k = k' \<and> f k = f' k'" by (intro eq_parts) auto
  then show ?case using Cons.IH [of ks1] Cons.prems ks' by auto
qed simp

lemma key_material_clean_inj:
  assumes "clean_request q fs" "clean_request q' fs'"
    and eq: "key_material q fs g = key_material q' fs' g'"
  shows "ToLower (TrimSpace q) = ToLower (TrimSpace q') \<and> map_of fs = map_of fs' \<and> g = g'"
proof -
  have "key_parts q fs g = key_parts q' fs' g'"
    using eq Split_Join [of "key_parts q fs g" "CHR ''|''"] clean_parts [OF assms(1)]
      Split_Join [of "key_parts q' fs' g'" "CHR ''|''"] clean_parts [OF assms(2)]
    by (simp add: key_material_Join key_parts_def)
  moreover have no_eq: "list_all (\<lambda>k. CHR ''='' \<notin> set k) (SliceStable str_less (map fst fs))"
    if "clean_request q fs" for q fs
    using that by (force simp: clean_request_def list_all_iff)
  ultimately have inj: "SliceStable str_less (map fst fs) = SliceStable str_less (map fst fs') \<and>
      (\<forall>k\<in>set (SliceStable str_less (map fst fs)). filter_val fs k = filter_val fs' k)"
    using assms(1,2) by (intro map_filter_parts_inj) (simp_all add: key_parts_def)
  have "map_of fs k = map_of fs' k" for k
  proof -
    have "k \<in> set (map fst fs) \<longleftrightarrow> k \<in> set (map fst fs')"
      using inj by (metis set_SliceStable)
    moreover have "k \<in> set (map fst fs) \<Longrightarrow> filter_val fs k = filter_val fs' k"
      using inj by (metis set_SliceStable)
    moreover have "map_of fs k \<noteq> None \<longleftrightarrow> k \<in> set (map fst fs)" for fs :: "(string \<times> string) list"
      by (simp add: map_of_eq_None_iff)
    ultimately show ?thesis
      unfolding filter_val_def by (metis option.case_eq_if option.expand)
  qed
  then show ?thesis
    using \<open>key_parts q fs g = key_parts q' fs' g'\<close> by (auto simp: key_parts_def)
qed

subsection \<open>Properties\<close>

text \<open>C23: The cache key identifies a request: for requests without the separators \<open>|\<close> and \<open>=\<close>, the
  hashed text is the same exactly when the questions agree up to case and surrounding space,
  the filters are the same map, in whatever order they were given, and the generation is the
  same.\<close>

theorem key_material_exact:
  assumes "clean_request q fs" "clean_request q' fs'"
  shows "key_material q fs g = key_material q' fs' g' \<longleftrightarrow>
    ToLower (TrimSpace q) = ToLower (TrimSpace q') \<and> map_of fs = map_of fs' \<and> g = g'"
proof
  assume "ToLower (TrimSpace q) = ToLower (TrimSpace q') \<and> map_of fs = map_of fs' \<and> g = g'"
  moreover from this have "key_material q' fs g = key_material q' fs' g"
    using assms by (intro key_material_perm) (simp_all add: clean_request_def)
  ultimately show "key_material q fs g = key_material q' fs' g'"
    by (simp add: key_material_def)
qed (rule key_material_clean_inj [OF assms])

theorem key_material_exact_witness:
  "key_material '' What is WAL?'' [(''source'', ''pg''), (''category'', ''cdc'')] 3 =
   key_material ''what is wal?'' [(''category'', ''cdc''), (''source'', ''pg'')] 3"
proof -
  have "map_of [(''source'', ''pg''), (''category'', ''cdc'')] = map_of [(''category'', ''cdc''), (''source'', ''pg'')]"
    by auto
  moreover have "ToLower (TrimSpace '' What is WAL?'') = ToLower (TrimSpace ''what is wal?'')"
    by code_simp
  ultimately show ?thesis
    using key_material_exact [of "'' What is WAL?''" "[(''source'', ''pg''), (''category'', ''cdc'')]"
      "''what is wal?''" "[(''category'', ''cdc''), (''source'', ''pg'')]" 3 3]
    by (simp add: clean_request_def)
qed

text \<open>A question that contains the separator has the key of another question with a filter.\<close>

lemma key_material_collision:
  "key_material ''wal|category=cdc'' [] g = key_material ''wal'' [(''category'', ''cdc'')] g"
  by (simp add: key_material_def filter_part_def filter_val_def ToLower_def lower_char_def TrimSpace_def is_space_def)

end
