(* ===== verification/Obs.thy ===== *)
theory Obs
  imports Json
begin

text \<open>
  Package \<open>obs\<close> (\<open>internal/obs/metrics.go\<close>): the metric families the program registers, the
  observations its commands make, and the health endpoint with the outcome of \<open>Serve\<close>. A family
  is registered with its label names and, for a histogram, its buckets; the registry of the
  Prometheus client panics on a duplicate name and on buckets that do not increase. \<open>metric\<close> is one
  observation of a family, with a value for each label. The default buckets and the exposition format belong to the
  client library: the former are a parameter, the latter is left out.
\<close>

subsection \<open>Families\<close>

datatype metric_kind = CounterKind | HistogramKind "real list"

record family =
  fm_Name :: string
  fm_Kind :: metric_kind
  fm_Labels :: "string list"

definition fam_FreshnessLag :: family where
  "fam_FreshnessLag = \<lparr>fm_Name = ''doc_freshness_lag_seconds'',
     fm_Kind = HistogramKind [0.1, 0.25, 0.5, 1, 2, 5, 10, 30, 60, 300],
     fm_Labels = [''source'', ''tier'']\<rparr>"

definition fam_BulkWriteSeconds :: "real list \<Rightarrow> family" where
  "fam_BulkWriteSeconds defBuckets = \<lparr>fm_Name = ''indexer_bulk_write_seconds'',
     fm_Kind = HistogramKind defBuckets, fm_Labels = [''sink'']\<rparr>"

definition fam_DLQEvents :: family where
  "fam_DLQEvents = \<lparr>fm_Name = ''indexer_dlq_events_total'', fm_Kind = CounterKind,
     fm_Labels = [''source'', ''reason'']\<rparr>"

definition fam_DocsIndexed :: family where
  "fam_DocsIndexed = \<lparr>fm_Name = ''indexer_docs_indexed_total'', fm_Kind = CounterKind,
     fm_Labels = [''source'', ''tier'', ''op'']\<rparr>"

definition fam_DocsSkipped :: family where
  "fam_DocsSkipped = \<lparr>fm_Name = ''indexer_docs_skipped_total'', fm_Kind = CounterKind,
     fm_Labels = [''source'']\<rparr>"

definition fam_SearchStageLatency :: "real list \<Rightarrow> family" where
  "fam_SearchStageLatency defBuckets = \<lparr>fm_Name = ''search_stage_latency_seconds'',
     fm_Kind = HistogramKind defBuckets, fm_Labels = [''stage'']\<rparr>"

definition fam_RagFaithfulness :: family where
  "fam_RagFaithfulness = \<lparr>fm_Name = ''rag_faithfulness_score'',
     fm_Kind = HistogramKind [0, 0.25, 0.5, 0.75, 0.9, 0.95, 1.0], fm_Labels = []\<rparr>"

definition fam_CacheHits :: family where
  "fam_CacheHits = \<lparr>fm_Name = ''query_cache_hits_total'', fm_Kind = CounterKind, fm_Labels = []\<rparr>"

definition fam_CacheMisses :: family where
  "fam_CacheMisses = \<lparr>fm_Name = ''query_cache_misses_total'', fm_Kind = CounterKind, fm_Labels = []\<rparr>"

text \<open>The package-level variables, in the order of their initialisation.\<close>

definition families :: "real list \<Rightarrow> family list" where
  "families defBuckets =
     [fam_FreshnessLag, fam_BulkWriteSeconds defBuckets, fam_DLQEvents, fam_DocsIndexed,
      fam_DocsSkipped, fam_SearchStageLatency defBuckets, fam_RagFaithfulness, fam_CacheHits,
      fam_CacheMisses]"

subsection \<open>Observations\<close>

datatype metric =
    FreshnessLag string string real
  | BulkWriteSeconds string real
  | DLQEvents string string
  | DocsIndexed string string string
  | DocsSkipped string
  | SearchStageLatency string real
  | RagFaithfulness real
  | CacheHits
  | CacheMisses

subsection \<open>The health endpoint and \<open>Serve\<close>\<close>

text \<open>\<open>ready\<close> is the function passed to \<open>Serve\<close>: \<^term>\<open>None\<close> for nil, else what it returns now.\<close>

definition obs_health :: "bool option \<Rightarrow> int \<times> string" where
  "obs_health ready =
     (if ready = None \<or> ready = Some True then (200, ''{\"status\":\"ok\"}'')
      else (503, ''{\"status\":\"starting\"}''))"

text \<open>The routes; \<open>metrics\<close> is the answer of the client library's handler.\<close>

definition obs_mux :: "bool option \<Rightarrow> int \<times> string \<Rightarrow> string \<Rightarrow> (int \<times> string) option" where
  "obs_mux ready metrics path =
     (if path = ''/metrics'' then Some metrics
      else if path = ''/health'' then Some (obs_health ready)
      else None)"

text \<open>What \<open>ListenAndServe\<close> returns, and what \<open>Serve\<close> makes of it.\<close>

datatype listen_result = ListenNil | ServerClosed | ListenError string

definition Serve :: "listen_result \<Rightarrow> string option" where
  "Serve r = (case r of ListenNil \<Rightarrow> None | ServerClosed \<Rightarrow> None | ListenError e \<Rightarrow> Some e)"

subsection \<open>Specification\<close>

definition increasing :: "real list \<Rightarrow> bool" where
  "increasing bs \<longleftrightarrow> sorted_wrt (<) bs"

definition family_ok :: "family \<Rightarrow> bool" where
  "family_ok f \<longleftrightarrow> distinct (fm_Labels f) \<and>
     (case fm_Kind f of CounterKind \<Rightarrow> True | HistogramKind bs \<Rightarrow> increasing bs)"

text \<open>Registration of all families succeeds: distinct names, each family well formed.\<close>

definition registers :: "family list \<Rightarrow> bool" where
  "registers fs \<longleftrightarrow> distinct (map fm_Name fs) \<and> list_all family_ok fs"

text \<open>The value of a counter after some observations: those with its family and label values.\<close>

definition counter_of :: "metric list \<Rightarrow> metric \<Rightarrow> nat" where
  "counter_of ms m = length (filter (\<lambda>n. n = m) ms)"

lemmas family_defs = fam_FreshnessLag_def fam_BulkWriteSeconds_def fam_DLQEvents_def
  fam_DocsIndexed_def fam_DocsSkipped_def fam_SearchStageLatency_def fam_RagFaithfulness_def
  fam_CacheHits_def fam_CacheMisses_def

lemma counter_of_append [simp]: "counter_of (ms @ ns) m = counter_of ms m + counter_of ns m"
  by (simp add: counter_of_def)

lemma counter_of_simps [simp]:
  "counter_of [] m = 0" "counter_of (n # ms) m = (if n = m then 1 else 0) + counter_of ms m"
  by (simp_all add: counter_of_def)

subsection \<open>Properties\<close>

text \<open>The package initialises without a panic, for any increasing default buckets.\<close>

lemma families_register: "increasing defBuckets \<Longrightarrow> registers (families defBuckets)"
  by (simp add: registers_def families_def family_ok_def family_defs increasing_def)

text \<open>
  the health endpoint says 200 exactly when no readiness function was given or it returns
  true, and a regular shutdown of the server is no error.
\<close>

theorem obs_health_ready:
  "(fst (obs_health ready) = 200 \<longleftrightarrow> ready \<noteq> Some False) \<and>
   obs_mux ready m ''/health'' = Some (obs_health ready) \<and>
   (Serve r = None \<longleftrightarrow> r \<in> {ListenNil, ServerClosed})"
  by (cases ready; cases r) (auto simp: obs_health_def obs_mux_def Serve_def)

end
