(* ===== verification/Indexer.thy ===== *)
theory Indexer
  imports Guard Opensearch Qdrant Cache Obs
begin

text \<open>
  Command \<open>indexer\<close> (\<open>cmd/indexer/main.go\<close>), first part: \<open>apply\<close>, which takes one decoded
  batch to both stores. The state \<open>world\<close> holds what a run of \<open>apply\<close> can change: the cluster,
  the vector store, Redis, the in-memory guard and the metrics. The record \<open>deps\<close> holds
  what it calls and does not own: the client APIs, the ML service's \<open>Embed\<close>, UUIDv5,
  the clock, the time a write to a sink took, and \<open>d_range\<close>, the order in which the runtime iterates over a map (any
  permutation of its keys).
\<close>

record ('os, 'qd, 'r) world =
  w_os :: 'os
  w_qd :: 'qd
  w_rd :: 'r
  w_guard :: guard
  w_metrics :: "metric list"

record ('os, 'qd, 'r) deps =
  d_bulk :: "'os bulk_api"
  d_upsert :: "'qd upsert_api"
  d_delete :: "'qd delete_api"
  d_embed :: "string list \<Rightarrow> string + real list list \<times> string"
  d_redis :: "'r redis"
  d_cache :: cache
  d_uuid5 :: "string \<Rightarrow> string"
  d_now :: time
  d_elapsed :: "string \<Rightarrow> real"
  d_range :: "string list \<Rightarrow> string list"

datatype apply_error =
    ApplyBulk os_error
  | ApplyEmbed string
  | ApplyUpsert qd_error
  | ApplyDelete qd_error
  | ApplyIndexPanic

subsection \<open>Step 1: newest version per document, then the guard\<close>

definition newest_step ::
  "(string \<times> canonical_doc) list \<Rightarrow> canonical_doc \<Rightarrow> (string \<times> canonical_doc) list" where
  "newest_step m d =
     (case map_of m (DocID d) of
        None \<Rightarrow> AList.update (DocID d) d m
      | Some cur \<Rightarrow> if Version d > Version cur then AList.update (DocID d) d m else m)"

definition newestByDoc :: "canonical_doc list \<Rightarrow> (string \<times> canonical_doc) list" where
  "newestByDoc docs = foldl newest_step [] docs"

text \<open>The documents in the order in which the loop over the map visits them.\<close>

definition visited :: "(string list \<Rightarrow> string list) \<Rightarrow> canonical_doc list \<Rightarrow> canonical_doc list" where
  "visited order docs =
     List.map_filter (map_of (newestByDoc docs)) (order (map fst (newestByDoc docs)))"

definition toApply ::
  "(string list \<Rightarrow> string list) \<Rightarrow> guard \<Rightarrow> canonical_doc list \<Rightarrow> canonical_doc list" where
  "toApply order g docs = filter (\<lambda>d. ShouldApply g (DocID d) (Version d)) (visited order docs)"

definition skipped ::
  "(string list \<Rightarrow> string list) \<Rightarrow> guard \<Rightarrow> canonical_doc list \<Rightarrow> canonical_doc list" where
  "skipped order g docs = filter (\<lambda>d. \<not> ShouldApply g (DocID d) (Version d)) (visited order docs)"

subsection \<open>Step 3: the applied documents, embedded\<close>

definition upserts :: "string set \<Rightarrow> canonical_doc list \<Rightarrow> canonical_doc list" where
  "upserts applied ds = filter (\<lambda>d. DocID d \<in> applied \<and> Op d \<noteq> OpDelete) ds"

definition deletes :: "string set \<Rightarrow> canonical_doc list \<Rightarrow> string list" where
  "deletes applied ds = map DocID (filter (\<lambda>d. DocID d \<in> applied \<and> Op d = OpDelete) ds)"

definition point_of :: "(string \<Rightarrow> string) \<Rightarrow> string \<Rightarrow> canonical_doc \<Rightarrow> real list \<Rightarrow> point" where
  "point_of uuid5 modelVer d vec =
     \<lparr>pt_ID = PointID uuid5 d, pt_Vector = vec,
      pt_Payload = [(''doc_id'', PStr (DocID d)), (''source'', PStr (Source d)),
        (''tenant_id'', PInt (TenantID d)), (''category'', PStr (Category (Metadata d))),
        (''version'', PInt (Version d)), (''model_version'', PStr modelVer)]\<rparr>"

text \<open>The loop reads \<open>vecs[i]\<close> for each document: too few vectors is an index panic.\<close>

fun points_of ::
  "(string \<Rightarrow> string) \<Rightarrow> string \<Rightarrow> canonical_doc list \<Rightarrow> real list list \<Rightarrow> point list option" where
  "points_of uuid5 modelVer [] vecs = Some []"
| "points_of uuid5 modelVer (d # ds) [] = None"
| "points_of uuid5 modelVer (d # ds) (v # vs) =
     map_option ((#) (point_of uuid5 modelVer d v)) (points_of uuid5 modelVer ds vs)"

definition embed_points ::
  "('os, 'qd, 'r) deps \<Rightarrow> canonical_doc list \<Rightarrow> apply_error + point list" where
  "embed_points x ups =
     (if ups = [] then Inr []
      else (case d_embed x (map Text ups) of
              Inl e \<Rightarrow> Inl (ApplyEmbed e)
            | Inr (vecs, modelVer) \<Rightarrow>
                (case points_of (d_uuid5 x) modelVer ups vecs of
                   None \<Rightarrow> Inl ApplyIndexPanic
                 | Some points \<Rightarrow> Inr points)))"

subsection \<open>Steps 4 and 5: commit the guard, observe, bump the generations\<close>

definition lag_seconds :: "time \<Rightarrow> canonical_doc \<Rightarrow> real" where
  "lag_seconds now d =
     (let lag = real_of_int (now - CommitTS d) / 10 ^ 9 in if lag < 0 then 0 else lag)"

definition commit_docs :: "guard \<Rightarrow> canonical_doc list \<Rightarrow> guard" where
  "commit_docs g ds = foldl (\<lambda>g d. Commit g (DocID d) (Version d)) g ds"

definition tenantsChanged :: "canonical_doc list \<Rightarrow> string list" where
  "tenantsChanged ds = remdups (map (\<lambda>d. Itoa (TenantID d)) ds)"

definition bump_all :: "'r redis \<Rightarrow> cache \<Rightarrow> 'r \<Rightarrow> string list \<Rightarrow> 'r" where
  "bump_all api c s tenants = foldl (\<lambda>s t. BumpGeneration api c s t) s tenants"

definition finish ::
  "('os, 'qd, 'r) deps \<Rightarrow> ('os, 'qd, 'r) world \<Rightarrow> canonical_doc list \<Rightarrow> ('os, 'qd, 'r) world" where
  "finish x w ds =
     w\<lparr>w_guard := commit_docs (w_guard w) ds,
       w_metrics := w_metrics w @ concat (map (\<lambda>d.
         [FreshnessLag (Source d) (Tier d) (lag_seconds (d_now x) d),
          DocsIndexed (Source d) (Tier d) (Op d)]) ds),
       w_rd := bump_all (d_redis x) (d_cache x) (w_rd w) (d_range x (tenantsChanged ds))\<rparr>"

text \<open>Writing Qdrant: the upserts first, then the deletes; an error leaves the rest undone.\<close>

definition write_qdrant ::
  "('os, 'qd, 'r) deps \<Rightarrow> 'qd \<Rightarrow> point list \<Rightarrow> string list \<Rightarrow> apply_error option \<times> 'qd" where
  "write_qdrant x q points dels =
     (case (if points = [] then (None, q) else Upsert (d_upsert x) q points) of
        (Some e, q') \<Rightarrow> (Some (ApplyUpsert e), q')
      | (None, q') \<Rightarrow>
          (case (if dels = [] then (None, q') else DeleteByDocIDs (d_delete x) q' dels) of
             (Some e, q'') \<Rightarrow> (Some (ApplyDelete e), q'')
           | (None, q'') \<Rightarrow> (None, q'')))"

text \<open>\<open>apply\<close>; \<^term>\<open>None\<close> is the nil error.\<close>

definition apply_batch ::
  "('os, 'qd, 'r) deps \<Rightarrow> ('os, 'qd, 'r) world \<Rightarrow> canonical_doc list \<Rightarrow>
   apply_error option \<times> ('os, 'qd, 'r) world" where
  "apply_batch x w docs =
     (let ta = toApply (d_range x) (w_guard w) docs;
          w1 = w\<lparr>w_metrics := w_metrics w @
                  map (\<lambda>d. DocsSkipped (Source d)) (skipped (d_range x) (w_guard w) docs)\<rparr>
      in if ta = [] then (None, w1)
         else (case Bulk (d_bulk x) (w_os w1) ta of
                 (Inl e, os') \<Rightarrow> (Some (ApplyBulk e), w1\<lparr>w_os := os'\<rparr>)
               | (Inr applied, os') \<Rightarrow>
                   (let w2 = w1\<lparr>w_os := os',
                               w_metrics := w_metrics w1 @ [BulkWriteSeconds ''opensearch'' (d_elapsed x ''opensearch'')]\<rparr>
                    in case embed_points x (upserts applied ta) of
                         Inl e \<Rightarrow> (Some e, w2)
                       | Inr points \<Rightarrow>
                           (case write_qdrant x (w_qd w2) points (deletes applied ta) of
                              (Some e, q') \<Rightarrow> (Some e, w2\<lparr>w_qd := q'\<rparr>)
                            | (None, q') \<Rightarrow>
                                (None, finish x (w2\<lparr>w_qd := q',
                                   w_metrics := w_metrics w2 @ [BulkWriteSeconds ''qdrant'' (d_elapsed x ''qdrant'')]\<rparr>)
                                   (filter (\<lambda>d. DocID d \<in> applied) ta))))))"

text \<open>A run over several batches, as the lanes deliver them; it stops at the first error.\<close>

fun apply_run ::
  "('os, 'qd, 'r) deps \<Rightarrow> ('os, 'qd, 'r) world \<Rightarrow> canonical_doc list list \<Rightarrow>
   ('os, 'qd, 'r) world option" where
  "apply_run x w [] = Some w"
| "apply_run x w (b # bs) =
     (case apply_batch x w b of (None, w') \<Rightarrow> apply_run x w' bs | (Some e, w') \<Rightarrow> None)"

subsection \<open>Specification\<close>

text \<open>Map iteration visits every key once, in some order.\<close>

definition range_ok :: "(string list \<Rightarrow> string list) \<Rightarrow> bool" where
  "range_ok order \<longleftrightarrow> (\<forall>xs. mset (order xs) = mset xs)"

text \<open>
  The abstract indexer: every document of the stream is sent to the versioned store on its
  own, in arrival order.
\<close>

definition sequential :: "vstore \<Rightarrow> canonical_doc list \<Rightarrow> vstore" where
  "sequential m docs = foldl ext_apply m (map bulk_op_of docs)"

text \<open>The guard never runs ahead of the store.\<close>

definition guard_sound :: "guard \<Rightarrow> vstore \<Rightarrow> bool" where
  "guard_sound g m \<longleftrightarrow> (\<forall>i w. seen g i = Some w \<longrightarrow> (\<exists>v r. m i = Some (v, r) \<and> w \<le> v))"

text \<open>A live document has a point that carries its version; no document, no point.\<close>

definition agree_at :: "(int \<times> os_doc option) option \<Rightarrow> point option \<Rightarrow> bool" where
  "agree_at e p =
     (case e of
        Some (v, Some d) \<Rightarrow> (case p of None \<Rightarrow> False
          | Some pt \<Rightarrow> map_of (pt_Payload pt) ''version'' = Some (PInt v))
      | _ \<Rightarrow> p = None)"

text \<open>
  The two stores hold the same documents: for the ids \<open>I\<close> in use they agree, and every
  point is the point of one of these ids.
\<close>

definition stores_agree ::
  "string set \<Rightarrow> (string \<Rightarrow> string) \<Rightarrow> vstore \<Rightarrow> (string \<rightharpoonup> point) \<Rightarrow> bool" where
  "stores_agree I uuid5 m q \<longleftrightarrow>
     (\<forall>i\<in>I. agree_at (m i) (q (uuid5 i))) \<and>
     (\<forall>k p. q k = Some p \<longrightarrow>
        (\<exists>i\<in>I. k = uuid5 i \<and> map_of (pt_Payload p) ''doc_id'' = Some (PStr i)))"

text \<open>The documented behaviour of what \<open>apply\<close> calls, over views of the two stores.\<close>

definition deps_ok ::
  "('os, 'qd, 'r) deps \<Rightarrow> ('os \<Rightarrow> vstore) \<Rightarrow> ('qd \<Rightarrow> string \<rightharpoonup> point) \<Rightarrow> bool" where
  "deps_ok x vos vqd \<longleftrightarrow>
     external_versioning (d_bulk x) vos \<and> upsert_spec (d_upsert x) vqd \<and>
     delete_spec (d_delete x) vqd \<and> range_ok (d_range x)"

text \<open>The documents a successful \<open>apply\<close> wrote: the newest of the batch that beat the store.\<close>

definition written_docs ::
  "('os, 'qd, 'r) deps \<Rightarrow> guard \<Rightarrow> vstore \<Rightarrow> canonical_doc list \<Rightarrow> canonical_doc list" where
  "written_docs x g m docs =
     filter (\<lambda>d. newer m (DocID d) (Version d)) (toApply (d_range x) g docs)"

text \<open>
  Every call returns without error, no \<open>_bulk\<close> item fails on its own, and \<open>Embed\<close> returns one
  vector per text.
\<close>

definition responsive :: "('os, 'qd, 'r) deps \<Rightarrow> bool" where
  "responsive x \<longleftrightarrow>
     (\<forall>s ops. \<exists>items s'. d_bulk x s ops = (Inr items, s') \<and> items_taken ops items) \<and>
     (\<forall>q ps. \<exists>q'. d_upsert x q ps = (None, q')) \<and>
     (\<forall>q cs. \<exists>q'. d_delete x q cs = (None, q')) \<and>
     (\<forall>ts. \<exists>vs mv. d_embed x ts = Inr (vs, mv) \<and> length vs = length ts)"

text \<open>Reference services over maps, used to show that the hypotheses can hold.\<close>

definition ref_deps :: "(vstore, string \<rightharpoonup> point, string \<rightharpoonup> rvalue) deps" where
  "ref_deps = \<lparr>d_bulk = ext_api, d_upsert = ref_upsert, d_delete = ref_delete,
     d_embed = (\<lambda>ts. Inr (map (\<lambda>t. [1, 0]) ts, ''ref'')),
     d_redis = ref_redis, d_cache = \<lparr>has_rdb = True, ttl = 0\<rparr>,
     d_uuid5 = (\<lambda>s. s), d_now = 0, d_elapsed = (\<lambda>s. 0), d_range = rev\<rparr>"

definition ref_world :: "(vstore, string \<rightharpoonup> point, string \<rightharpoonup> rvalue) world" where
  "ref_world = \<lparr>w_os = Map.empty, w_qd = Map.empty, w_rd = Map.empty,
     w_guard = NewGuard, w_metrics = []\<rparr>"

definition ex_doc :: "string \<Rightarrow> int \<Rightarrow> string \<Rightarrow> canonical_doc" where
  "ex_doc i v op = \<lparr>Source = ''postgres'', SourceID = i, DocID = i, TenantID = 7, Op = op,
     Tier = TierUrgent, Version = v, CommitTS = 0, Title = ''t'', Body = ''b'', ChunkID = 0,
     Metadata = \<lparr>Category = [], URL = [], Author = []\<rparr>\<rparr>"

subsection \<open>Lemmas\<close>

lemma newestByDoc_snoc [simp]: "newestByDoc (docs @ [d]) = newest_step (newestByDoc docs) d"
  by (simp add: newestByDoc_def)

lemma newestByDoc_Nil [simp]: "newestByDoc [] = []"
  by (simp add: newestByDoc_def)

lemma map_of_newest_step:
  "map_of (newest_step m d) i =
     (if i = DocID d
      then (case map_of m i of None \<Rightarrow> Some d
            | Some cur \<Rightarrow> Some (if Version d > Version cur then d else cur))
      else map_of m i)"
  by (auto simp: newest_step_def AList.update_conv' split: option.splits)

lemma distinct_newestByDoc: "distinct (map fst (newestByDoc docs))"
proof (induction docs rule: rev_induct)
  case (snoc d docs)
  then show ?case by (auto simp: newest_step_def AList.distinct_update split: option.splits)
qed simp

lemma newestByDoc_Some:
  "map_of (newestByDoc docs) i = Some d \<Longrightarrow> d \<in> set docs \<and> DocID d = i"
proof (induction docs arbitrary: d rule: rev_induct)
  case (snoc e docs)
  then show ?case by (auto simp: map_of_newest_step split: if_splits option.splits)
qed simp

lemma newestByDoc_None: "map_of (newestByDoc docs) i = None \<longleftrightarrow> i \<notin> DocID ` set docs"
proof (induction docs rule: rev_induct)
  case (snoc e docs)
  then show ?case by (auto simp: map_of_newest_step split: option.splits)
qed simp

lemma newestByDoc_max:
  "map_of (newestByDoc docs) i = Some d \<Longrightarrow> e \<in> set docs \<Longrightarrow> DocID e = i \<Longrightarrow> Version e \<le> Version d"
proof (induction docs arbitrary: d rule: rev_induct)
  case (snoc f docs)
  show ?case
  proof (cases "map_of (newestByDoc docs) i")
    case None
    then have "e \<notin> set docs" using snoc.prems by (auto simp: newestByDoc_None)
    with None snoc.prems show ?thesis
      by (auto simp: map_of_newest_step split: if_splits)
  next
    case (Some c)
    with snoc.IH [OF Some] snoc.prems show ?thesis
      by (fastforce simp: map_of_newest_step split: if_splits)
  qed
qed simp

lemma ext_apply_at:
  "ext_apply m op (op_id op) =
     (if newer m (op_id op) (op_version op) then Some (op_version op, op_result op) else m (op_id op))"
  by (simp add: ext_apply_def)

lemma sequential_newest:
  "sequential m docs i =
     (case map_of (newestByDoc docs) i of None \<Rightarrow> m i | Some d \<Rightarrow> ext_apply m (bulk_op_of d) i)"
proof (induction docs rule: rev_induct)
  case (snoc e docs)
  let ?s = "sequential m docs"
  have step: "sequential m (docs @ [e]) i = ext_apply ?s (bulk_op_of e) i"
    by (simp add: sequential_def)
  show ?case
  proof (cases "i = DocID e")
    case False
    then show ?thesis using snoc step by (simp add: ext_apply_other map_of_newest_step)
  next
    case True
    have at: "ext_apply n (bulk_op_of d) i =
        (if newer n i (Version d) then Some (Version d, op_result (bulk_op_of d)) else n i)"
      if "DocID d = i" for n d
      using that ext_apply_at [of n "bulk_op_of d"] by simp
    show ?thesis
    proof (cases "map_of (newestByDoc docs) i")
      case None
      then show ?thesis
        using snoc step True at [of e] by (simp add: map_of_newest_step newer_def)
    next
      case (Some c)
      have c: "DocID c = i" using newestByDoc_Some [OF Some] by simp
      show ?thesis
        using snoc step Some True at [of e] at [OF c]
        by (auto simp: map_of_newest_step newer_def split: option.splits)
    qed
  qed
qed (simp add: sequential_def)

lemma set_visited:
  assumes "range_ok order"
  shows "d \<in> set (visited order docs) \<longleftrightarrow> map_of (newestByDoc docs) (DocID d) = Some d"
proof -
  let ?m = "newestByDoc docs"
  have ks: "set (order (map fst ?m)) = dom (map_of ?m)"
    using assms by (metis dom_map_of_conv_image_fst range_ok_def set_map set_mset_mset)
  have "d \<in> set (visited order docs) \<longleftrightarrow>
      (\<exists>k \<in> set (order (map fst ?m)). map_of ?m k = Some d)"
    by (simp add: visited_def set_map_filter)
  also have "\<dots> \<longleftrightarrow> (\<exists>k. map_of ?m k = Some d)"
    unfolding ks by blast
  finally show ?thesis using newestByDoc_Some by blast
qed

lemma map_DocID_visited:
  assumes "range_ok order"
  shows "map DocID (visited order docs) = order (map fst (newestByDoc docs))"
proof -
  let ?m = "newestByDoc docs"
  have "map DocID (List.map_filter (map_of ?m) ks) = ks" if "set ks \<subseteq> fst ` set ?m" for ks
    using that
  proof (induction ks)
    case (Cons k ks)
    then obtain d where d: "map_of ?m k = Some d"
      by (metis list.set_intros(1) map_of_eq_None_iff option.exhaust subset_iff)
    then show ?case using Cons newestByDoc_Some [OF d] by (simp add: map_filter_simps)
  qed (simp add: map_filter_simps)
  moreover have "set (order (map fst ?m)) = fst ` set ?m"
    using assms by (metis range_ok_def set_map set_mset_mset)
  ultimately show ?thesis by (simp add: visited_def)
qed

lemma distinct_visited: "range_ok order \<Longrightarrow> distinct (map DocID (visited order docs))"
  by (metis distinct_newestByDoc map_DocID_visited mset_eq_imp_distinct_iff range_ok_def)

lemma distinct_toApply: "range_ok order \<Longrightarrow> distinct (map DocID (toApply order g docs))"
  by (simp add: toApply_def distinct_map_filter distinct_visited)

lemma toApply_iff:
  assumes "range_ok order"
  shows "d \<in> set (toApply order g docs) \<longleftrightarrow>
    map_of (newestByDoc docs) (DocID d) = Some d \<and> ShouldApply g (DocID d) (Version d)"
  using set_visited [OF assms] by (simp add: toApply_def)

lemma toApply_subset: "range_ok order \<Longrightarrow> set (toApply order g docs) \<subseteq> set docs"
  using toApply_iff newestByDoc_Some by blast

lemma applied_store_toApply:
  assumes "range_ok order" "guard_sound g m"
  shows "applied_store m (toApply order g docs) = sequential m docs"
proof
  fix i
  let ?ta = "toApply order g docs"
  show "applied_store m ?ta i = sequential m docs i"
  proof (cases "map_of (newestByDoc docs) i")
    case None
    then have "i \<notin> DocID ` set ?ta" using toApply_iff [OF assms(1)] by auto
    with None show ?thesis by (simp add: applied_store_other sequential_newest)
  next
    case (Some d)
    then have i: "DocID d = i" using newestByDoc_Some by blast
    have at: "ext_apply m (bulk_op_of d) i =
        (if newer m i (Version d) then Some (Version d, op_result (bulk_op_of d)) else m i)"
      using i ext_apply_at [of m "bulk_op_of d"] by simp
    show ?thesis
    proof (cases "ShouldApply g i (Version d)")
      case True
      then have "d \<in> set ?ta" using toApply_iff [OF assms(1)] Some i by simp
      with applied_store_at [OF distinct_toApply [OF assms(1)]] Some i at
      show ?thesis by (auto simp: sequential_newest)
    next
      case False
      then obtain w where w: "seen g i = Some w" "Version d \<le> w"
        by (auto simp: ShouldApply_def split: option.splits)
      then obtain v r where "m i = Some (v, r)" "w \<le> v"
        using assms(2) unfolding guard_sound_def by blast
      with w have "\<not> newer m i (Version d)" by (simp add: newer_def)
      moreover have "i \<notin> DocID ` set ?ta"
        using False i toApply_iff [OF assms(1)] Some by auto
      ultimately show ?thesis using Some at by (simp add: applied_store_other sequential_newest)
    qed
  qed
qed


lemma apply_batch_None [consumes 1, case_names noop written]:
  assumes "apply_batch x w docs = (None, w')"
  obtains
    (noop) "toApply (d_range x) (w_guard w) docs = []" "w_os w' = w_os w" "w_qd w' = w_qd w"
      "w_guard w' = w_guard w" "w_rd w' = w_rd w"
  | (written) applied points where
      "toApply (d_range x) (w_guard w) docs \<noteq> []"
      "Bulk (d_bulk x) (w_os w) (toApply (d_range x) (w_guard w) docs) = (Inr applied, w_os w')"
      "embed_points x (upserts applied (toApply (d_range x) (w_guard w) docs)) = Inr points"
      "write_qdrant x (w_qd w) points (deletes applied (toApply (d_range x) (w_guard w) docs)) =
         (None, w_qd w')"
      "w_guard w' = commit_docs (w_guard w)
         (filter (\<lambda>d. DocID d \<in> applied) (toApply (d_range x) (w_guard w) docs))"
      "w_rd w' = bump_all (d_redis x) (d_cache x) (w_rd w) (d_range x (tenantsChanged
         (filter (\<lambda>d. DocID d \<in> applied) (toApply (d_range x) (w_guard w) docs))))"
  using assms
  by (auto simp: apply_batch_def finish_def Let_def split: if_splits prod.splits sum.splits option.splits)

lemma points_of_Some:
  "points_of u mv ds vs = Some ps \<Longrightarrow> list_all2 (\<lambda>d p. \<exists>v. p = point_of u mv d v) ds ps"
  by (induction u mv ds vs arbitrary: ps rule: points_of.induct) auto

lemma embed_points_Inr:
  assumes "embed_points x ups = Inr ps"
  obtains mv where "list_all2 (\<lambda>d p. \<exists>v. p = point_of (d_uuid5 x) mv d v) ups ps"
proof (cases "ups = []")
  case True
  with assms have "list_all2 (\<lambda>d p. \<exists>v. p = point_of (d_uuid5 x) [] d v) ups ps"
    by (simp add: embed_points_def)
  then show ?thesis by (rule that)
next
  case False
  with assms obtain vecs mv where "points_of (d_uuid5 x) mv ups vecs = Some ps"
    by (auto simp: embed_points_def split: sum.splits option.splits)
  then show ?thesis by (rule that [OF points_of_Some])
qed

lemma write_qdrant_ok:
  assumes "write_qdrant x q points dels = (None, q')"
    and "upsert_spec (d_upsert x) vqd" "delete_spec (d_delete x) vqd"
  shows "vqd q' = drop_points (put_points (vqd q) points) (map (\<lambda>i. (''doc_id'', i)) dels)"
  using assms Upsert_ok [OF assms(2)] DeleteByDocIDs_ok [OF assms(3)]
  by (auto simp: write_qdrant_def split: if_splits prod.splits option.splits)

lemma point_of_simps [simp]:
  "pt_ID (point_of u mv d v) = u (DocID d)"
  "map_of (pt_Payload (point_of u mv d v)) ''doc_id'' = Some (PStr (DocID d))"
  "map_of (pt_Payload (point_of u mv d v)) ''version'' = Some (PInt (Version d))"
  by (simp_all add: point_of_def PointID_def)

lemma points_ids:
  "list_all2 (\<lambda>d p. \<exists>v. p = point_of u mv d v) ds ps \<Longrightarrow> map pt_ID ps = map (\<lambda>d. u (DocID d)) ds"
  by (induction rule: list_all2_induct) auto

lemma points_at:
  "list_all2 (\<lambda>d p. \<exists>v. p = point_of u mv d v) ds ps \<Longrightarrow> d \<in> set ds \<Longrightarrow>
   \<exists>v. point_of u mv d v \<in> set ps"
  by (induction rule: list_all2_induct) auto

lemma points_from:
  "list_all2 (\<lambda>d p. \<exists>v. p = point_of u mv d v) ds ps \<Longrightarrow> p \<in> set ps \<Longrightarrow>
   \<exists>d v. d \<in> set ds \<and> p = point_of u mv d v"
  by (induction rule: list_all2_induct) auto

lemma put_points_Some:
  "put_points m ps k = Some p \<Longrightarrow> m k = Some p \<or> p \<in> set ps \<and> pt_ID p = k"
proof (induction ps arbitrary: m)
  case (Cons q ps)
  then show ?case by (fastforce simp: put_points_Cons split: if_splits)
qed simp

lemma matches_doc_id:
  "map_of (pt_Payload p) ''doc_id'' = Some (PStr i) \<Longrightarrow>
   (\<exists>c\<in>set (map (\<lambda>i. (''doc_id'', i)) ids). matches c p) \<longleftrightarrow> i \<in> set ids"
  by (auto simp: matches_def)

text \<open>The vector store after a write, at the point of one document id.\<close>

lemma written_points:
  assumes inj: "inj_on u I" and "i \<in> I" "DocID ` set ta \<subseteq> I" and dist: "distinct (map DocID ta)"
    and ps: "list_all2 (\<lambda>d p. \<exists>v. p = point_of u mv d v) (upserts applied ta) ps"
    and wf: "\<forall>k p. q k = Some p \<longrightarrow>
        (\<exists>i\<in>I. k = u i \<and> map_of (pt_Payload p) ''doc_id'' = Some (PStr i))"
  defines "q' \<equiv> drop_points (put_points q ps) (map (\<lambda>i. (''doc_id'', i)) (deletes applied ta))"
  shows "d \<in> set ta \<Longrightarrow> DocID d = i \<Longrightarrow> i \<in> applied \<Longrightarrow> Op d = OpDelete \<Longrightarrow> q' (u i) = None"
    and "d \<in> set ta \<Longrightarrow> DocID d = i \<Longrightarrow> i \<in> applied \<Longrightarrow> Op d \<noteq> OpDelete \<Longrightarrow>
      \<exists>v. q' (u i) = Some (point_of u mv d v)"
    and "i \<notin> applied \<inter> DocID ` set ta \<Longrightarrow> q' (u i) = q (u i)"
proof -
  have ids: "pt_ID ` set ps = (\<lambda>d. u (DocID d)) ` set (upserts applied ta)"
    using points_ids [OF ps] by (metis image_set)
  have one: "d = e" if "d \<in> set ta" "e \<in> set ta" "DocID d = DocID e" for d e
    using dist that by (simp add: distinct_map inj_on_def)
  have keep: "put_points q ps (u i) = q (u i)" if "\<And>d. d \<in> set (upserts applied ta) \<Longrightarrow> DocID d \<noteq> i"
  proof (rule put_points_other)
    have "u (DocID d) \<noteq> u i" if d: "d \<in> set (upserts applied ta)" for d
    proof -
      have "DocID d \<in> I" using d assms(3) by (auto simp: upserts_def)
      then show ?thesis using inj_onD [OF inj, of "DocID d" i] \<open>i \<in> I\<close> d
        \<open>\<And>d. d \<in> set (upserts applied ta) \<Longrightarrow> DocID d \<noteq> i\<close> by blast
    qed
    then show "u i \<notin> pt_ID ` set ps" unfolding ids by force
  qed
  have old: "map_of (pt_Payload p) ''doc_id'' = Some (PStr i)" if "q (u i) = Some p" for p
    using wf that inj \<open>i \<in> I\<close> by (metis inj_onD)
  have dels: "i \<in> set (deletes applied ta) \<longleftrightarrow>
      (\<exists>d\<in>set ta. DocID d = i \<and> i \<in> applied \<and> Op d = OpDelete)"
    by (auto simp: deletes_def)
  show "q' (u i) = None" if d: "d \<in> set ta" "DocID d = i" "i \<in> applied" "Op d = OpDelete"
  proof -
    have "put_points q ps (u i) = q (u i)"
      using d one by (intro keep) (auto simp: upserts_def)
    then show ?thesis
      using d dels old matches_doc_id unfolding q'_def
      by (cases "q (u i)") (auto simp: drop_points_Some)
  qed
  show "\<exists>v. q' (u i) = Some (point_of u mv d v)"
    if d: "d \<in> set ta" "DocID d = i" "i \<in> applied" "Op d \<noteq> OpDelete"
  proof -
    have "d \<in> set (upserts applied ta)" using d by (simp add: upserts_def)
    then obtain v where v: "point_of u mv d v \<in> set ps" using points_at [OF ps] by blast
    have "inj_on (\<lambda>d. u (DocID d)) (set (upserts applied ta))"
    proof (rule inj_onI)
      fix a b assume ab: "a \<in> set (upserts applied ta)" "b \<in> set (upserts applied ta)"
        "u (DocID a) = u (DocID b)"
      then have "DocID a \<in> I" "DocID b \<in> I" using assms(3) by (auto simp: upserts_def)
      then have "DocID a = DocID b" using inj_onD [OF inj ab(3)] by blast
      then show "a = b" using ab one by (simp add: upserts_def)
    qed
    then have "distinct (map pt_ID ps)"
      using dist points_ids [OF ps] by (simp add: distinct_map upserts_def)
    then have "put_points q ps (u i) = Some (point_of u mv d v)"
      using put_points_at [OF _ v] d by simp
    moreover have "i \<notin> set (deletes applied ta)" using d one dels by blast
    ultimately show ?thesis
      using d matches_doc_id [of "point_of u mv d v"] unfolding q'_def
      by (auto simp: drop_points_Some)
  qed
  show "q' (u i) = q (u i)" if n: "i \<notin> applied \<inter> DocID ` set ta"
  proof -
    have "put_points q ps (u i) = q (u i)"
      using n by (intro keep) (auto simp: upserts_def)
    moreover have "i \<notin> set (deletes applied ta)" using n dels by blast
    ultimately show ?thesis
      using old matches_doc_id unfolding q'_def
      by (cases "q (u i)") (auto simp: drop_points_Some)
  qed
qed


lemma applied_ids_iff:
  assumes "distinct (map DocID ds)" "d \<in> set ds"
  shows "DocID d \<in> applied_ids m ds \<longleftrightarrow> newer m (DocID d) (Version d)"
  using assms by (auto simp: applied_ids_def distinct_map inj_on_def)

lemma applied_ids_subset: "applied_ids m ds \<subseteq> DocID ` set ds"
  by (auto simp: applied_ids_def)

lemma apply_batch_sequential:
  assumes "deps_ok x vos vqd" "guard_sound (w_guard w) (vos (w_os w))"
    and "apply_batch x w docs = (None, w')"
  shows "vos (w_os w') = sequential (vos (w_os w)) docs"
  using assms(3)
proof (cases rule: apply_batch_None)
  case noop
  have "applied_store (vos (w_os w)) [] = sequential (vos (w_os w)) docs"
    using applied_store_toApply [OF _ assms(2), of "d_range x" docs] assms(1) noop(1)
    by (simp add: deps_ok_def)
  then show ?thesis using noop by (simp add: applied_store_def)
next
  case (written applied points)
  have "vos (w_os w') = applied_store (vos (w_os w)) (toApply (d_range x) (w_guard w) docs)"
    using assms(1) written(2) distinct_toApply unfolding deps_ok_def by (blast intro: Bulk_external)
  then show ?thesis
    using applied_store_toApply [OF _ assms(2)] assms(1) by (simp add: deps_ok_def)
qed

lemma apply_batch_agree:
  assumes ok: "deps_ok x vos vqd" and inj: "inj_on (d_uuid5 x) I" and sub: "DocID ` set docs \<subseteq> I"
    and agree: "stores_agree I (d_uuid5 x) (vos (w_os w)) (vqd (w_qd w))"
    and run: "apply_batch x w docs = (None, w')"
  shows "stores_agree I (d_uuid5 x) (vos (w_os w')) (vqd (w_qd w'))"
  using run
proof (cases rule: apply_batch_None)
  case noop
  then show ?thesis using agree by simp
next
  case (written applied points)
  let ?ta = "toApply (d_range x) (w_guard w) docs" and ?u = "d_uuid5 x"
    and ?m = "vos (w_os w)" and ?m' = "vos (w_os w')" and ?q = "vqd (w_qd w)" and ?q' = "vqd (w_qd w')"
  have dist: "distinct (map DocID ?ta)" using ok distinct_toApply by (auto simp: deps_ok_def)
  have ta: "DocID ` set ?ta \<subseteq> I"
    using sub toApply_subset ok unfolding deps_ok_def by blast
  have bulk: "applied = applied_ids ?m ?ta" "?m' = applied_store ?m ?ta"
    using Bulk_external [OF _ dist written(2)] ok by (simp_all add: deps_ok_def)
  obtain mv where mv: "list_all2 (\<lambda>d p. \<exists>v. p = point_of ?u mv d v) (upserts applied ?ta) points"
    using embed_points_Inr [OF written(3)] .
  have q': "?q' = drop_points (put_points ?q points)
      (map (\<lambda>i. (''doc_id'', i)) (deletes applied ?ta))"
    using write_qdrant_ok [OF written(4)] ok by (auto simp: deps_ok_def)
  have wf: "\<forall>k p. ?q k = Some p \<longrightarrow>
        (\<exists>i\<in>I. k = ?u i \<and> map_of (pt_Payload p) ''doc_id'' = Some (PStr i))"
    using agree by (simp add: stores_agree_def)
  note wp = written_points [OF inj _ ta dist mv wf, folded q']
  have each: "agree_at (?m' i) (?q' (?u i))" if i: "i \<in> I" for i
  proof (cases "i \<in> applied")
    case True
    then obtain d where d: "d \<in> set ?ta" "DocID d = i"
      using bulk(1) applied_ids_subset by fastforce
    then have "?m' i = Some (Version d, if Op d = OpDelete then None else Some (os_doc_of d))"
      using True bulk applied_store_at [OF dist d(1), of ?m] applied_ids_iff [OF dist d(1), of ?m]
      by simp
    with True d wp(1,2) [OF i d] show ?thesis
      by (cases "Op d = OpDelete") (auto simp: agree_at_def)
  next
    case False
    have "?m' i = ?m i"
    proof (cases "i \<in> DocID ` set ?ta")
      case True
      then obtain d where d: "d \<in> set ?ta" "DocID d = i" by blast
      with False bulk applied_store_at [OF dist d(1), of ?m] applied_ids_iff [OF dist d(1), of ?m]
      show ?thesis by simp
    next
      case False
      with bulk(2) show ?thesis by (simp add: applied_store_other)
    qed
    with False wp(3) [OF i] agree i show ?thesis by (simp add: stores_agree_def)
  qed
  moreover have "\<exists>i\<in>I. k = ?u i \<and> map_of (pt_Payload p) ''doc_id'' = Some (PStr i)"
    if kp: "?q' k = Some p" for k p
  proof -
    have "put_points ?q points k = Some p"
      using kp q' by (auto simp: drop_points_def split: option.splits if_splits)
    then have "?q k = Some p \<or> p \<in> set points \<and> pt_ID p = k"
      by (rule put_points_Some)
    then show ?thesis
    proof
      assume "?q k = Some p"
      then show ?thesis using wf by blast
    next
      assume p: "p \<in> set points \<and> pt_ID p = k"
      then obtain d v where "d \<in> set (upserts applied ?ta)" "p = point_of ?u mv d v"
        using mv points_from by blast
      then show ?thesis using p ta by (auto simp: upserts_def)
    qed
  qed
  ultimately show ?thesis unfolding stores_agree_def by blast
qed

lemma commit_docs_commit_all:
  "commit_docs g ds = vg.commit_all g (map (\<lambda>d. (DocID d, Version d)) ds)"
  by (induction ds arbitrary: g) (simp_all add: commit_docs_def)

lemma commit_docs_Some:
  "seen (commit_docs g ds) i = Some v \<Longrightarrow>
     seen g i = Some v \<or> (\<exists>d\<in>set ds. DocID d = i \<and> Version d = v)"
proof (induction ds arbitrary: g)
  case (Cons d ds)
  have "seen (Commit g (DocID d) (Version d)) i = Some v \<or> (\<exists>d\<in>set ds. DocID d = i \<and> Version d = v)"
    using Cons by (simp add: commit_docs_def)
  then show ?case by (auto simp: Commit_def split: option.splits if_splits)
qed (simp add: commit_docs_def)

lemma ext_apply_mono:
  "m i = Some (v, r) \<Longrightarrow> \<exists>v' r'. ext_apply m op i = Some (v', r') \<and> v \<le> v'"
  by (auto simp: ext_apply_def newer_def)

lemma foldl_ext_apply_mono:
  "m i = Some (v, r) \<Longrightarrow> \<exists>v' r'. foldl ext_apply m ops i = Some (v', r') \<and> v \<le> v'"
proof (induction ops arbitrary: m v r)
  case (Cons op ops)
  obtain v1 r1 where "ext_apply m op i = Some (v1, r1)" "v \<le> v1"
    using ext_apply_mono [of m i v r, OF Cons.prems] by blast
  then show ?case using Cons.IH by fastforce
qed auto

lemma sequential_mono:
  "m i = Some (v, r) \<Longrightarrow> \<exists>v' r'. sequential m docs i = Some (v', r') \<and> v \<le> v'"
  unfolding sequential_def by (rule foldl_ext_apply_mono)

lemma apply_batch_guard_sound:
  assumes ok: "deps_ok x vos vqd" and gs: "guard_sound (w_guard w) (vos (w_os w))"
    and run: "apply_batch x w docs = (None, w')"
  shows "guard_sound (w_guard w') (vos (w_os w'))"
  using run
proof (cases rule: apply_batch_None)
  case noop
  with gs show ?thesis by simp
next
  case (written applied points)
  let ?ta = "toApply (d_range x) (w_guard w) docs"
  have dist: "distinct (map DocID ?ta)" using ok distinct_toApply by (auto simp: deps_ok_def)
  have bulk: "applied = applied_ids (vos (w_os w)) ?ta" "vos (w_os w') = applied_store (vos (w_os w)) ?ta"
    using Bulk_external [OF _ dist written(2)] ok by (simp_all add: deps_ok_def)
  show ?thesis unfolding guard_sound_def
  proof (intro allI impI)
    fix i v assume "seen (w_guard w') i = Some v"
    then consider "seen (w_guard w) i = Some v"
      | d where "d \<in> set ?ta" "DocID d \<in> applied" "DocID d = i" "Version d = v"
      using commit_docs_Some [of "w_guard w" "filter (\<lambda>d. DocID d \<in> applied) ?ta" i v] written(5)
      by auto
    then show "\<exists>v' r. vos (w_os w') i = Some (v', r) \<and> v \<le> v'"
    proof cases
      case 1
      then obtain v0 r0 where v0: "vos (w_os w) i = Some (v0, r0)" "v \<le> v0"
        using gs unfolding guard_sound_def by blast
      then show ?thesis
        using foldl_ext_apply_mono [of "vos (w_os w)" i v0 r0 "map bulk_op_of ?ta", OF v0(1)] bulk(2)
        by (force simp: applied_store_def)
    next
      case 2
      then show ?thesis
        using bulk applied_store_at [OF dist 2(1), of "vos (w_os w)"] applied_ids_iff [OF dist 2(1)]
        by simp
    qed
  qed
qed

text \<open>A batch in which nothing is newer than the store changes no store, guard or generation.\<close>

lemma range_ok_Nil: "range_ok order \<Longrightarrow> order [] = []"
  by (metis mset_zero_iff range_ok_def mset.simps(1))

lemma apply_batch_stale:
  assumes ok: "deps_ok x vos vqd"
    and stale: "\<And>d. d \<in> set docs \<Longrightarrow> \<not> newer (vos (w_os w)) (DocID d) (Version d)"
    and run: "apply_batch x w docs = (None, w')"
  shows "vos (w_os w') = vos (w_os w) \<and> w_qd w' = w_qd w \<and> w_guard w' = w_guard w \<and> w_rd w' = w_rd w"
  using run
proof (cases rule: apply_batch_None)
  case (written applied points)
  let ?ta = "toApply (d_range x) (w_guard w) docs"
  have rng: "range_ok (d_range x)" using ok by (simp add: deps_ok_def)
  have dist: "distinct (map DocID ?ta)" using distinct_toApply [OF rng] .
  have bulk: "applied = applied_ids (vos (w_os w)) ?ta" "vos (w_os w') = applied_store (vos (w_os w)) ?ta"
    using Bulk_external [OF _ dist written(2)] ok by (simp_all add: deps_ok_def)
  have none: "applied = {}"
    using bulk(1) stale toApply_subset [OF rng] unfolding applied_ids_def by blast
  have "applied_store (vos (w_os w)) ?ta = vos (w_os w)"
  proof
    fix i show "applied_store (vos (w_os w)) ?ta i = vos (w_os w) i"
    proof (cases "i \<in> DocID ` set ?ta")
      case True
      then obtain d where d: "d \<in> set ?ta" "i = DocID d" by blast
      then have "\<not> newer (vos (w_os w)) (DocID d) (Version d)"
        using stale toApply_subset [OF rng] by blast
      then show ?thesis using applied_store_at [OF dist d(1), of "vos (w_os w)"] d(2) by simp
    qed (rule applied_store_other)
  qed
  moreover have "points = []" using written(3) none by (simp add: upserts_def embed_points_def)
  ultimately show ?thesis
    using written(4-6) none bulk(2)
    by (simp add: write_qdrant_def deletes_def commit_docs_def tenantsChanged_def bump_all_def
        range_ok_Nil [OF rng])
qed simp

lemma sequential_not_newer:
  assumes "d \<in> set docs"
  shows "\<not> newer (sequential m docs) (DocID d) (Version d)"
proof -
  obtain e where e: "map_of (newestByDoc docs) (DocID d) = Some e"
    using assms newestByDoc_None by (metis image_eqI not_None_eq)
  then have "Version d \<le> Version e" "DocID e = DocID d"
    using newestByDoc_max newestByDoc_Some assms by blast+
  then show ?thesis
    using e ext_apply_at [of m "bulk_op_of e"]
    by (auto simp: newer_def sequential_newest split: option.splits)
qed

lemma sequential_perm:
  assumes "set docs = set docs'"
    and det: "\<And>d e. d \<in> set docs \<Longrightarrow> e \<in> set docs \<Longrightarrow> DocID d = DocID e \<Longrightarrow> Version d = Version e
      \<Longrightarrow> bulk_op_of d = bulk_op_of e"
  shows "sequential m docs = sequential m docs'"
proof
  fix i
  show "sequential m docs i = sequential m docs' i"
  proof (cases "map_of (newestByDoc docs) i")
    case None
    then have "map_of (newestByDoc docs') i = None" using assms(1) by (simp add: newestByDoc_None)
    with None show ?thesis by (simp add: sequential_newest)
  next
    case (Some d)
    then have "map_of (newestByDoc docs') i \<noteq> None"
      using assms(1) newestByDoc_None [of docs i] by (simp add: newestByDoc_None)
    then obtain d' where d': "map_of (newestByDoc docs') i = Some d'" by blast
    have "d \<in> set docs" "DocID d = i" "d' \<in> set docs" "DocID d' = i"
      using newestByDoc_Some [OF Some] newestByDoc_Some [OF d'] assms(1) by simp_all
    moreover from this have "Version d = Version d'"
      using newestByDoc_max [OF Some, of d'] newestByDoc_max [OF d', of d] assms(1) by simp
    ultimately have "bulk_op_of d = bulk_op_of d'" by (intro det) simp_all
    with Some d' show ?thesis by (simp add: sequential_newest)
  qed
qed

lemma sequential_append: "sequential m (xs @ ys) = sequential (sequential m xs) ys"
  by (simp add: sequential_def)

lemma apply_run_sequential:
  assumes ok: "deps_ok x vos vqd"
  shows "guard_sound (w_guard w) (vos (w_os w)) \<Longrightarrow> apply_run x w bs = Some w' \<Longrightarrow>
    vos (w_os w') = sequential (vos (w_os w)) (concat bs) \<and> guard_sound (w_guard w') (vos (w_os w'))"
proof (induction bs arbitrary: w)
  case Nil
  then show ?case by (simp add: sequential_def)
next
  case (Cons b bs)
  then obtain w1 where w1: "apply_batch x w b = (None, w1)" "apply_run x w1 bs = Some w'"
    by (auto split: prod.splits option.splits)
  then show ?case
    using Cons.IH [OF apply_batch_guard_sound [OF ok Cons.prems(1) w1(1)] w1(2)]
      apply_batch_sequential [OF ok Cons.prems(1) w1(1)]
    by (auto simp: sequential_append)
qed

lemma apply_run_agree:
  assumes ok: "deps_ok x vos vqd" and inj: "inj_on (d_uuid5 x) I"
  shows "DocID ` set (concat bs) \<subseteq> I \<Longrightarrow> stores_agree I (d_uuid5 x) (vos (w_os w)) (vqd (w_qd w)) \<Longrightarrow>
    apply_run x w bs = Some w' \<Longrightarrow> stores_agree I (d_uuid5 x) (vos (w_os w')) (vqd (w_qd w'))"
proof (induction bs arbitrary: w)
  case (Cons b bs)
  then obtain w1 where w1: "apply_batch x w b = (None, w1)" "apply_run x w1 bs = Some w'"
    by (auto split: prod.splits option.splits)
  have sub: "DocID ` set b \<subseteq> I" "DocID ` set (concat bs) \<subseteq> I" using Cons.prems(1) by auto
  show ?case
    using Cons.IH [OF sub(2) apply_batch_agree [OF ok inj sub(1) Cons.prems(2) w1(1)] w1(2)] .
qed simp

lemma deps_ok_ref: "deps_ok ref_deps (\<lambda>m. m) (\<lambda>m. m)"
  by (simp add: deps_ok_def ref_deps_def external_versioning_ext_api upsert_spec_ref
      delete_spec_ref range_ok_def)

lemma guard_sound_new: "guard_sound NewGuard m"
  by (simp add: guard_sound_def NewGuard_def)

lemma stores_agree_empty: "stores_agree I u Map.empty Map.empty"
  by (simp add: stores_agree_def agree_at_def)

lemmas apply_defs = apply_batch_def finish_def Let_def toApply_def skipped_def visited_def
  newestByDoc_def newest_step_def upserts_def deletes_def embed_points_def write_qdrant_def
  point_of_def PointID_def commit_docs_def tenantsChanged_def bump_all_def Bulk_def bulk_op_of_def
  os_doc_of_def bulk_line_of_def Upsert_def DeleteByDocIDs_def

lemmas ref_defs = ref_deps_def ref_world_def ex_doc_def ext_api_def ref_upsert_def ref_delete_def
  ref_redis_def NewGuard_def ShouldApply_def ext_status_def ext_apply_def newer_def live_def
  op_id_def op_version_def op_result_def put_points_def drop_points_def matches_def

lemma Generation_counter:
  assumes "has_rdb c" "counter_value (r_get api s (genKey t)) = Some n"
  shows "Generation api c s t = n"
  using assms by (auto simp: Generation_def counter_value_def split: option.splits rvalue.splits
      prod.splits if_splits)

lemma bump_all_other:
  assumes "redis_spec api" "genKey t \<notin> genKey ` set ts"
  shows "r_get api (bump_all api c s ts) (genKey t) = r_get api s (genKey t)"
  using assms(2)
proof (induction ts arbitrary: s)
  case (Cons a ts)
  then have "r_get api (BumpGeneration api c s a) (genKey t) = r_get api s (genKey t)"
    using redis_specD(4) [OF assms(1)] by (simp add: BumpGeneration_def)
  with Cons show ?case by (simp add: bump_all_def)
qed (simp add: bump_all_def)

lemma bump_all_at:
  assumes "redis_spec api" "has_rdb c" "distinct (map genKey ts)" "t \<in> set ts"
    and "counter_value (r_get api s (genKey t)) = Some n" "in_int64 (n + 1)"
  shows "r_get api (bump_all api c s ts) (genKey t) = Some (Plain (Itoa (n + 1)))"
  using assms(3-)
proof (induction ts arbitrary: s)
  case (Cons a ts)
  let ?s = "BumpGeneration api c s a"
  have step: "bump_all api c s (a # ts) = bump_all api c ?s ts" by (simp add: bump_all_def)
  show ?case
  proof (cases "t = a")
    case True
    then have "r_get api ?s (genKey t) = Some (Plain (Itoa (n + 1)))"
      using redis_specD(3) [OF assms(1)] Cons.prems(3,4) assms(2) by (simp add: BumpGeneration_def)
    moreover have "genKey t \<notin> genKey ` set ts" using Cons.prems(1) True by simp
    ultimately show ?thesis using bump_all_other [OF assms(1)] step by simp
  next
    case False
    then have "t \<in> set ts" "genKey t \<noteq> genKey a" using Cons.prems(1,2) by (auto, metis image_eqI)
    then have "r_get api ?s (genKey t) = r_get api s (genKey t)"
      using redis_specD(4) [OF assms(1)] assms(2) by (simp add: BumpGeneration_def)
    then show ?thesis using Cons.IH [of ?s] Cons.prems \<open>t \<in> set ts\<close> step by simp
  qed
qed simp

lemma genKey_tenants: "distinct (map genKey (tenantsChanged ds))"
proof -
  have "inj_on genKey (set (tenantsChanged ds))"
    by (auto simp: inj_on_def tenantsChanged_def genKey_def)
  then show ?thesis by (simp add: distinct_map tenantsChanged_def)
qed

lemma apply_batch_redis:
  assumes ok: "deps_ok x vos vqd" and run: "apply_batch x w docs = (None, w')"
  shows "w_rd w' = bump_all (d_redis x) (d_cache x) (w_rd w)
     (d_range x (tenantsChanged (written_docs x (w_guard w) (vos (w_os w)) docs)))"
  using run
proof (cases rule: apply_batch_None)
  case noop
  have "range_ok (d_range x)" using ok by (simp add: deps_ok_def)
  with noop show ?thesis
    by (simp add: written_docs_def tenantsChanged_def bump_all_def range_ok_Nil)
next
  case (written applied points)
  let ?ta = "toApply (d_range x) (w_guard w) docs"
  have dist: "distinct (map DocID ?ta)" using ok distinct_toApply by (auto simp: deps_ok_def)
  have "applied = applied_ids (vos (w_os w)) ?ta"
    using Bulk_external [OF _ dist written(2)] ok by (simp add: deps_ok_def)
  then have "filter (\<lambda>d. DocID d \<in> applied) ?ta = written_docs x (w_guard w) (vos (w_os w)) docs"
    unfolding written_docs_def using applied_ids_iff [OF dist] by (intro filter_cong) simp_all
  then show ?thesis using written(6) by simp
qed

lemma apply_batch_bumps:
  assumes ok: "deps_ok x vos vqd" and run: "apply_batch x w docs = (None, w')"
    and rs: "redis_spec (d_redis x)" and c: "has_rdb (d_cache x)"
    and d: "d \<in> set (written_docs x (w_guard w) (vos (w_os w)) docs)"
    and n: "counter_value (r_get (d_redis x) (w_rd w) (genKey (Itoa (TenantID d)))) = Some n"
      "in_int64 (n + 1)"
  shows "Generation (d_redis x) (d_cache x) (w_rd w') (Itoa (TenantID d)) = n + 1"
proof -
  let ?ts = "tenantsChanged (written_docs x (w_guard w) (vos (w_os w)) docs)"
  have "range_ok (d_range x)" using ok by (simp add: deps_ok_def)
  then have ms: "mset (d_range x ?ts) = mset ?ts" by (simp add: range_ok_def)
  then have "distinct (map genKey (d_range x ?ts))"
    using genKey_tenants by (metis mset_eq_imp_distinct_iff mset_map)
  moreover have "Itoa (TenantID d) \<in> set (d_range x ?ts)"
    using d ms by (metis (mono_tags, lifting) image_eqI list.set_map set_mset_mset set_remdups
        tenantsChanged_def)
  ultimately have "r_get (d_redis x) (w_rd w') (genKey (Itoa (TenantID d))) = Some (Plain (Itoa (n + 1)))"
    using bump_all_at [OF rs c _ _ n] apply_batch_redis [OF ok run] by simp
  then show ?thesis
    by (intro Generation_counter [OF c]) (simp add: counter_value_def n(2))
qed

lemma apply_batch_global_gen:
  assumes ok: "deps_ok x vos vqd" and run: "apply_batch x w docs = (None, w')"
    and rs: "redis_spec (d_redis x)"
  shows "Generation (d_redis x) (d_cache x) (w_rd w') [] = Generation (d_redis x) (d_cache x) (w_rd w) []"
proof -
  let ?ts = "tenantsChanged (written_docs x (w_guard w) (vos (w_os w)) docs)"
  have "mset (d_range x ?ts) = mset ?ts" using ok by (simp add: deps_ok_def range_ok_def)
  then have "set (d_range x ?ts) = set ?ts" by (metis set_mset_mset)
  then have "genKey [] \<notin> genKey ` set (d_range x ?ts)"
    using genKey_Itoa_global by (force simp: tenantsChanged_def)
  then show ?thesis
    using bump_all_other [OF rs] apply_batch_redis [OF ok run] by (simp add: Generation_def)
qed

lemma apply_batch_embed_failure:
  assumes ok: "deps_ok x vos vqd" and gs: "guard_sound (w_guard w) (vos (w_os w))"
    and run: "apply_batch x w docs = (Some (ApplyEmbed e), w')"
  shows "vos (w_os w') = sequential (vos (w_os w)) docs \<and> w_qd w' = w_qd w \<and> w_guard w' = w_guard w"
proof -
  let ?ta = "toApply (d_range x) (w_guard w) docs"
  from run obtain applied where b: "Bulk (d_bulk x) (w_os w) ?ta = (Inr applied, w_os w')"
    and w': "w_qd w' = w_qd w" "w_guard w' = w_guard w"
    by (auto simp: apply_batch_def Let_def write_qdrant_def
        split: if_splits prod.splits sum.splits option.splits)
  have "distinct (map DocID ?ta)" using ok distinct_toApply by (auto simp: deps_ok_def)
  then have "vos (w_os w') = applied_store (vos (w_os w)) ?ta"
    using Bulk_external [OF _ _ b] ok by (simp add: deps_ok_def)
  then show ?thesis
    using w' applied_store_toApply [OF _ gs] ok by (simp add: deps_ok_def)
qed

lemma retry_after_embed_failure:
  assumes ok: "deps_ok x vos vqd" and ok': "deps_ok x' vos vqd"
    and gs: "guard_sound (w_guard w) (vos (w_os w))"
    and fail: "apply_batch x w docs = (Some (ApplyEmbed e), w1)"
    and retry: "apply_batch x' w1 docs = (None, w2)"
  shows "vos (w_os w2) = sequential (vos (w_os w)) docs \<and> w_qd w2 = w_qd w \<and> w_rd w2 = w_rd w1"
proof -
  note f = apply_batch_embed_failure [OF ok gs fail]
  have "\<not> newer (vos (w_os w1)) (DocID d) (Version d)" if "d \<in> set docs" for d
    using f sequential_not_newer [OF that] by simp
  from apply_batch_stale [OF ok' this retry] f show ?thesis by simp
qed


lemma points_of_enough: "length vs = length ds \<Longrightarrow> \<exists>ps. points_of u mv ds vs = Some ps"
  by (induction u mv ds vs rule: points_of.induct) auto

lemma embed_points_responsive: "responsive x \<Longrightarrow> \<exists>ps. embed_points x ups = Inr ps"
proof -
  assume "responsive x"
  then obtain vs mv where "d_embed x (map Text ups) = Inr (vs, mv)" "length vs = length (map Text ups)"
    unfolding responsive_def by blast
  moreover obtain ps where "points_of (d_uuid5 x) mv ups vs = Some ps"
    using points_of_enough [of vs ups] calculation(2) by auto
  ultimately show ?thesis by (simp add: embed_points_def)
qed

lemma write_qdrant_responsive: "responsive x \<Longrightarrow> \<exists>q'. write_qdrant x q points dels = (None, q')"
proof -
  assume r: "responsive x"
  obtain q1 where q1: "(if points = [] then (None, q) else Upsert (d_upsert x) q points) = (None, q1)"
  proof (cases "points = []")
    case False
    obtain q2 where "d_upsert x q points = (None, q2)" using r unfolding responsive_def by blast
    with False that [of q2] show ?thesis by (simp add: Upsert_def)
  qed (use that in simp)
  obtain q2 where "(if dels = [] then (None, q1) else DeleteByDocIDs (d_delete x) q1 dels) = (None, q2)"
  proof (cases "dels = []")
    case False
    obtain q3 where "d_delete x q1 (map (\<lambda>i. (''doc_id'', i)) dels) = (None, q3)"
      using r unfolding responsive_def by blast
    with False that [of q3] show ?thesis by (simp add: DeleteByDocIDs_def)
  qed (use that in simp)
  with q1 show ?thesis by (simp add: write_qdrant_def)
qed

lemma apply_batch_succeeds:
  assumes ok: "deps_ok x vos vqd" and r: "responsive x"
  shows "\<exists>w'. apply_batch x w docs = (None, w')"
proof -
  let ?ta = "toApply (d_range x) (w_guard w) docs"
  have dist: "distinct (map DocID ?ta)" using ok distinct_toApply by (auto simp: deps_ok_def)
  obtain items s' where api: "d_bulk x (w_os w) (map bulk_op_of ?ta) = (Inr items, s')"
    and taken: "items_taken (map bulk_op_of ?ta) items"
    using r unfolding responsive_def by blast
  have bulk: "Bulk (d_bulk x) (w_os w) ?ta = (Inr (applied_ids (vos (w_os w)) ?ta), s')" if "?ta \<noteq> []"
    using Bulk_no_item_error [where api = "d_bulk x" and view = vos, OF _ dist api that taken] ok by (simp add: deps_ok_def)
  obtain ps where ps: "embed_points x (upserts (applied_ids (vos (w_os w)) ?ta) ?ta) = Inr ps"
    using embed_points_responsive [OF r] by blast
  obtain q' where "write_qdrant x (w_qd w) ps (deletes (applied_ids (vos (w_os w)) ?ta) ?ta) = (None, q')"
    using write_qdrant_responsive [OF r] by blast
  with bulk ps show ?thesis by (simp add: apply_batch_def Let_def)
qed

text \<open>The counters of a successful call: one per document of the batch that was skipped or written.\<close>

lemma apply_batch_metrics:
  assumes "deps_ok x vos vqd" "apply_batch x w docs = (None, w')"
  shows "w_metrics w' = w_metrics w @ map (\<lambda>d. DocsSkipped (Source d)) (skipped (d_range x) (w_guard w) docs) @
    (if toApply (d_range x) (w_guard w) docs = [] then [] else
       [BulkWriteSeconds ''opensearch'' (d_elapsed x ''opensearch''), BulkWriteSeconds ''qdrant'' (d_elapsed x ''qdrant'')] @
       concat (map (\<lambda>d. [FreshnessLag (Source d) (Tier d) (lag_seconds (d_now x) d), DocsIndexed (Source d) (Tier d) (Op d)])
         (written_docs x (w_guard w) (vos (w_os w)) docs)))"
proof -
  let ?ta = "toApply (d_range x) (w_guard w) docs"
  have dist: "distinct (map DocID ?ta)" and ev: "external_versioning (d_bulk x) vos"
    using assms(1) distinct_toApply by (auto simp: deps_ok_def)
  have f: "filter (\<lambda>d. DocID d \<in> applied) ?ta = written_docs x (w_guard w) (vos (w_os w)) docs"
    if "Bulk (d_bulk x) (w_os w) ?ta = (Inr applied, os')" for applied os'
    using Bulk_external(1) [OF ev dist that] applied_ids_iff [OF dist] unfolding written_docs_def
    by (intro filter_cong) auto
  show ?thesis
    using assms(2) f
    by (auto simp: apply_batch_def finish_def Let_def split: if_splits prod.splits sum.splits option.splits)
qed

lemma counter_of_map: "counter_of (map f xs) m = length (filter (\<lambda>x. f x = m) xs)"
  by (induction xs) simp_all

lemma counter_of_pairs:
  "counter_of (concat (map (\<lambda>x. [f x, g x]) xs)) m = counter_of (map f xs) m + counter_of (map g xs) m"
  by (induction xs) simp_all

lemma visited_split:
  assumes "range_ok order"
  shows "length (skipped order g docs) + length (toApply order g docs) = card (DocID ` set docs)"
proof -
  have "length (skipped order g docs) + length (toApply order g docs) = length (visited order docs)"
    using sum_length_filter_compl [of "\<lambda>d. ShouldApply g (DocID d) (Version d)" "visited order docs"]
    by (simp add: skipped_def toApply_def)
  also have "\<dots> = card (DocID ` set (visited order docs))"
    using distinct_visited [OF assms, of docs] by (metis distinct_card length_map list.set_map)
  also have "DocID ` set (visited order docs) = DocID ` set docs"
  proof (rule set_eqI)
    fix i
    have "i \<in> DocID ` set (visited order docs) \<longleftrightarrow> map_of (newestByDoc docs) i \<noteq> None"
    proof
      assume "i \<in> DocID ` set (visited order docs)"
      then show "map_of (newestByDoc docs) i \<noteq> None" using set_visited [OF assms, of _ docs] by auto
    next
      assume "map_of (newestByDoc docs) i \<noteq> None"
      then obtain d where d: "map_of (newestByDoc docs) i = Some d" by blast
      then have i: "DocID d = i" using newestByDoc_Some by blast
      then have "d \<in> set (visited order docs)" using set_visited [OF assms, of d docs] d by simp
      then show "i \<in> DocID ` set (visited order docs)" using i by (rule image_eqI [OF sym, rotated])
    qed
    then show "i \<in> DocID ` set (visited order docs) \<longleftrightarrow> i \<in> DocID ` set docs"
      by (simp only: newestByDoc_None not_not)
  qed
  finally show ?thesis .
qed

lemma responsive_ref: "responsive ref_deps"
  by (simp add: responsive_def ref_deps_def ext_api_def ref_upsert_def ref_delete_def split_def Let_def
      items_taken_ext)

subsection \<open>Properties\<close>

text \<open>
  C1: batching, newest-per-document selection, the in-memory guard and the random map order
  are invisible. A successful run over any batches leaves the versioned store exactly as if
  every document had been sent to it on its own, in arrival order.
\<close>

theorem apply_run_refines_sequential:
  assumes "deps_ok x vos vqd" and "guard_sound (w_guard w) (vos (w_os w))"
    and "apply_run x w bs = Some w'"
  shows "vos (w_os w') = sequential (vos (w_os w)) (concat bs)"
  using apply_run_sequential [OF assms] by simp

theorem apply_run_refines_sequential_witness:
  "\<exists>w'. apply_run ref_deps ref_world
      [[ex_doc ''a'' 1 OpUpsert, ex_doc ''a'' 2 OpUpsert], [ex_doc ''a'' 3 OpDelete]] = Some w' \<and>
    w_os w' = sequential Map.empty
      [ex_doc ''a'' 1 OpUpsert, ex_doc ''a'' 2 OpUpsert, ex_doc ''a'' 3 OpDelete]"
proof -
  obtain w' where run: "apply_run ref_deps ref_world
      [[ex_doc ''a'' 1 OpUpsert, ex_doc ''a'' 2 OpUpsert], [ex_doc ''a'' 3 OpDelete]] = Some w'"
    by (simp add: apply_defs ref_defs op_tier_defs map_filter_simps Text_def Commit_def)
  have "guard_sound (w_guard ref_world) (w_os ref_world)"
    by (simp add: ref_world_def guard_sound_new)
  from apply_run_refines_sequential [OF deps_ok_ref this run] run show ?thesis
    by (simp add: ref_world_def)
qed

text \<open>
  C4: the two stores never diverge on the success path. If OpenSearch and Qdrant hold the same
  documents at the same versions before a run, they do after every successful run.
\<close>

theorem apply_run_keeps_stores_agreeing:
  assumes "deps_ok x vos vqd" and "inj_on (d_uuid5 x) I" and "DocID ` set (concat bs) \<subseteq> I"
    and "stores_agree I (d_uuid5 x) (vos (w_os w)) (vqd (w_qd w))"
    and "apply_run x w bs = Some w'"
  shows "stores_agree I (d_uuid5 x) (vos (w_os w')) (vqd (w_qd w'))"
  using assms by (rule apply_run_agree)

theorem apply_run_keeps_stores_agreeing_witness:
  "\<exists>w'. apply_run ref_deps ref_world [[ex_doc ''a'' 1 OpUpsert, ex_doc ''b'' 2 OpUpsert],
        [ex_doc ''b'' 5 OpDelete]] = Some w' \<and>
      stores_agree UNIV (\<lambda>s. s) (w_os w') (w_qd w')"
proof -
  let ?bs = "[[ex_doc ''a'' 1 OpUpsert, ex_doc ''b'' 2 OpUpsert], [ex_doc ''b'' 5 OpDelete]]"
  obtain w' where run: "apply_run ref_deps ref_world ?bs = Some w'"
    by (simp add: apply_defs ref_defs op_tier_defs map_filter_simps Text_def Commit_def)
  have u: "d_uuid5 ref_deps = (\<lambda>s. s)" by (simp add: ref_deps_def)
  have "stores_agree UNIV (d_uuid5 ref_deps) (w_os ref_world) (w_qd ref_world)"
    by (simp add: ref_world_def stores_agree_empty)
  from apply_run_keeps_stores_agreeing [OF deps_ok_ref _ subset_UNIV this run] run show ?thesis
    by (simp add: u)
qed

text \<open>
  C8: replay safety. After a successful \<open>apply\<close>, delivering any of its documents again, in any
  order and any batch, changes neither store, nor the guard, nor a cache generation, even
  after a restart that replaced the guard by an arbitrary one.
\<close>

theorem apply_replay_safe:
  assumes "deps_ok x vos vqd" and "guard_sound (w_guard w) (vos (w_os w))"
    and "apply_batch x w docs = (None, w')"
    and "deps_ok x' vos vqd" and "set again \<subseteq> set docs"
    and "apply_batch x' (w'\<lparr>w_guard := g\<rparr>) again = (None, w'')"
  shows "vos (w_os w'') = vos (w_os w') \<and> w_qd w'' = w_qd w' \<and> w_guard w'' = g \<and> w_rd w'' = w_rd w'"
proof -
  have "\<not> newer (vos (w_os (w'\<lparr>w_guard := g\<rparr>))) (DocID d) (Version d)" if "d \<in> set again" for d
    using apply_batch_sequential [OF assms(1-3)] sequential_not_newer assms(5) that by auto
  from apply_batch_stale [OF assms(4) this assms(6)] show ?thesis by simp
qed

theorem apply_replay_safe_witness:
  "\<exists>w' w''. apply_batch ref_deps ref_world [ex_doc ''a'' 3 OpUpsert] = (None, w') \<and>
     apply_batch ref_deps (w'\<lparr>w_guard := NewGuard\<rparr>) [ex_doc ''a'' 3 OpUpsert] = (None, w'') \<and>
     w_os w'' = w_os w' \<and> w_qd w'' = w_qd w'"
proof -
  obtain w' where w': "apply_batch ref_deps ref_world [ex_doc ''a'' 3 OpUpsert] = (None, w')"
    using apply_batch_succeeds [OF deps_ok_ref responsive_ref] by blast
  obtain w'' where w'': "apply_batch ref_deps (w'\<lparr>w_guard := NewGuard\<rparr>) [ex_doc ''a'' 3 OpUpsert] = (None, w'')"
    using apply_batch_succeeds [OF deps_ok_ref responsive_ref] by blast
  have "guard_sound (w_guard ref_world) (w_os ref_world)"
    by (simp add: ref_world_def guard_sound_new)
  from apply_replay_safe [OF deps_ok_ref this w' deps_ok_ref subset_refl w''] w' w'' show ?thesis
    by blast
qed

text \<open>
  the lanes may be interleaved in any way. If a version of a document determines its
  content, two successful runs that deliver the same set of documents in different orders
  and batches, with any repetitions, end with the same store.
\<close>

theorem apply_order_independent:
  assumes "deps_ok x vos vqd" and "guard_sound (w_guard w) (vos (w_os w))"
    and "apply_run x w bs = Some w1" and "apply_run x w bs' = Some w2"
    and "set (concat bs) = set (concat bs')"
    and "\<And>d e. d \<in> set (concat bs) \<Longrightarrow> e \<in> set (concat bs) \<Longrightarrow> DocID d = DocID e \<Longrightarrow>
      Version d = Version e \<Longrightarrow> bulk_op_of d = bulk_op_of e"
  shows "vos (w_os w1) = vos (w_os w2)"
proof -
  have "sequential (vos (w_os w)) (concat bs) = sequential (vos (w_os w)) (concat bs')"
    by (rule sequential_perm [OF assms(5)]) (rule assms(6))
  then show ?thesis
    using apply_run_sequential [OF assms(1-3)] apply_run_sequential [OF assms(1,2,4)] by simp
qed

theorem apply_order_independent_witness:
  "\<exists>w1 w2. apply_run ref_deps ref_world [[ex_doc ''a'' 1 OpUpsert], [ex_doc ''a'' 2 OpDelete]] = Some w1 \<and>
     apply_run ref_deps ref_world [[ex_doc ''a'' 2 OpDelete], [ex_doc ''a'' 1 OpUpsert]] = Some w2 \<and>
     w_os w1 = w_os w2"
proof -
  obtain w1 where w1: "apply_run ref_deps ref_world [[ex_doc ''a'' 1 OpUpsert], [ex_doc ''a'' 2 OpDelete]] = Some w1"
    by (simp add: apply_defs ref_defs op_tier_defs map_filter_simps Text_def Commit_def)
  obtain w2 where w2: "apply_run ref_deps ref_world [[ex_doc ''a'' 2 OpDelete], [ex_doc ''a'' 1 OpUpsert]] = Some w2"
    by (simp add: apply_defs ref_defs op_tier_defs map_filter_simps Text_def Commit_def)
  have gs: "guard_sound (w_guard ref_world) (w_os ref_world)"
    by (simp add: ref_world_def guard_sound_new)
  have "w_os w1 = w_os w2"
    by (rule apply_order_independent [OF deps_ok_ref gs w1 w2]) (auto simp: ex_doc_def)
  with w1 w2 show ?thesis by blast
qed


text \<open>
  when every service answers, \<open>apply\<close> returns nil, for every batch and every state; in
  particular a stale write (409) or a delete of an absent document (404) is no error.
\<close>

theorem apply_succeeds_when_responsive:
  assumes "deps_ok x vos vqd" and "responsive x"
  shows "\<exists>w'. apply_batch x w docs = (None, w')"
  using assms by (rule apply_batch_succeeds)

theorem apply_succeeds_when_responsive_witness:
  "\<exists>w'. apply_batch ref_deps ref_world [ex_doc ''a'' 1 OpDelete] = (None, w')"
  by (rule apply_succeeds_when_responsive [OF deps_ok_ref responsive_ref])

text \<open>
  freshness of the answer cache. A successful \<open>apply\<close> raises the cache generation of the
  tenant of every document it wrote by exactly one, however many of its documents changed.
\<close>

theorem apply_bumps_written_tenants:
  assumes "deps_ok x vos vqd" and "apply_batch x w docs = (None, w')"
    and "redis_spec (d_redis x)" and "has_rdb (d_cache x)"
    and "d \<in> set (written_docs x (w_guard w) (vos (w_os w)) docs)"
    and "counter_value (r_get (d_redis x) (w_rd w) (genKey (Itoa (TenantID d)))) = Some n"
    and "in_int64 (n + 1)"
  shows "Generation (d_redis x) (d_cache x) (w_rd w') (Itoa (TenantID d)) = n + 1"
  using assms by (rule apply_batch_bumps)

theorem apply_bumps_written_tenants_witness:
  "\<exists>w'. apply_batch ref_deps ref_world [ex_doc ''a'' 1 OpUpsert, ex_doc ''b'' 1 OpUpsert] = (None, w') \<and>
     Generation ref_redis (d_cache ref_deps) (w_rd w') (Itoa 7) = 1"
proof -
  obtain w' where w': "apply_batch ref_deps ref_world
      [ex_doc ''a'' 1 OpUpsert, ex_doc ''b'' 1 OpUpsert] = (None, w')"
    using apply_batch_succeeds [OF deps_ok_ref responsive_ref] by blast
  have "Generation (d_redis ref_deps) (d_cache ref_deps) (w_rd w')
      (Itoa (TenantID (ex_doc ''a'' 1 OpUpsert))) = 0 + 1"
  proof (rule apply_bumps_written_tenants [OF deps_ok_ref w'])
    show "redis_spec (d_redis ref_deps)" by (simp add: ref_deps_def redis_spec_ref)
    show "has_rdb (d_cache ref_deps)" by (simp add: ref_deps_def)
    show "ex_doc ''a'' 1 OpUpsert \<in> set (written_docs ref_deps (w_guard ref_world) (w_os ref_world)
        [ex_doc ''a'' 1 OpUpsert, ex_doc ''b'' 1 OpUpsert])"
      by (simp add: written_docs_def apply_defs ref_defs map_filter_simps)
    show "counter_value (r_get (d_redis ref_deps) (w_rd ref_world)
        (genKey (Itoa (TenantID (ex_doc ''a'' 1 OpUpsert))))) = Some 0"
      by (simp add: ref_deps_def ref_world_def ref_redis_def counter_value_def)
    show "in_int64 (0 + 1)" by (simp add: in_int64_def)
  qed
  with w' show ?thesis by (simp add: ref_deps_def ex_doc_def)
qed

text \<open>
  the generation read for requests without a tenant (\<open>gen:_global\<close>) is never bumped: the
  indexer bumps numeric tenants only. In open mode cached answers therefore survive every
  write until they expire.
\<close>

theorem apply_never_bumps_global_generation:
  assumes "deps_ok x vos vqd" and "apply_batch x w docs = (None, w')"
    and "redis_spec (d_redis x)"
  shows "Generation (d_redis x) (d_cache x) (w_rd w') [] = Generation (d_redis x) (d_cache x) (w_rd w) []"
  using assms by (rule apply_batch_global_gen)

theorem apply_never_bumps_global_generation_witness:
  "\<exists>w'. apply_batch ref_deps ref_world [ex_doc ''a'' 1 OpUpsert] = (None, w') \<and>
     Generation ref_redis (d_cache ref_deps) (w_rd w') [] = 0"
proof -
  obtain w' where w': "apply_batch ref_deps ref_world [ex_doc ''a'' 1 OpUpsert] = (None, w')"
    using apply_batch_succeeds [OF deps_ok_ref responsive_ref] by blast
  have "redis_spec (d_redis ref_deps)" by (simp add: ref_deps_def redis_spec_ref)
  from apply_never_bumps_global_generation [OF deps_ok_ref w' this] w' show ?thesis
    by (simp add: ref_deps_def ref_world_def ref_redis_def Generation_def)
qed

text \<open>the counters tell the truth. A successful \<open>apply\<close> adds to \<open>DocsSkipped\<close> one per document the guard
  refused and to \<open>DocsIndexed\<close> one per document it wrote, under the right labels; the distinct
  documents of the batch are exactly those two and the ones OpenSearch rejected as stale, which
  no counter counts; and no observed lag is negative.
\<close>

theorem apply_counts_documents:
  assumes "deps_ok x vos vqd" and "apply_batch x w docs = (None, w')"
  shows "counter_of (w_metrics w') (DocsSkipped s) = counter_of (w_metrics w) (DocsSkipped s) +
      length (filter (\<lambda>d. Source d = s) (skipped (d_range x) (w_guard w) docs)) \<and>
    counter_of (w_metrics w') (DocsIndexed s t p) = counter_of (w_metrics w) (DocsIndexed s t p) +
      length (filter (\<lambda>d. Source d = s \<and> Tier d = t \<and> Op d = p) (written_docs x (w_guard w) (vos (w_os w)) docs)) \<and>
    card (DocID ` set docs) = length (skipped (d_range x) (w_guard w) docs) +
      length (written_docs x (w_guard w) (vos (w_os w)) docs) +
      length (filter (\<lambda>d. \<not> newer (vos (w_os w)) (DocID d) (Version d)) (toApply (d_range x) (w_guard w) docs)) \<and>
    (FreshnessLag s t lag \<in> set (drop (length (w_metrics w)) (w_metrics w')) \<longrightarrow> 0 \<le> lag)"
proof -
  let ?sk = "skipped (d_range x) (w_guard w) docs" and ?wr = "written_docs x (w_guard w) (vos (w_os w)) docs"
  let ?ta = "toApply (d_range x) (w_guard w) docs"
  note m = apply_batch_metrics [OF assms]
  have none: "?ta = [] \<Longrightarrow> ?wr = []" by (simp add: written_docs_def)
  have "length ?wr + length (filter (\<lambda>d. \<not> newer (vos (w_os w)) (DocID d) (Version d)) ?ta) = length ?ta"
    unfolding written_docs_def by (rule sum_length_filter_compl)
  moreover have "length ?sk + length ?ta = card (DocID ` set docs)"
    using assms(1) by (intro visited_split) (simp add: deps_ok_def)
  moreover have "counter_of (w_metrics w') (DocsSkipped s) =
      counter_of (w_metrics w) (DocsSkipped s) + length (filter (\<lambda>d. Source d = s) ?sk)"
    unfolding m by (simp add: counter_of_pairs counter_of_map)
  moreover have "counter_of (w_metrics w') (DocsIndexed s t p) = counter_of (w_metrics w) (DocsIndexed s t p) +
      length (filter (\<lambda>d. Source d = s \<and> Tier d = t \<and> Op d = p) ?wr)"
    unfolding m using none by (simp add: counter_of_pairs counter_of_map)
  moreover have "0 \<le> lag" if "FreshnessLag s t lag \<in> set (drop (length (w_metrics w)) (w_metrics w'))"
    using that unfolding m by (auto simp: lag_seconds_def Let_def split: if_splits)
  ultimately show ?thesis by simp
qed

theorem apply_counts_documents_witness:
  "\<exists>w'. apply_batch ref_deps ref_world [ex_doc ''a'' 1 OpUpsert, ex_doc ''a'' 2 OpUpsert] = (None, w') \<and>
     counter_of (w_metrics w') (DocsIndexed ''postgres'' ''urgent'' ''upsert'') = 1"
proof -
  obtain w' where w': "apply_batch ref_deps ref_world [ex_doc ''a'' 1 OpUpsert, ex_doc ''a'' 2 OpUpsert] = (None, w')"
    using apply_batch_succeeds [OF deps_ok_ref responsive_ref] by blast
  have "counter_of (w_metrics w') (DocsIndexed ''postgres'' ''urgent'' ''upsert'') = 1"
    using apply_counts_documents [OF deps_ok_ref w', of "''postgres''" "''urgent''" "''upsert''"]
    by (simp add: written_docs_def apply_defs ref_defs map_filter_simps op_tier_defs)
  with w' show ?thesis by blast
qed

text \<open>
  C36: a batch whose embedding failed is lost for the vector store. OpenSearch has already
  accepted the documents, so the retry, with every service healthy again, is answered 409
  for all of them: it returns nil, leaves Qdrant as it was before the first attempt and
  bumps no generation.
\<close>

theorem retry_after_embed_failure_skips_qdrant:
  assumes "deps_ok x vos vqd" and "deps_ok x' vos vqd"
    and "guard_sound (w_guard w) (vos (w_os w))"
    and "apply_batch x w docs = (Some (ApplyEmbed e), w1)"
    and "apply_batch x' w1 docs = (None, w2)"
  shows "vos (w_os w2) = sequential (vos (w_os w)) docs \<and> w_qd w2 = w_qd w \<and> w_rd w2 = w_rd w1"
  using assms by (rule retry_after_embed_failure)

theorem retry_after_embed_failure_skips_qdrant_witness:
  "\<exists>w1 w2. apply_batch (ref_deps\<lparr>d_embed := (\<lambda>ts. Inl ''down'')\<rparr>) ref_world [ex_doc ''a'' 1 OpUpsert]
       = (Some (ApplyEmbed ''down''), w1) \<and>
     apply_batch ref_deps w1 [ex_doc ''a'' 1 OpUpsert] = (None, w2) \<and>
     w_os w2 = sequential Map.empty [ex_doc ''a'' 1 OpUpsert] \<and> w_qd w2 = Map.empty"
proof -
  let ?x = "ref_deps\<lparr>d_embed := (\<lambda>ts. Inl ''down'')\<rparr>"
  have ok: "deps_ok ?x (\<lambda>m. m) (\<lambda>m. m)" using deps_ok_ref by (simp add: deps_ok_def)
  obtain w1 where w1: "apply_batch ?x ref_world [ex_doc ''a'' 1 OpUpsert] = (Some (ApplyEmbed ''down''), w1)"
    by (simp add: apply_defs ref_defs op_tier_defs map_filter_simps)
  obtain w2 where w2: "apply_batch ref_deps w1 [ex_doc ''a'' 1 OpUpsert] = (None, w2)"
    using apply_batch_succeeds [OF deps_ok_ref responsive_ref] by blast
  have "guard_sound (w_guard ref_world) (w_os ref_world)"
    by (simp add: ref_world_def guard_sound_new)
  from retry_after_embed_failure_skips_qdrant [OF ok deps_ok_ref this w1 w2] w1 w2 show ?thesis
    by (simp add: ref_world_def)
qed

end
