(* ===== verification/Mlclient.thy ===== *)
theory Mlclient
  imports Json
begin

text \<open>
  Package \<open>internal/mlclient\<close> (\<open>mlclient.go\<close>, \<open>tei.go\<close>): the ML interface and its two
  implementations, the Python service and Text-Embeddings-Inference. The HTTP round trip
  is an argument.
\<close>

datatype ml = Python string | TEI string string

text \<open>\<open>FromEnv\<close> with \<open>New\<close> and \<open>NewTEI\<close>.\<close>

definition FromEnv :: "(string \<Rightarrow> string) \<Rightarrow> string \<Rightarrow> ml" where
  "FromEnv getenv pythonBase =
     (if getenv ''TEI_EMBED_URL'' \<noteq> [] then TEI (getenv ''TEI_EMBED_URL'') (getenv ''TEI_RERANK_URL'')
      else Python pythonBase)"

text \<open>A GET (no body) or a POST of a JSON body.\<close>

record http_request =
  hq_URL :: string
  hq_Body :: "json option"

type_synonym http_api = "http_request \<Rightarrow> http_reply"

datatype ml_error = MlHttp http_error | RerankNotConfigured

subsection \<open>Requests\<close>

text \<open>\<open>Client.post\<close>: any status but 200 is an error.\<close>

definition ml_post :: "http_api \<Rightarrow> string \<Rightarrow> json \<Rightarrow> 'a decoder \<Rightarrow> 'a \<Rightarrow> ml_error + 'a" where
  "ml_post api url body dec zero =
     (case api \<lparr>hq_URL = url, hq_Body = Some body\<rparr> of
        TransportError e \<Rightarrow> Inl (MlHttp (HttpTransport e))
      | Reply status reply \<Rightarrow>
          (if status \<noteq> 200 then Inl (MlHttp (HttpStatus status))
           else (case Unmarshal dec zero reply of
                   Inl e \<Rightarrow> Inl (MlHttp (HttpDecode e)) | Inr x \<Rightarrow> Inr x)))"

text \<open>\<open>TEI.post\<close>, the same for the other backend.\<close>

definition TEIPost :: "http_api \<Rightarrow> string \<Rightarrow> json \<Rightarrow> 'a decoder \<Rightarrow> 'a \<Rightarrow> ml_error + 'a" where
  "TEIPost api url body dec out =
     (case api \<lparr>hq_URL = url, hq_Body = Some body\<rparr> of
        TransportError e \<Rightarrow> Inl (MlHttp (HttpTransport e))
      | Reply status reply \<Rightarrow>
          (if status \<noteq> 200 then Inl (MlHttp (HttpStatus status))
           else (case Unmarshal dec out reply of
                   Inl e \<Rightarrow> Inl (MlHttp (HttpDecode e)) | Inr x \<Rightarrow> Inr x)))"

text \<open>\<open>Client.Health\<close>: a GET of the health endpoint.\<close>

definition ClientHealth :: "http_api \<Rightarrow> string \<Rightarrow> ml_error option" where
  "ClientHealth api base =
     (case api \<lparr>hq_URL = base @ ''/health'', hq_Body = None\<rparr> of
        TransportError e \<Rightarrow> Some (MlHttp (HttpTransport e))
      | Reply status reply \<Rightarrow> if status \<noteq> 200 then Some (MlHttp (HttpStatus status)) else None)"

definition ping :: "http_api \<Rightarrow> string \<Rightarrow> ml_error option" where
  "ping api base =
     (case api \<lparr>hq_URL = base @ ''/health'', hq_Body = None\<rparr> of
        TransportError e \<Rightarrow> Some (MlHttp (HttpTransport e))
      | Reply status reply \<Rightarrow> if status \<noteq> 200 then Some (MlHttp (HttpStatus status)) else None)"

subsection \<open>The Python service\<close>

record embedResp =
  er_Vectors :: "real list list"
  er_ModelVersion :: string
  er_Dim :: int

definition dec_vectors :: "real list list decoder" where
  "dec_vectors = dec_slice [] (dec_slice 0 dec_float)"

definition dec_embedResp :: "embedResp decoder" where
  "dec_embedResp = dec_struct (\<lambda>k j x.
     if k = ''vectors'' then into dec_vectors (er_Vectors x) (\<lambda>v. x\<lparr>er_Vectors := v\<rparr>) j
     else if k = ''model_version'' then into dec_string (er_ModelVersion x) (\<lambda>v. x\<lparr>er_ModelVersion := v\<rparr>) j
     else if k = ''dim'' then into dec_int64 (er_Dim x) (\<lambda>v. x\<lparr>er_Dim := v\<rparr>) j
     else Inr x)"

definition ClientEmbed :: "http_api \<Rightarrow> string \<Rightarrow> string list \<Rightarrow> ml_error + real list list \<times> string" where
  "ClientEmbed api base texts =
     (case ml_post api (base @ ''/embed'') (JObj [(''texts'', JArr (map JStr texts))]) dec_embedResp
        \<lparr>er_Vectors = [], er_ModelVersion = [], er_Dim = 0\<rparr> of
        Inl e \<Rightarrow> Inl e
      | Inr out \<Rightarrow> Inr (er_Vectors out, er_ModelVersion out))"

record rerankResp =
  rr_Scores :: "real list"
  rr_Order :: "int list"
  rr_ModelVersion :: string

definition dec_rerankResp :: "rerankResp decoder" where
  "dec_rerankResp = dec_struct (\<lambda>k j x.
     if k = ''scores'' then into (dec_slice 0 dec_float) (rr_Scores x) (\<lambda>v. x\<lparr>rr_Scores := v\<rparr>) j
     else if k = ''order'' then into (dec_slice 0 dec_int64) (rr_Order x) (\<lambda>v. x\<lparr>rr_Order := v\<rparr>) j
     else if k = ''model_version'' then into dec_string (rr_ModelVersion x) (\<lambda>v. x\<lparr>rr_ModelVersion := v\<rparr>) j
     else Inr x)"

definition ClientRerank ::
  "http_api \<Rightarrow> string \<Rightarrow> string \<Rightarrow> string list \<Rightarrow> ml_error + real list \<times> int list" where
  "ClientRerank api base query docs =
     (case ml_post api (base @ ''/rerank'')
        (JObj [(''query'', JStr query), (''docs'', JArr (map JStr docs))]) dec_rerankResp
        \<lparr>rr_Scores = [], rr_Order = [], rr_ModelVersion = []\<rparr> of
        Inl e \<Rightarrow> Inl e
      | Inr out \<Rightarrow> Inr (rr_Scores out, rr_Order out))"

subsection \<open>Text-Embeddings-Inference\<close>

definition TEIHealth :: "http_api \<Rightarrow> string \<Rightarrow> string \<Rightarrow> ml_error option" where
  "TEIHealth api embedURL rerankURL =
     (case ping api embedURL of
        Some e \<Rightarrow> Some e
      | None \<Rightarrow> if rerankURL \<noteq> [] then ping api rerankURL else None)"

definition TEIEmbed :: "http_api \<Rightarrow> string \<Rightarrow> string list \<Rightarrow> ml_error + real list list \<times> string" where
  "TEIEmbed api embedURL texts =
     (case TEIPost api (embedURL @ ''/embed'')
        (JObj [(''inputs'', JArr (map JStr texts)), (''normalize'', JBool True), (''truncate'', JBool True)])
        dec_vectors [] of
        Inl e \<Rightarrow> Inl e
      | Inr vectors \<Rightarrow> Inr (vectors, ''tei''))"

text \<open>An element of the rerank reply: index and score.\<close>

definition dec_ranked :: "(int \<times> real) decoder" where
  "dec_ranked = dec_struct (\<lambda>k j x.
     if k = ''index'' then into dec_int64 (fst x) (\<lambda>v. (v, snd x)) j
     else if k = ''score'' then into dec_float (snd x) (\<lambda>v. (fst x, v)) j
     else Inr x)"

definition ranked_less :: "int \<times> real \<Rightarrow> int \<times> real \<Rightarrow> bool" where
  "ranked_less a b \<longleftrightarrow> snd a > snd b"

text \<open>The loop over the sorted results: \<open>scores\<close> and \<open>order\<close>.\<close>

fun map_ranked :: "(int \<times> real) list \<Rightarrow> real list \<Rightarrow> int list \<Rightarrow> real list \<times> int list" where
  "map_ranked [] scores order = (scores, order)"
| "map_ranked ((i, s) # rs) scores order =
     (if 0 \<le> i \<and> i < int (length scores) then map_ranked rs (scores[nat i := s]) (order @ [i])
      else map_ranked rs scores order)"

definition rank_docs :: "(int \<times> real) list \<Rightarrow> nat \<Rightarrow> real list \<times> int list" where
  "rank_docs res n = map_ranked (SliceStable ranked_less res) (replicate n 0) []"

definition TEIRerank ::
  "http_api \<Rightarrow> string \<Rightarrow> string \<Rightarrow> string list \<Rightarrow> ml_error + real list \<times> int list" where
  "TEIRerank api rerankURL query docs =
     (if rerankURL = [] then Inl RerankNotConfigured
      else (case TEIPost api (rerankURL @ ''/rerank'')
              (JObj [(''query'', JStr query), (''texts'', JArr (map JStr docs)), (''raw_scores'', JBool False)])
              (dec_slice (0, 0) dec_ranked) [] of
              Inl e \<Rightarrow> Inl e
            | Inr res \<Rightarrow> Inr (rank_docs res (length docs))))"

subsection \<open>The interface\<close>

definition Embed :: "http_api \<Rightarrow> ml \<Rightarrow> string list \<Rightarrow> ml_error + real list list \<times> string" where
  "Embed api m texts =
     (case m of Python base \<Rightarrow> ClientEmbed api base texts | TEI e r \<Rightarrow> TEIEmbed api e texts)"

definition Rerank :: "http_api \<Rightarrow> ml \<Rightarrow> string \<Rightarrow> string list \<Rightarrow> ml_error + real list \<times> int list" where
  "Rerank api m query docs =
     (case m of Python base \<Rightarrow> ClientRerank api base query docs | TEI e r \<Rightarrow> TEIRerank api r query docs)"

definition MlHealth :: "http_api \<Rightarrow> ml \<Rightarrow> ml_error option" where
  "MlHealth api m =
     (case m of Python base \<Rightarrow> ClientHealth api base | TEI e r \<Rightarrow> TEIHealth api e r)"

subsection \<open>Lemmas\<close>

interpretation ranked_order: strict_weak_order ranked_less
  by unfold_locales (auto simp: ranked_less_def)

lemma map_ranked_length: "length (fst (map_ranked rs scores order)) = length scores"
  by (induction rs scores order rule: map_ranked.induct) auto

lemma map_ranked_order:
  "snd (map_ranked rs scores order) =
     order @ filter (\<lambda>i. 0 \<le> i \<and> i < int (length scores)) (map fst rs)"
  by (induction rs scores order rule: map_ranked.induct) auto

lemma map_ranked_other:
  "i \<notin> fst ` set rs \<Longrightarrow> 0 \<le> i \<Longrightarrow> fst (map_ranked rs scores order) ! nat i = scores ! nat i"
  by (induction rs scores order rule: map_ranked.induct) (auto simp: nth_list_update)

lemma map_ranked_score:
  assumes "distinct (map fst rs)" "(i, s) \<in> set rs" "0 \<le> i" "i < int (length scores)"
  shows "fst (map_ranked rs scores order) ! nat i = s"
  using assms
proof (induction rs scores order rule: map_ranked.induct)
  case (2 j t rs scores order)
  show ?case
  proof (cases "(i, s) = (j, t)")
    case True
    with "2.prems" have "i \<notin> fst ` set rs" by auto
    then show ?thesis
      using True "2.prems" map_ranked_other [of i rs "scores[nat i := s]" "order @ [i]"] by simp
  next
    case False
    then show ?thesis using 2 by auto
  qed
qed simp

lemma rank_docs_order:
  "snd (rank_docs res n) = filter (\<lambda>i. 0 \<le> i \<and> i < int n) (map fst (SliceStable ranked_less res))"
  by (simp add: rank_docs_def map_ranked_order)

lemma rank_docs_range: "i \<in> set (snd (rank_docs res n)) \<Longrightarrow> 0 \<le> i \<and> i < int n"
  by (simp add: rank_docs_order)

lemma Rerank_TEI_range:
  assumes "Rerank api (TEI e r) q docs = Inr (scores, order)" "i \<in> set order"
  shows "0 \<le> i \<and> i < int (length docs)"
proof -
  obtain res where "rank_docs res (length docs) = (scores, order)"
    using assms(1) by (auto simp: Rerank_def TEIRerank_def split: if_splits sum.splits)
  then show ?thesis using rank_docs_range [of i res "length docs"] assms(2) by simp
qed

subsection \<open>Properties\<close>

text \<open>The TEI adapter maps the wire format back to the ML interface: if the server ranks
  every document once, in whatever order it lists them, the returned order is a permutation
  of the document indices in descending score and \<open>scores\<close> is aligned with the input.\<close>

theorem rank_docs_correct:
  assumes "mset (map fst res) = mset (map int [0..<n])"
  shows "mset (snd (rank_docs res n)) = mset (map int [0..<n]) \<and>
    length (fst (rank_docs res n)) = n \<and>
    (\<forall>(i, s) \<in> set res. fst (rank_docs res n) ! nat i = s) \<and>
    sorted_wrt (\<lambda>i j. fst (rank_docs res n) ! nat j \<le> fst (rank_docs res n) ! nat i) (snd (rank_docs res n))"
proof -
  let ?rs = "SliceStable ranked_less res"
  have m: "mset (map fst ?rs) = mset (map int [0..<n])" using assms by (simp add: mset_map)
  then have "set (map fst ?rs) = set (map int [0..<n])" by (metis set_mset_mset)
  then have range: "\<And>i s. (i, s) \<in> set ?rs \<Longrightarrow> 0 \<le> i \<and> i < int n" by force
  have "distinct (map int [0..<n])" by (simp add: distinct_map)
  with m have d: "distinct (map fst ?rs)" by (metis mset_eq_imp_distinct_iff)
  have ord: "snd (rank_docs res n) = map fst ?rs"
    using range by (auto simp: rank_docs_order filter_id_conv)
  have len: "length (fst (rank_docs res n)) = n" by (simp add: rank_docs_def map_ranked_length)
  have score: "fst (rank_docs res n) ! nat i = s" if "(i, s) \<in> set ?rs" for i s
    using map_ranked_score [OF d that, of "replicate n 0" "[]"] range [OF that] by (simp add: rank_docs_def)
  have "sorted_wrt (\<lambda>a b. snd b \<le> snd a) ?rs"
    using ranked_order.sorted_SliceStable [of res] by (simp add: ranked_less_def not_less)
  then have "sorted_wrt (\<lambda>a b. fst (rank_docs res n) ! nat (fst b) \<le> fst (rank_docs res n) ! nat (fst a)) ?rs"
    by (rule sorted_wrt_mono_rel [rotated]) (metis score prod.collapse)
  then show ?thesis using m ord len score by (auto simp: sorted_wrt_map)
qed

theorem rank_docs_correct_witness:
  "rank_docs [(2, 0.9), (1, 0.1), (0, 0.5)] 3 = ([0.5, 0.1, 0.9], [2, 0, 1]) \<and>
   length (fst (rank_docs [(2, 0.9), (1, 0.1), (0, 0.5)] 3)) = 3"
proof
  show "rank_docs [(2, 0.9), (1, 0.1), (0, 0.5)] 3 = ([0.5, 0.1, 0.9], [2, 0, 1])"
    by (simp add: rank_docs_def ranked_less_def numeral_3_eq_3)
  show "length (fst (rank_docs [(2, 0.9), (1, 0.1), (0, 0.5)] 3)) = 3"
    using rank_docs_correct [of "[(2, 0.9), (1, 0.1), (0, 0.5)]" 3]
    by (simp add: upt_rec numeral_3_eq_3 add_mset_commute)
qed

end
