(* ===== verification/Lane.thy ===== *)
theory Lane
  imports Wire Indexer Mlclient
begin

text \<open>
  Command \<open>indexer\<close> (\<open>cmd/indexer/main.go\<close>), second part: \<open>runLane\<close>, the loop that consumes
  one lane, buffers valid documents, flushes them through \<open>apply\<close> and commits offsets, with
  \<open>toDLQ\<close>; and the startup checks \<open>mustReady\<close> and \<open>probeDim\<close>. The state follows one partition of
  the lane's topic, whose records are the list \<open>topic\<close>. What the brokers and the clock do
  during an iteration are arguments of \<open>poll_lane\<close>. \<open>lane_step\<close> collects everything that can
  happen to a lane, an \<open>apply\<close> of the other lane (the two share the stores and the guard)
  and a crash included; it treats a call of \<open>apply\<close> as one step,
  which theory \<open>Interleave\<close> refines.
\<close>

subsection \<open>State and operations\<close>

record ('os, 'qd, 'r) lane =
  ln_pos :: nat
  ln_committed :: nat
  ln_batch :: "canonical_doc list"
  ln_raws :: "message list"
  ln_batchStart :: time
  ln_world :: "('os, 'qd, 'r) world"
  ln_dlq :: "out_record list"
  ln_dlqEvents :: "metric list"

text \<open>\<open>toDLQ\<close>; a failed produce is logged and otherwise ignored.\<close>

definition toDLQ ::
  "string \<Rightarrow> bool \<Rightarrow> message \<Rightarrow> string \<Rightarrow> ('os, 'qd, 'r) lane \<Rightarrow> ('os, 'qd, 'r) lane" where
  "toDLQ dlqTopic produce_ok original reason s =
     s\<lparr>ln_dlqEvents := ln_dlqEvents s @ [DLQEvents ''postgres'' reason],
       ln_dlq := ln_dlq s @ (if produce_ok then
         [\<lparr>or_Topic = dlqTopic, or_Key = None, or_Value = dlq_value ''indexer'' reason original\<rparr>] else [])\<rparr>"

text \<open>The callback of \<open>EachRecord\<close>.\<close>

definition lane_record ::
  "string \<Rightarrow> (message \<Rightarrow> bool) \<Rightarrow> time \<Rightarrow> ('os, 'qd, 'r) lane \<Rightarrow> message \<Rightarrow> ('os, 'qd, 'r) lane" where
  "lane_record dlqTopic produce_ok now s v =
     (case read_doc v of
        Inl e \<Rightarrow> toDLQ dlqTopic (produce_ok v) v ''decode_error'' s
      | Inr d \<Rightarrow>
          (if Validate d \<noteq> None then toDLQ dlqTopic (produce_ok v) v ''invalid_doc'' s
           else s\<lparr>ln_batchStart := (if ln_batch s = [] then now else ln_batchStart s),
                  ln_batch := ln_batch s @ [d], ln_raws := ln_raws s @ [v]\<rparr>))"

text \<open>The process dies and is started again: the consumer resumes from the committed offset.\<close>

definition restart_lane :: "('os, 'qd, 'r) lane \<Rightarrow> ('os, 'qd, 'r) lane" where
  "restart_lane s = s\<lparr>ln_pos := ln_committed s, ln_batch := [], ln_raws := [], ln_batchStart := zero_time,
     ln_world := (ln_world s)\<lparr>w_guard := NewGuard\<rparr>\<rparr>"

text \<open>
  \<open>flushBatch\<close>: the commit covers every offset fetched so far. An index panic in \<open>apply\<close> ends
  the process.
\<close>

definition flushBatch ::
  "('os, 'qd, 'r) deps \<Rightarrow> bool \<Rightarrow> ('os, 'qd, 'r) lane \<Rightarrow> ('os, 'qd, 'r) lane" where
  "flushBatch x commit_ok s =
     (if ln_batch s = [] then s
      else (case apply_batch x (ln_world s) (ln_batch s) of
              (Some e, w) \<Rightarrow>
                if e = ApplyIndexPanic then restart_lane (s\<lparr>ln_world := w\<rparr>) else s\<lparr>ln_world := w\<rparr>
            | (None, w) \<Rightarrow>
                s\<lparr>ln_world := w, ln_committed := (if commit_ok then ln_pos s else ln_committed s),
                  ln_batch := [], ln_raws := [], ln_batchStart := zero_time\<rparr>))"

text \<open>What the outside does during one iteration.\<close>

record poll =
  po_fetched :: nat
  po_produce_ok :: "message \<Rightarrow> bool"
  po_buffered :: time
  po_checked :: time
  po_commit_ok :: bool

definition fetch_lane ::
  "string \<Rightarrow> message list \<Rightarrow> poll \<Rightarrow> ('os, 'qd, 'r) lane \<Rightarrow> ('os, 'qd, 'r) lane" where
  "fetch_lane dlqTopic topic p s =
     (let rs = take (po_fetched p) (drop (ln_pos s) topic)
      in foldl (lane_record dlqTopic (po_produce_ok p) (po_buffered p))
           (s\<lparr>ln_pos := ln_pos s + length rs\<rparr>) rs)"

text \<open>One iteration of the loop; fetch errors are logged, and the records are processed.\<close>

definition poll_lane ::
  "('os, 'qd, 'r) deps \<Rightarrow> string \<Rightarrow> int \<Rightarrow> message list \<Rightarrow> poll \<Rightarrow> ('os, 'qd, 'r) lane \<Rightarrow> ('os, 'qd, 'r) lane" where
  "poll_lane x dlqTopic flush topic p s =
     (let s1 = fetch_lane dlqTopic topic p s
      in if 256 \<le> length (ln_batch s1) \<or> ln_batch s1 \<noteq> [] \<and> po_checked p - ln_batchStart s1 \<ge> flush
         then flushBatch x (po_commit_ok p) s1 else s1)"

text \<open>
  The iteration in which the context is done: what was fetched is dropped, the batch is
  flushed once more. The commit is made with the cancelled context, so it fails.
\<close>

definition stop_lane ::
  "('os, 'qd, 'r) deps \<Rightarrow> message list \<Rightarrow> nat \<Rightarrow> ('os, 'qd, 'r) lane \<Rightarrow> ('os, 'qd, 'r) lane" where
  "stop_lane x topic n s =
     restart_lane (flushBatch x False (s\<lparr>ln_pos := ln_pos s + length (take n (drop (ln_pos s) topic))\<rparr>))"

definition lane_init :: "('os, 'qd, 'r) world \<Rightarrow> ('os, 'qd, 'r) lane" where
  "lane_init w = \<lparr>ln_pos = 0, ln_committed = 0, ln_batch = [], ln_raws = [], ln_batchStart = zero_time,
     ln_world = w, ln_dlq = [], ln_dlqEvents = []\<rparr>"

subsection \<open>Startup\<close>

definition indexer_probeDim :: "http_api \<Rightarrow> ml \<Rightarrow> int" where
  "indexer_probeDim api m =
     (case Embed api m [''probe''] of
        Inl e \<Rightarrow> 768
      | Inr (vecs, ver) \<Rightarrow> (case vecs of [] \<Rightarrow> 768 | v # vs \<Rightarrow> int (length v)))"

text \<open>
  \<open>mustReady\<close>: one element per attempt, with the result of the check, the clock after it, and
  whether the context was done before the next attempt. \<open>log.Fatalf\<close> ends the process.
\<close>

datatype readiness = Ready | NotReady | Canceled | Waiting

fun mustReady :: "time \<Rightarrow> (bool \<times> time \<times> bool) list \<Rightarrow> readiness" where
  "mustReady deadline [] = Waiting"
| "mustReady deadline ((ok, now, done) # attempts) =
     (if ok then Ready
      else if now > deadline then NotReady
      else if done then Canceled
      else mustReady deadline attempts)"

definition ready_deadline :: "time \<Rightarrow> time" where
  "ready_deadline start = start + 3 * 60 * 10 ^ 9"

subsection \<open>Specification\<close>

text \<open>The versions a store holds never go back.\<close>

definition store_grows :: "vstore \<Rightarrow> vstore \<Rightarrow> bool" where
  "store_grows m m' \<longleftrightarrow> (\<forall>i v. newer m' i v \<longrightarrow> newer m i v)"

text \<open>
  The documented behaviour of the services, a failed \<open>_bulk\<close> call included: it may have
  applied some of its items, and still no version goes back.
\<close>

definition services_ok ::
  "('os \<Rightarrow> vstore) \<Rightarrow> ('qd \<Rightarrow> string \<rightharpoonup> point) \<Rightarrow> ('os, 'qd, 'r) deps \<Rightarrow> bool" where
  "services_ok vos vqd x \<longleftrightarrow>
     deps_ok x vos vqd \<and> (\<forall>s ops r s'. d_bulk x s ops = (r, s') \<longrightarrow> store_grows (vos s) (vos s'))"

text \<open>A record that is no valid document; those of a poll whose dead-letter produce failed.\<close>

definition poison :: "message \<Rightarrow> bool" where
  "poison v \<longleftrightarrow> (case read_doc v of Inl e \<Rightarrow> True | Inr d \<Rightarrow> Validate d \<noteq> None)"

definition dlq_failures :: "message list \<Rightarrow> poll \<Rightarrow> ('os, 'qd, 'r) lane \<Rightarrow> message set" where
  "dlq_failures topic p s =
     {v \<in> set (take (po_fetched p) (drop (ln_pos s) topic)). poison v \<and> \<not> po_produce_ok p v}"

text \<open>
  Everything that can happen to a lane; a step carries the records whose dead-letter produce
  failed in it, and a run collects them.
\<close>

inductive lane_step ::
  "(('os, 'qd, 'r) deps \<Rightarrow> bool) \<Rightarrow> string \<Rightarrow> int \<Rightarrow> message list \<Rightarrow>
   ('os, 'qd, 'r) lane \<Rightarrow> message set \<Rightarrow> ('os, 'qd, 'r) lane \<Rightarrow> bool"
  for ok dlqTopic flush topic where
  Polled: "ok x \<Longrightarrow>
     lane_step ok dlqTopic flush topic s (dlq_failures topic p s) (poll_lane x dlqTopic flush topic p s)"
| Stopped: "ok x \<Longrightarrow> lane_step ok dlqTopic flush topic s {} (stop_lane x topic n s)"
| Crashed: "lane_step ok dlqTopic flush topic s {} (restart_lane s)"
| OtherLane: "ok x \<Longrightarrow> apply_batch x (ln_world s) docs = (e, w) \<Longrightarrow>
     lane_step ok dlqTopic flush topic s {} (s\<lparr>ln_world := w\<rparr>)"

inductive lane_run ::
  "(('os, 'qd, 'r) deps \<Rightarrow> bool) \<Rightarrow> string \<Rightarrow> int \<Rightarrow> message list \<Rightarrow>
   ('os, 'qd, 'r) lane \<Rightarrow> message set \<Rightarrow> ('os, 'qd, 'r) lane \<Rightarrow> bool"
  for ok dlqTopic flush topic s0 where
  Started: "lane_run ok dlqTopic flush topic s0 {} s0"
| Went: "lane_run ok dlqTopic flush topic s0 F s \<Longrightarrow> lane_step ok dlqTopic flush topic s E s' \<Longrightarrow>
     lane_run ok dlqTopic flush topic s0 (F \<union> E) s'"

text \<open>A record is settled: dead-lettered if it is no valid document, else in OpenSearch or superseded.\<close>

definition settled :: "('os \<Rightarrow> vstore) \<Rightarrow> string \<Rightarrow> ('os, 'qd, 'r) lane \<Rightarrow> message \<Rightarrow> bool" where
  "settled vos dlqTopic s v \<longleftrightarrow>
     (case read_doc v of
        Inl e \<Rightarrow> \<lparr>or_Topic = dlqTopic, or_Key = None, or_Value = dlq_value ''indexer'' ''decode_error'' v\<rparr> \<in> set (ln_dlq s)
      | Inr d \<Rightarrow>
          if Validate d \<noteq> None then
            \<lparr>or_Topic = dlqTopic, or_Key = None, or_Value = dlq_value ''indexer'' ''invalid_doc'' v\<rparr> \<in> set (ln_dlq s)
          else \<not> newer (vos (w_os (ln_world s))) (DocID d) (Version d))"

definition buffered :: "('os, 'qd, 'r) lane \<Rightarrow> message \<Rightarrow> bool" where
  "buffered s v \<longleftrightarrow> (\<exists>d \<in> set (ln_batch s). read_doc v = Inr d \<and> Validate d = None)"

text \<open>
  The invariant, for the set \<open>F\<close> of records whose dead-letter produce failed: the other
  fetched records are settled or buffered, the other committed ones are settled, and the
  guard never runs ahead of the store.
\<close>

definition lane_inv ::
  "('os \<Rightarrow> vstore) \<Rightarrow> string \<Rightarrow> message list \<Rightarrow> message set \<Rightarrow> ('os, 'qd, 'r) lane \<Rightarrow> bool" where
  "lane_inv vos dlqTopic topic F s \<longleftrightarrow>
     ln_committed s \<le> ln_pos s \<and> ln_pos s \<le> length topic \<and>
     (\<forall>i < ln_committed s. topic ! i \<in> F \<or> settled vos dlqTopic s (topic ! i)) \<and>
     (\<forall>i < ln_pos s. topic ! i \<in> F \<or> settled vos dlqTopic s (topic ! i) \<or> buffered s (topic ! i)) \<and>
     guard_sound (w_guard (ln_world s)) (vos (w_os (ln_world s)))"

subsection \<open>Lemmas: stores\<close>

lemma store_grows_refl [simp]: "store_grows m m"
  by (simp add: store_grows_def)

lemma store_grows_trans [trans]: "store_grows a b \<Longrightarrow> store_grows b c \<Longrightarrow> store_grows a c"
  by (simp add: store_grows_def)

lemma guard_sound_newer: "guard_sound g m \<longleftrightarrow> (\<forall>i w. seen g i = Some w \<longrightarrow> \<not> newer m i w)"
  unfolding guard_sound_def newer_def by (force split: option.splits)

lemma guard_sound_grows: "guard_sound g m \<Longrightarrow> store_grows m m' \<Longrightarrow> guard_sound g m'"
  unfolding guard_sound_newer store_grows_def by blast

declare guard_sound_new [simp]

lemma apply_batch_os:
  assumes "apply_batch x w docs = (e, w')"
  shows "w_os w' = w_os w \<or> (\<exists>ops r. d_bulk x (w_os w) ops = (r, w_os w'))"
  using assms
  by (auto simp: apply_batch_def Let_def Bulk_def finish_def
      split: if_splits prod.splits sum.splits option.splits)

lemma apply_batch_grows:
  "services_ok vos vqd x \<Longrightarrow> apply_batch x w docs = (e, w') \<Longrightarrow> store_grows (vos (w_os w)) (vos (w_os w'))"
  using apply_batch_os [of x w docs e w'] unfolding services_ok_def by (metis store_grows_refl)

lemma apply_batch_failed_guard: "apply_batch x w docs = (Some e, w') \<Longrightarrow> w_guard w' = w_guard w"
  by (auto simp: apply_batch_def Let_def split: if_splits prod.splits sum.splits option.splits)

lemma apply_any_guard_sound:
  assumes "services_ok vos vqd x" "guard_sound (w_guard w) (vos (w_os w))" "apply_batch x w docs = (e, w')"
  shows "guard_sound (w_guard w') (vos (w_os w'))"
proof (cases e)
  case None
  then show ?thesis using assms apply_batch_guard_sound [of x vos vqd w docs w'] by (simp add: services_ok_def)
next
  case (Some err)
  then show ?thesis
    using assms apply_batch_failed_guard guard_sound_grows apply_batch_grows by metis
qed

lemma apply_batch_settles:
  assumes "services_ok vos vqd x" "guard_sound (w_guard w) (vos (w_os w))" "apply_batch x w docs = (None, w')"
    and "d \<in> set docs"
  shows "\<not> newer (vos (w_os w')) (DocID d) (Version d)"
  using apply_batch_sequential [of x vos vqd w docs w'] sequential_not_newer [OF assms(4)] assms(1-3)
  by (simp add: services_ok_def)

subsection \<open>Lemmas: the loop\<close>

lemma settled_mono:
  assumes "settled vos dlqTopic s v" "set (ln_dlq s) \<subseteq> set (ln_dlq s')"
    and "store_grows (vos (w_os (ln_world s))) (vos (w_os (ln_world s')))"
  shows "settled vos dlqTopic s' v"
  using assms unfolding settled_def store_grows_def by (auto split: sum.splits if_splits)

lemma lane_record_frame [simp]:
  "ln_pos (lane_record t ok now s v) = ln_pos s" "ln_committed (lane_record t ok now s v) = ln_committed s"
  "ln_world (lane_record t ok now s v) = ln_world s"
  by (simp_all add: lane_record_def toDLQ_def split: sum.splits)

lemma lane_record_mono:
  "set (ln_dlq s) \<subseteq> set (ln_dlq (lane_record t ok now s v))"
  "set (ln_batch s) \<subseteq> set (ln_batch (lane_record t ok now s v))"
  by (auto simp: lane_record_def toDLQ_def split: sum.splits)

lemma lane_record_taken:
  "poison v \<longrightarrow> ok v \<Longrightarrow> settled vos t (lane_record t ok now s v) v \<or> buffered (lane_record t ok now s v) v"
  by (auto simp: lane_record_def toDLQ_def settled_def buffered_def poison_def split: sum.splits)

lemma fold_records_frame [simp]:
  "ln_pos (foldl (lane_record t ok now) s rs) = ln_pos s"
  "ln_committed (foldl (lane_record t ok now) s rs) = ln_committed s"
  "ln_world (foldl (lane_record t ok now) s rs) = ln_world s"
  by (induction rs arbitrary: s) simp_all

lemma fold_records_mono:
  "set (ln_dlq s) \<subseteq> set (ln_dlq (foldl (lane_record t ok now) s rs)) \<and>
   set (ln_batch s) \<subseteq> set (ln_batch (foldl (lane_record t ok now) s rs))"
proof (induction rs arbitrary: s)
  case (Cons r rs)
  show ?case using Cons [of "lane_record t ok now s r"] lane_record_mono [where s = s and v = r] by fastforce
qed simp

lemma taken_mono:
  assumes "settled vos t s v \<or> buffered s v" "set (ln_dlq s) \<subseteq> set (ln_dlq s')"
    and "set (ln_batch s) \<subseteq> set (ln_batch s')" "ln_world s' = ln_world s"
  shows "settled vos t s' v \<or> buffered s' v"
  using assms settled_mono [of vos t s v s'] unfolding buffered_def by auto

lemma fold_records_taken:
  assumes "poison r \<longrightarrow> ok r" "r \<in> set rs"
  shows "settled vos t (foldl (lane_record t ok now) s rs) r \<or> buffered (foldl (lane_record t ok now) s rs) r"
  using assms(2)
proof (induction rs arbitrary: s)
  case (Cons a rs)
  show ?case
  proof (cases "r \<in> set rs")
    case True
    then show ?thesis using Cons by simp
  next
    case False
    then have "a = r" using Cons.prems by simp
    have "settled vos t (lane_record t ok now s r) r \<or> buffered (lane_record t ok now s r) r"
      using lane_record_taken assms(1) by blast
    then show ?thesis
      using taken_mono [of vos t "lane_record t ok now s r" r "foldl (lane_record t ok now) (lane_record t ok now s r) rs"]
        fold_records_mono [of "lane_record t ok now s r" t ok now rs] \<open>a = r\<close> by simp
  qed
qed simp

lemma fetch_lane_inv:
  assumes "lane_inv vos t topic F s"
  shows "lane_inv vos t topic (F \<union> dlq_failures topic p s) (fetch_lane t topic p s)"
proof -
  define rs where "rs = take (po_fetched p) (drop (ln_pos s) topic)"
  define s' where "s' = fetch_lane t topic p s"
  have s': "s' = foldl (lane_record t (po_produce_ok p) (po_buffered p)) (s\<lparr>ln_pos := ln_pos s + length rs\<rparr>) rs"
    by (simp add: s'_def fetch_lane_def rs_def Let_def)
  note inv = assms [unfolded lane_inv_def]
  have fr: "ln_pos s' = ln_pos s + length rs" "ln_committed s' = ln_committed s" "ln_world s' = ln_world s"
    by (simp_all add: s')
  have mono: "set (ln_dlq s) \<subseteq> set (ln_dlq s')" "set (ln_batch s) \<subseteq> set (ln_batch s')"
    using fold_records_mono [of "s\<lparr>ln_pos := ln_pos s + length rs\<rparr>" t "po_produce_ok p" "po_buffered p" rs]
    by (simp_all add: s')
  have "topic ! i \<in> F \<or> settled vos t s' (topic ! i)" if "i < ln_committed s" for i
    using inv that settled_mono [OF _ mono(1)] fr(3) by (metis store_grows_refl)
  moreover have "topic ! i \<in> F \<union> dlq_failures topic p s \<or> settled vos t s' (topic ! i) \<or> buffered s' (topic ! i)"
    if i: "i < ln_pos s + length rs" for i
  proof (cases "i < ln_pos s")
    case True
    then show ?thesis using inv taken_mono [OF _ mono fr(3)] by blast
  next
    case False
    then have "rs ! (i - ln_pos s) = topic ! i" "i - ln_pos s < length rs"
      using i by (auto simp: rs_def)
    then have r: "topic ! i \<in> set rs" by (metis nth_mem)
    show ?thesis
    proof (cases "topic ! i \<in> dlq_failures topic p s")
      case False
      then have "poison (topic ! i) \<longrightarrow> po_produce_ok p (topic ! i)"
        using r by (simp add: dlq_failures_def rs_def)
      then show ?thesis unfolding s' using fold_records_taken [OF _ r] by blast
    qed simp
  qed
  moreover have "ln_pos s + length rs \<le> length topic" using inv unfolding rs_def by auto
  ultimately show ?thesis using inv fr by (auto simp: lane_inv_def s'_def [symmetric])
qed

text \<open>A restart needs only that the committed records are settled.\<close>

lemma restart_lane_committed:
  assumes "\<And>i. i < ln_committed s \<Longrightarrow> topic ! i \<in> F \<or> settled vos t s (topic ! i)" "ln_committed s \<le> length topic"
  shows "lane_inv vos t topic F (restart_lane s)"
proof -
  have "settled vos t (restart_lane s) v" if "settled vos t s v" for v
    by (rule settled_mono [OF that]) (simp_all add: restart_lane_def)
  moreover have "ln_committed (restart_lane s) = ln_committed s" "ln_pos (restart_lane s) = ln_committed s"
    "w_guard (ln_world (restart_lane s)) = NewGuard"
    by (simp_all add: restart_lane_def)
  ultimately show ?thesis using assms by (auto simp: lane_inv_def)
qed

lemma restart_lane_inv: "lane_inv vos t topic F s \<Longrightarrow> lane_inv vos t topic F (restart_lane s)"
  by (rule restart_lane_committed) (auto simp: lane_inv_def)

lemma world_inv:
  assumes "lane_inv vos t topic F s" "store_grows (vos (w_os (ln_world s))) (vos (w_os w))"
    and "guard_sound (w_guard w) (vos (w_os w))"
  shows "lane_inv vos t topic F (s\<lparr>ln_world := w\<rparr>)"
proof -
  have "settled vos t (s\<lparr>ln_world := w\<rparr>) v" if "settled vos t s v" for v
    using settled_mono [OF that, of "s\<lparr>ln_world := w\<rparr>"] assms(2) by simp
  then show ?thesis using assms(1,3) unfolding lane_inv_def buffered_def by auto
qed

lemma ln_pos_world: "ln_pos (s\<lparr>ln_world := w\<rparr>) = ln_pos s"
  by simp

lemma flushBatch_inv:
  assumes inv: "lane_inv vos t topic F s" and ok: "services_ok vos vqd x"
  shows "lane_inv vos t topic F (flushBatch x c s)"
proof (cases "ln_batch s = []")
  case True
  then show ?thesis using inv by (simp add: flushBatch_def)
next
  case False
  obtain e w where a: "apply_batch x (ln_world s) (ln_batch s) = (e, w)" by fastforce
  have gs: "guard_sound (w_guard (ln_world s)) (vos (w_os (ln_world s)))" using inv by (simp add: lane_inv_def)
  have w: "lane_inv vos t topic F (s\<lparr>ln_world := w\<rparr>)"
    using world_inv [OF inv apply_batch_grows [OF ok a] apply_any_guard_sound [OF ok gs a]] .
  show ?thesis
  proof (cases e)
    case (Some err)
    then show ?thesis using a False w restart_lane_inv [OF w] by (simp add: flushBatch_def)
  next
    case None
    define s2 where "s2 = s\<lparr>ln_world := w, ln_committed := (if c then ln_pos s else ln_committed s),
      ln_batch := [], ln_raws := [], ln_batchStart := zero_time\<rparr>"
    have f: "ln_pos s2 = ln_pos s" "ln_committed s2 \<le> ln_pos s" "ln_world s2 = w" "ln_dlq s2 = ln_dlq s"
      using inv by (simp_all add: s2_def lane_inv_def)
    have "settled vos t s2 v" if "settled vos t (s\<lparr>ln_world := w\<rparr>) v" for v
      using that by (rule settled_mono) (simp_all add: f)
    moreover have "settled vos t s2 v" if "buffered (s\<lparr>ln_world := w\<rparr>) v" for v
      using that apply_batch_settles [OF ok gs, of "ln_batch s" w] a None f(3) by (auto simp: settled_def buffered_def)
    ultimately have "\<forall>i < ln_pos s2. topic ! i \<in> F \<or> settled vos t s2 (topic ! i)"
      using w f(1) unfolding lane_inv_def by (metis ln_pos_world)
    moreover have "ln_pos s2 \<le> length topic" "guard_sound (w_guard w) (vos (w_os w))"
      using w f(1) by (simp_all add: lane_inv_def)
    ultimately have "lane_inv vos t topic F s2"
      using f unfolding lane_inv_def by auto
    moreover have "flushBatch x c s = s2" using a None False by (simp add: flushBatch_def s2_def)
    ultimately show ?thesis by simp
  qed
qed

lemma flushBatch_uncommitted:
  assumes "services_ok vos vqd x"
  shows "ln_committed (flushBatch x False s) = ln_committed s" "ln_dlq (flushBatch x False s) = ln_dlq s"
    and "store_grows (vos (w_os (ln_world s))) (vos (w_os (ln_world (flushBatch x False s))))"
  using apply_batch_grows [OF assms, of "ln_world s" "ln_batch s"]
  by (auto simp: flushBatch_def restart_lane_def split: prod.splits option.splits)

lemma lane_step_inv:
  assumes "lane_step (services_ok vos vqd) t flush topic s E s'" "lane_inv vos t topic F s"
  shows "lane_inv vos t topic (F \<union> E) s'"
  using assms
proof (cases rule: lane_step.cases)
  case (Polled x p)
  note f = fetch_lane_inv [OF assms(2), of p]
  show ?thesis
    unfolding Polled(1,2) poll_lane_def Let_def using f flushBatch_inv [OF f Polled(3)] by simp
next
  case (Stopped x n)
  let ?s1 = "s\<lparr>ln_pos := ln_pos s + length (take n (drop (ln_pos s) topic))\<rparr>"
  note f = flushBatch_uncommitted [of vos vqd x ?s1]
  have "settled vos t (flushBatch x False ?s1) v" if "settled vos t s v" for v
    using that by (rule settled_mono) (use f Stopped in simp_all)
  then show ?thesis
    unfolding Stopped(1,2) stop_lane_def using f Stopped(3) assms(2)
    by (intro restart_lane_committed) (auto simp: lane_inv_def)
next
  case (OtherLane x docs e w)
  have "guard_sound (w_guard (ln_world s)) (vos (w_os (ln_world s)))" using assms(2) by (simp add: lane_inv_def)
  then show ?thesis
    using world_inv [OF assms(2)] apply_batch_grows [OF OtherLane(3,4)] apply_any_guard_sound [OF OtherLane(3) _ OtherLane(4)]
    unfolding OtherLane(1,2) by simp
next
  case Crashed
  then show ?thesis using assms(2) restart_lane_inv by simp
qed

lemma lane_run_inv:
  assumes "lane_run (services_ok vos vqd) t flush topic s F s'" "lane_inv vos t topic {} s"
  shows "lane_inv vos t topic F s'"
  using assms by (induction rule: lane_run.induct) (auto intro: lane_step_inv)

lemma lane_run_poison:
  assumes "lane_run ok t flush topic s F s'"
  shows "F \<subseteq> {v \<in> set topic. poison v}"
  using assms
proof (induction rule: lane_run.induct)
  case (Went F s E s')
  have "E \<subseteq> {v \<in> set topic. poison v}"
    using Went.hyps(2) by cases (auto simp: dlq_failures_def dest: in_set_takeD in_set_dropD)
  then show ?case using Went.IH by blast
qed simp

lemma lane_init_inv:
  "guard_sound (w_guard w) (vos (w_os w)) \<Longrightarrow> lane_inv vos t topic F (lane_init w)"
  by (simp add: lane_inv_def lane_init_def)

text \<open>With responsive services a flush empties the batch and commits all that was fetched.\<close>

lemma flushBatch_responsive:
  assumes "deps_ok x vos vqd" "responsive x" "ln_batch s \<noteq> []"
  shows "ln_batch (flushBatch x c s) = []" "ln_pos (flushBatch x c s) = ln_pos s"
    "ln_committed (flushBatch x c s) = (if c then ln_pos s else ln_committed s)"
proof -
  obtain w where "apply_batch x (ln_world s) (ln_batch s) = (None, w)"
    using apply_batch_succeeds [OF assms(1,2)] by blast
  with assms(3) show "ln_batch (flushBatch x c s) = []" "ln_pos (flushBatch x c s) = ln_pos s"
    "ln_committed (flushBatch x c s) = (if c then ln_pos s else ln_committed s)"
    by (simp_all add: flushBatch_def)
qed

text \<open>The first buffered record of a batch sets its start.\<close>

lemma fold_records_start:
  "ln_batch s \<noteq> [] \<Longrightarrow> ln_batchStart (foldl (lane_record t ok now) s rs) = ln_batchStart s \<and>
     ln_batch (foldl (lane_record t ok now) s rs) \<noteq> []"
proof (induction rs arbitrary: s)
  case (Cons r rs)
  have "ln_batchStart (lane_record t ok now s r) = ln_batchStart s \<and> ln_batch (lane_record t ok now s r) \<noteq> []"
    using Cons.prems by (auto simp: lane_record_def toDLQ_def split: sum.splits)
  then show ?case using Cons.IH by simp
qed simp

lemma fold_records_start_empty:
  "ln_batch s = [] \<Longrightarrow> ln_batch (foldl (lane_record t ok now) s rs) \<noteq> [] \<Longrightarrow>
     ln_batchStart (foldl (lane_record t ok now) s rs) = now"
proof (induction rs arbitrary: s)
  case (Cons r rs)
  show ?case
  proof (cases "ln_batch (lane_record t ok now s r) = []")
    case True
    then show ?thesis using Cons by simp
  next
    case False
    then have "ln_batchStart (lane_record t ok now s r) = now"
      using Cons.prems(1) by (auto simp: lane_record_def toDLQ_def split: sum.splits)
    then show ?thesis using fold_records_start [OF False] by simp
  qed
qed simp

text \<open>A batch with an id that every bulk request refuses fails and leaves the guard alone.\<close>

lemma apply_batch_refused:
  assumes "\<And>os docs. DocID d \<in> DocID ` set docs \<Longrightarrow> \<exists>e os'. Bulk (d_bulk x) os docs = (Inl e, os')"
    and "range_ok (d_range x)" "seen (w_guard w) (DocID d) = None" "d \<in> set docs"
  shows "\<exists>e w'. apply_batch x w docs = (Some (ApplyBulk e), w') \<and> w_guard w' = w_guard w"
proof -
  let ?ta = "toApply (d_range x) (w_guard w) docs"
  obtain c where c: "map_of (newestByDoc docs) (DocID d) = Some c"
    using assms(4) newestByDoc_None by (metis image_eqI not_None_eq)
  then have "DocID c = DocID d" using newestByDoc_Some by blast
  with c assms(2,3) have "c \<in> set ?ta" by (simp add: toApply_iff ShouldApply_def)
  then have "DocID d \<in> DocID ` set ?ta" using \<open>DocID c = DocID d\<close> by (metis image_eqI)
  then obtain e os' where "Bulk (d_bulk x) (w_os w) ?ta = (Inl e, os')" "?ta \<noteq> []" using assms(1) by fastforce
  then show ?thesis by (simp add: apply_batch_def Let_def)
qed

subsection \<open>Examples\<close>

definition ex_poll :: poll where
  "ex_poll = \<lparr>po_fetched = 2, po_produce_ok = (\<lambda>v. True), po_buffered = 0, po_checked = 1, po_commit_ok = True\<rparr>"

definition ex_message :: message where
  "ex_message = map_option JText (marshal_doc (ex_doc ''a'' 1 OpUpsert))"

definition ex_topic :: "message list" where
  "ex_topic = [Some (NotJSON ''x''), ex_message]"

lemma read_ex_message: "read_doc ex_message = Inr (ex_doc ''a'' 1 OpUpsert)"
proof -
  have "0 \<le> year_of 0 \<and> year_of 0 \<le> 9999"
    by (simp add: year_of_def year_day_def Let_def day_ns_def epoch_day_def)
  then obtain j where j: "marshal_doc (ex_doc ''a'' 1 OpUpsert) = Some j"
    by (simp add: marshal_doc_def marshal_time_def ex_doc_def)
  then show ?thesis
    using read_marshal [OF _ j] by (simp add: ex_message_def int64_fields_def in_int64_def ex_doc_def)
qed

lemma valid_ex_doc: "Validate (ex_doc ''a'' 1 OpUpsert) = None"
  by (simp add: Validate_Some_iff ex_doc_def zero_time_def)

lemma read_poison: "read_doc (Some (NotJSON s)) = Inl JsonSyntax"
  by (simp add: read_doc_def Unmarshal_def)

lemma store_grows_ext_apply: "store_grows m (foldl ext_apply m ops)"
proof (induction ops arbitrary: m)
  case (Cons op ops)
  have "store_grows m (ext_apply m op)"
    by (auto simp: store_grows_def newer_def ext_apply_def split: option.splits if_splits)
  then show ?case using Cons [of "ext_apply m op"] by (auto intro: store_grows_trans)
qed simp

lemma services_ok_ref: "services_ok (\<lambda>m. m) (\<lambda>q. q) ref_deps"
proof -
  have "store_grows s s'" if "ext_api s ops = (r, s')" for s ops r s'
  proof -
    have "s' = foldl ext_apply s ops"
      using that snd_ext_bulk [of s ops] by (auto simp: ext_api_def split: prod.splits)
    then show ?thesis by (simp add: store_grows_ext_apply)
  qed
  then show ?thesis using deps_ok_ref by (simp add: services_ok_def ref_deps_def)
qed

lemma ex_fetch:
  "ln_batch (fetch_lane t ex_topic ex_poll (lane_init w)) = [ex_doc ''a'' 1 OpUpsert]"
  "ln_pos (fetch_lane t ex_topic ex_poll (lane_init w)) = 2"
  "ln_batchStart (fetch_lane t ex_topic ex_poll (lane_init w)) = 0"
  by (simp_all add: fetch_lane_def lane_init_def ex_topic_def ex_poll_def Let_def lane_record_def toDLQ_def
      read_poison read_ex_message valid_ex_doc)

subsection \<open>Properties\<close>

text \<open>C2: No committed record is lost but by a failed dead-letter produce. Whatever sequence of
  polls, flush failures, failed commits, failed dead-letter produces, shutdowns, crashes and
  writes of the other lane a lane goes through: for every record below its committed offset
  that decodes to a valid document, OpenSearch holds the document's version or a newer
  one; every other one was dead-lettered with its reason, or is in \<open>F\<close>, the set of
  undecodable or invalid records whose dead-letter produce failed in this run (\<open>toDLQ\<close> only
  logs that, see \<open>dlq_failure_loses_record\<close>); and every fetched record that is not yet
  settled is in the batch.\<close>

theorem lane_never_loses_records:
  assumes "lane_run (services_ok vos vqd) dlqTopic flush topic (lane_init w) F s"
    and "guard_sound (w_guard w) (vos (w_os w))"
  shows "F \<subseteq> {v \<in> set topic. poison v} \<and>
    (\<forall>i < ln_committed s. topic ! i \<in> F \<or> settled vos dlqTopic s (topic ! i)) \<and>
    (\<forall>i < ln_pos s. topic ! i \<in> F \<or> settled vos dlqTopic s (topic ! i) \<or> buffered s (topic ! i))"
  using lane_run_inv [OF assms(1) lane_init_inv [of w vos, OF assms(2)]] lane_run_poison [OF assms(1)]
  by (simp add: lane_inv_def)

theorem lane_never_loses_records_witness:
  "let s = poll_lane ref_deps ''docs.dlq'' 1 ex_topic ex_poll (lane_init ref_world) in
    ln_committed s = 2 \<and> settled (\<lambda>m. m) ''docs.dlq'' s (Some (NotJSON ''x'')) \<and>
    settled (\<lambda>m. m) ''docs.dlq'' s ex_message"
proof -
  let ?s = "poll_lane ref_deps ''docs.dlq'' 1 ex_topic ex_poll (lane_init ref_world)"
  have ref_guard: "guard_sound (w_guard ref_world) (w_os ref_world)" and ex_poll_ok: "po_produce_ok ex_poll v" for v
    by (simp_all add: ref_world_def ex_poll_def)
  have c: "ln_committed ?s = 2"
    using flushBatch_responsive [OF deps_ok_ref responsive_ref,
        of "fetch_lane ''docs.dlq'' ex_topic ex_poll (lane_init ref_world)" True]
    by (simp add: poll_lane_def Let_def ex_fetch) (simp add: ex_poll_def)
  have "lane_run (services_ok (\<lambda>m. m) (\<lambda>q. q)) ''docs.dlq'' 1 ex_topic (lane_init ref_world)
      ({} \<union> dlq_failures ex_topic ex_poll (lane_init ref_world)) ?s"
    by (rule Went [OF Started Polled]) (rule services_ok_ref)
  from lane_never_loses_records [OF this]
  have "\<forall>i < 2. settled (\<lambda>m. m) ''docs.dlq'' ?s (ex_topic ! i)"
    by (simp add: c dlq_failures_def ref_guard ex_poll_ok)
  then have "settled (\<lambda>m. m) ''docs.dlq'' ?s (ex_topic ! 0)" "settled (\<lambda>m. m) ''docs.dlq'' ?s (ex_topic ! 1)"
    by simp_all
  then show ?thesis using c by (simp add: Let_def ex_topic_def)
qed

text \<open>C25: The flush rule bounds the wait. With responsive services, after every iteration either
  nothing is buffered, and then every fetched record is committed if the iteration had valid documents
  to flush and its commit succeeded (not if it fetched poison records only); or fewer than 256 documents are buffered and less than the
  flush interval has passed since the first of them arrived.\<close>

theorem lane_flush_bounds:
  assumes "deps_ok x vos vqd" "responsive x"
  shows "let s' = poll_lane x dlqTopic flush topic p s in
    ln_batch s' = [] \<and> (ln_batch (fetch_lane dlqTopic topic p s) \<noteq> [] \<and> po_commit_ok p \<longrightarrow> ln_committed s' = ln_pos s') \<or>
    ln_batch s' \<noteq> [] \<and> length (ln_batch s') < 256 \<and> po_checked p - ln_batchStart s' < flush \<and>
    ln_batchStart s' = (if ln_batch s = [] then po_buffered p else ln_batchStart s)"
proof -
  let ?f = "fetch_lane dlqTopic topic p s"
  have start: "ln_batchStart ?f = (if ln_batch s = [] then po_buffered p else ln_batchStart s)" if "ln_batch ?f \<noteq> []"
    using that fold_records_start_empty [of "s\<lparr>ln_pos := n\<rparr>" for n] fold_records_start [of "s\<lparr>ln_pos := n\<rparr>" for n]
    by (simp add: fetch_lane_def Let_def)
  show ?thesis
  proof (cases "256 \<le> length (ln_batch ?f) \<or> ln_batch ?f \<noteq> [] \<and> po_checked p - ln_batchStart ?f \<ge> flush")
    case True
    then have "ln_batch ?f \<noteq> []" by auto
    then have "ln_batch (flushBatch x (po_commit_ok p) ?f) = []"
      "po_commit_ok p \<longrightarrow> ln_committed (flushBatch x (po_commit_ok p) ?f) = ln_pos (flushBatch x (po_commit_ok p) ?f)"
      using flushBatch_responsive [OF assms, of ?f "po_commit_ok p"] by (cases "po_commit_ok p"; simp)+
    then show ?thesis unfolding Let_def poll_lane_def using True by auto
  next
    case False
    then show ?thesis using start by (auto simp: poll_lane_def Let_def)
  qed
qed

theorem lane_flush_bounds_witness:
  "ln_committed (poll_lane ref_deps ''docs.dlq'' 1 ex_topic ex_poll (lane_init ref_world)) = 2 \<or>
   length (ln_batch (poll_lane ref_deps ''docs.dlq'' 1 ex_topic ex_poll (lane_init ref_world))) < 256"
  using lane_flush_bounds [OF deps_ok_ref responsive_ref, of "''docs.dlq''" 1 ex_topic ex_poll "lane_init ref_world"]
  unfolding Let_def by auto

text \<open>A dead-letter record that cannot be produced is lost all the same: the record it stands
  for is committed with the next flush, and nothing of it is stored anywhere.\<close>

theorem dlq_failure_loses_record:
  assumes "read_doc v = Inl e" "read_doc v' = Inr d" "Validate d = None"
    and "deps_ok x vos vqd" "responsive x"
    and "\<not> po_produce_ok p v" "2 \<le> po_fetched p" "po_commit_ok p" "flush \<le> po_checked p - po_buffered p"
  shows "ln_committed (poll_lane x dlqTopic flush [v, v'] p (lane_init w)) = 2 \<and>
    ln_dlq (poll_lane x dlqTopic flush [v, v'] p (lane_init w)) = []"
proof -
  let ?f = "fetch_lane dlqTopic [v, v'] p (lane_init w)"
  have f: "ln_batch ?f = [d]" "ln_pos ?f = 2" "ln_dlq ?f = []" "ln_batchStart ?f = po_buffered p"
    using assms(1-3,6,7) by (simp_all add: fetch_lane_def lane_init_def Let_def lane_record_def toDLQ_def)
  obtain w' where "apply_batch x (ln_world ?f) [d] = (None, w')"
    using apply_batch_succeeds [OF assms(4,5)] by blast
  then show ?thesis
    using f assms(8,9) by (simp add: poll_lane_def Let_def flushBatch_def)
qed

theorem dlq_failure_loses_record_witness:
  "ln_committed (poll_lane ref_deps ''docs.dlq'' 1 [Some (NotJSON ''x''), ex_message]
      (ex_poll\<lparr>po_produce_ok := (\<lambda>v. False)\<rparr>) (lane_init ref_world)) = 2 \<and>
   ln_dlq (poll_lane ref_deps ''docs.dlq'' 1 [Some (NotJSON ''x''), ex_message]
      (ex_poll\<lparr>po_produce_ok := (\<lambda>v. False)\<rparr>) (lane_init ref_world)) = []"
  by (rule dlq_failure_loses_record [OF read_poison read_ex_message valid_ex_doc deps_ok_ref responsive_ref])
     (simp_all add: ex_poll_def)

text \<open>A document that OpenSearch always refuses blocks its lane: while every bulk request with
  its id fails, no iteration commits anything, and every fetched document stays in the
  batch, which grows with each poll.\<close>

theorem refused_document_blocks_lane:
  assumes "\<And>os docs. DocID d \<in> DocID ` set docs \<Longrightarrow> \<exists>e os'. Bulk (d_bulk x) os docs = (Inl e, os')"
    and "range_ok (d_range x)"
    and "seen (w_guard (ln_world s)) (DocID d) = None" "d \<in> set (ln_batch s)"
  shows "ln_committed (foldl (\<lambda>s p. poll_lane x dlqTopic flush topic p s) s ps) = ln_committed s \<and>
    set (ln_batch s) \<subseteq> set (ln_batch (foldl (\<lambda>s p. poll_lane x dlqTopic flush topic p s) s ps))"
  using assms(3,4)
proof (induction ps arbitrary: s)
  case (Cons p ps)
  let ?f = "fetch_lane dlqTopic topic p s"
  let ?s = "poll_lane x dlqTopic flush topic p s"
  have fr: "ln_committed ?f = ln_committed s" "ln_world ?f = ln_world s" by (simp_all add: fetch_lane_def Let_def)
  have sub: "set (ln_batch s) \<subseteq> set (ln_batch ?f)"
    using fold_records_mono [of "s\<lparr>ln_pos := n\<rparr>" for n] by (simp add: fetch_lane_def Let_def)
  then have d: "d \<in> set (ln_batch ?f)" using Cons.prems by blast
  obtain e w' where a: "apply_batch x (ln_world ?f) (ln_batch ?f) = (Some (ApplyBulk e), w')"
    "w_guard w' = w_guard (ln_world s)"
    using apply_batch_refused [OF assms(1,2) _ d, of "ln_world ?f"] Cons.prems(1) fr by auto
  then have "ln_committed ?s = ln_committed s \<and> ln_batch ?s = ln_batch ?f \<and>
      w_guard (ln_world ?s) = w_guard (ln_world s)"
    using d fr by (auto simp: poll_lane_def Let_def flushBatch_def)
  then show ?case using Cons.IH [of ?s] Cons.prems(1) d sub by auto
qed simp

theorem refused_document_blocks_lane_witness:
  "let x = ref_deps\<lparr>d_bulk := (\<lambda>s ops. (Inl ''refused'', s))\<rparr>;
       s = (lane_init ref_world)\<lparr>ln_pos := 1, ln_batch := [ex_doc ''a'' 1 OpUpsert]\<rparr>
   in ln_committed (foldl (\<lambda>s p. poll_lane x ''docs.dlq'' 1 ex_topic p s) s [ex_poll, ex_poll]) = 0"
proof -
  let ?x = "ref_deps\<lparr>d_bulk := (\<lambda>s ops. (Inl ''refused'', s))\<rparr>"
  let ?s = "(lane_init ref_world)\<lparr>ln_pos := 1, ln_batch := [ex_doc ''a'' 1 OpUpsert]\<rparr>"
  have "\<exists>e os'. Bulk (d_bulk ?x) os docs = (Inl e, os')" if "DocID (ex_doc ''a'' 1 OpUpsert) \<in> DocID ` set docs" for os docs
    using that by (auto simp: Bulk_def)
  moreover have "range_ok (d_range ?x)" "seen (w_guard (ln_world ?s)) (DocID (ex_doc ''a'' 1 OpUpsert)) = None"
    "ex_doc ''a'' 1 OpUpsert \<in> set (ln_batch ?s)"
    by (simp_all add: ref_deps_def range_ok_def lane_init_def ref_world_def NewGuard_def)
  ultimately have "ln_committed (foldl (\<lambda>s p. poll_lane ?x ''docs.dlq'' 1 ex_topic p s) ?s [ex_poll, ex_poll]) = ln_committed ?s"
    using refused_document_blocks_lane [of "ex_doc ''a'' 1 OpUpsert" ?x ?s "''docs.dlq''" 1 ex_topic "[ex_poll, ex_poll]"]
    by blast
  then show ?thesis unfolding Let_def by (simp add: lane_init_def)
qed

text \<open>\<open>mustReady\<close> terminates: when each attempt comes at least two seconds after the one before
  it, it has returned or given up after at most 92 attempts.\<close>

theorem mustReady_decides:
  assumes "\<And>i. i < length attempts \<Longrightarrow> start + int i * (2 * 10 ^ 9) \<le> fst (snd (attempts ! i))"
    and "92 \<le> length attempts"
  shows "mustReady (ready_deadline start) attempts \<noteq> Waiting"
proof -
  have late: "mustReady deadline as \<noteq> Waiting" if "a \<in> set as" "fst (snd a) > deadline" for deadline as a
    using that by (induction deadline as rule: mustReady.induct) auto
  have "fst (snd (attempts ! 91)) > ready_deadline start"
    using assms(1) [of 91] assms(2) by (simp add: ready_deadline_def)
  moreover have "attempts ! 91 \<in> set attempts" using assms(2) by simp
  ultimately show ?thesis by (rule late [rotated])
qed

theorem mustReady_decides_witness:
  "mustReady (ready_deadline 5) (map (\<lambda>i. (False, 5 + int i * 3000000000, False)) [0..<100]) \<noteq> Waiting"
  by (rule mustReady_decides) simp_all

end
