(* ===== verification/Interleave.thy ===== *)
theory Interleave
  imports Lane
begin

text \<open>
  The two lanes of command \<open>indexer\<close> run \<open>apply\<close> at the same time (\<open>cmd/indexer/main.go\<close>: one
  goroutine per lane, sharing the guard, both stores and the cache). This theory cuts \<open>apply\<close> into
  its atomic actions, one per access to shared state: a guard check or commit (both under the
  guard's mutex), a request to OpenSearch, Qdrant or Redis. \<open>apply_step\<close> is one action of a
  goroutine, its local variables are the \<open>phase\<close>. A goroutine that runs alone computes
  \<open>apply_batch\<close>; \<open>conc_step\<close> lets any number of goroutines interleave, be handed batches and crash.
\<close>

subsection \<open>The actions of one call of \<open>apply\<close>\<close>

text \<open>
  Where a call stands: checking documents against the guard (those left, those to apply), about to
  embed, to upsert, to delete, committing the guard (documents left, all applied), bumping
  generations, or back with its error. In \<open>Checking [] ta\<close> the bulk request is next.
\<close>

datatype phase =
    Idle
  | Checking "canonical_doc list" "canonical_doc list"
  | Embedding "canonical_doc list" "string set"
  | Upserting "canonical_doc list" "string set" "point list"
  | Deleting "canonical_doc list" "string set"
  | Committing "canonical_doc list" "canonical_doc list"
  | Bumping "string list"
  | Finished "apply_error option"

definition start :: "('os, 'qd, 'r) deps \<Rightarrow> canonical_doc list \<Rightarrow> phase" where
  "start x docs = Checking (visited (d_range x) docs) []"

definition add_metric :: "metric list \<Rightarrow> ('os, 'qd, 'r) world \<Rightarrow> ('os, 'qd, 'r) world" where
  "add_metric ms w = w\<lparr>w_metrics := w_metrics w @ ms\<rparr>"

fun apply_step ::
  "('os, 'qd, 'r) deps \<Rightarrow> phase \<times> ('os, 'qd, 'r) world \<Rightarrow> phase \<times> ('os, 'qd, 'r) world" where
  "apply_step x (Idle, w) = (Idle, w)"
| "apply_step x (Checking (d # ds) ta, w) =
     (if ShouldApply (w_guard w) (DocID d) (Version d) then (Checking ds (ta @ [d]), w)
      else (Checking ds ta, add_metric [DocsSkipped (Source d)] w))"
| "apply_step x (Checking [] ta, w) =
     (if ta = [] then (Finished None, w)
      else (case Bulk (d_bulk x) (w_os w) ta of
              (Inl e, os') \<Rightarrow> (Finished (Some (ApplyBulk e)), w\<lparr>w_os := os'\<rparr>)
            | (Inr applied, os') \<Rightarrow>
                (Embedding ta applied, add_metric [BulkWriteSeconds ''opensearch'' (d_elapsed x ''opensearch'')]
                   (w\<lparr>w_os := os'\<rparr>))))"
| "apply_step x (Embedding ta applied, w) =
     (case embed_points x (upserts applied ta) of
        Inl e \<Rightarrow> (Finished (Some e), w)
      | Inr points \<Rightarrow> (Upserting ta applied points, w))"
| "apply_step x (Upserting ta applied points, w) =
     (case (if points = [] then (None, w_qd w) else Upsert (d_upsert x) (w_qd w) points) of
        (Some e, q') \<Rightarrow> (Finished (Some (ApplyUpsert e)), w\<lparr>w_qd := q'\<rparr>)
      | (None, q') \<Rightarrow> (Deleting ta applied, w\<lparr>w_qd := q'\<rparr>))"
| "apply_step x (Deleting ta applied, w) =
     (case (if deletes applied ta = [] then (None, w_qd w)
            else DeleteByDocIDs (d_delete x) (w_qd w) (deletes applied ta)) of
        (Some e, q') \<Rightarrow> (Finished (Some (ApplyDelete e)), w\<lparr>w_qd := q'\<rparr>)
      | (None, q') \<Rightarrow>
          (let ds = filter (\<lambda>d. DocID d \<in> applied) ta
           in (Committing ds ds, add_metric [BulkWriteSeconds ''qdrant'' (d_elapsed x ''qdrant'')]
                 (w\<lparr>w_qd := q'\<rparr>))))"
| "apply_step x (Committing (d # ds) applied_docs, w) =
     (Committing ds applied_docs,
      add_metric [FreshnessLag (Source d) (Tier d) (lag_seconds (d_now x) d),
                  DocsIndexed (Source d) (Tier d) (Op d)]
        (w\<lparr>w_guard := Commit (w_guard w) (DocID d) (Version d)\<rparr>))"
| "apply_step x (Committing [] applied_docs, w) =
     (Bumping (d_range x (tenantsChanged applied_docs)), w)"
| "apply_step x (Bumping (t # ts), w) =
     (Bumping ts, w\<lparr>w_rd := BumpGeneration (d_redis x) (d_cache x) (w_rd w) t\<rparr>)"
| "apply_step x (Bumping [], w) = (Finished None, w)"
| "apply_step x (Finished r, w) = (Finished r, w)"

subsection \<open>Goroutines together\<close>

text \<open>A goroutine: the batch of its current call and where the call stands.\<close>

record thread =
  th_docs :: "canonical_doc list"
  th_phase :: phase

text \<open>
  The goroutines and what they share; for the specification also every document handed to a
  call, and those of the calls that returned nil.
\<close>

record ('os, 'qd, 'r) conc =
  cc_threads :: "thread list"
  cc_world :: "('os, 'qd, 'r) world"
  cc_sent :: "canonical_doc list"
  cc_acked :: "canonical_doc list"

datatype event = Advance nat | Deliver nat "canonical_doc list" | Crash

definition busy :: "phase \<Rightarrow> bool" where
  "busy p = (case p of Idle \<Rightarrow> False | Finished r \<Rightarrow> False | _ \<Rightarrow> True)"

definition advance ::
  "('os, 'qd, 'r) deps \<Rightarrow> nat \<Rightarrow> ('os, 'qd, 'r) conc \<Rightarrow> ('os, 'qd, 'r) conc" where
  "advance x i s =
     (let th = cc_threads s ! i; (p, w) = apply_step x (th_phase th, cc_world s)
      in s\<lparr>cc_threads := (cc_threads s)[i := th\<lparr>th_phase := p\<rparr>], cc_world := w,
           cc_acked := cc_acked s @ (if p = Finished None then th_docs th else [])\<rparr>)"

definition deliver ::
  "('os, 'qd, 'r) deps \<Rightarrow> nat \<Rightarrow> canonical_doc list \<Rightarrow> ('os, 'qd, 'r) conc \<Rightarrow> ('os, 'qd, 'r) conc" where
  "deliver x i docs s =
     s\<lparr>cc_threads := (cc_threads s)[i := \<lparr>th_docs = docs, th_phase = start x docs\<rparr>],
       cc_sent := cc_sent s @ docs\<rparr>"

text \<open>The process dies: every call is abandoned where it stands, and the guard is forgotten.\<close>

definition crash :: "('os, 'qd, 'r) conc \<Rightarrow> ('os, 'qd, 'r) conc" where
  "crash s =
     s\<lparr>cc_threads := map (\<lambda>th. th\<lparr>th_phase := Idle\<rparr>) (cc_threads s),
       cc_world := (cc_world s)\<lparr>w_guard := NewGuard\<rparr>\<rparr>"

inductive conc_step ::
  "(('os, 'qd, 'r) deps \<Rightarrow> bool) \<Rightarrow> ('os, 'qd, 'r) conc \<Rightarrow> event \<Rightarrow> ('os, 'qd, 'r) conc \<Rightarrow> bool"
  for ok where
  Advanced: "ok x \<Longrightarrow> i < length (cc_threads s) \<Longrightarrow> busy (th_phase (cc_threads s ! i)) \<Longrightarrow>
     conc_step ok s (Advance i) (advance x i s)"
| Delivered: "ok x \<Longrightarrow> i < length (cc_threads s) \<Longrightarrow> \<not> busy (th_phase (cc_threads s ! i)) \<Longrightarrow>
     conc_step ok s (Deliver i docs) (deliver x i docs s)"
| Crashed: "conc_step ok s Crash (crash s)"

inductive conc_run ::
  "(('os, 'qd, 'r) deps \<Rightarrow> bool) \<Rightarrow> ('os, 'qd, 'r) conc \<Rightarrow> event list \<Rightarrow> ('os, 'qd, 'r) conc \<Rightarrow> bool"
  for ok s where
  Start: "conc_run ok s [] s"
| Step: "conc_run ok s evs t \<Longrightarrow> conc_step ok t ev u \<Longrightarrow> conc_run ok s (evs @ [ev]) u"

definition conc_init :: "nat \<Rightarrow> ('os, 'qd, 'r) world \<Rightarrow> ('os, 'qd, 'r) conc" where
  "conc_init n w = \<lparr>cc_threads = replicate n \<lparr>th_docs = [], th_phase = Idle\<rparr>, cc_world = w,
     cc_sent = [], cc_acked = []\<rparr>"

inductive_cases conc_stepE: "conc_step ok s ev t"

subsection \<open>Specification\<close>

text \<open>
  The documented behaviour of the services as in \<open>services_ok\<close>; a failed bulk request changes
  entries only to what one of its items writes.
\<close>

definition cluster_ok ::
  "('os \<Rightarrow> vstore) \<Rightarrow> ('qd \<Rightarrow> string \<rightharpoonup> point) \<Rightarrow> ('os, 'qd, 'r) deps \<Rightarrow> bool" where
  "cluster_ok vos vqd x \<longleftrightarrow>
     services_ok vos vqd x \<and>
     (\<forall>s ops r s' i. d_bulk x s ops = (r, s') \<longrightarrow>
        vos s' i = vos s i \<or> (\<exists>op \<in> set ops. op_id op = i \<and> vos s' i = Some (op_version op, op_result op)))"

text \<open>What a document leaves in the versioned store.\<close>

definition doc_entry :: "canonical_doc \<Rightarrow> int \<times> os_doc option" where
  "doc_entry d = (Version d, if Op d = OpDelete then None else Some (os_doc_of d))"

definition superseded :: "vstore \<Rightarrow> canonical_doc \<Rightarrow> bool" where
  "superseded m d \<longleftrightarrow> \<not> newer m (DocID d) (Version d)"

subsection \<open>Lemmas: a call that runs alone\<close>

definition reaches ::
  "('os, 'qd, 'r) deps \<Rightarrow> phase \<times> ('os, 'qd, 'r) world \<Rightarrow> phase \<times> ('os, 'qd, 'r) world \<Rightarrow> bool" where
  "reaches x a b \<longleftrightarrow> (\<exists>n. (apply_step x ^^ n) a = b)"

lemma reaches_refl [simp]: "reaches x a a"
  unfolding reaches_def by (rule exI [of _ 0]) simp

lemma reaches_trans [trans]: "reaches x a b \<Longrightarrow> reaches x b c \<Longrightarrow> reaches x a c"
  unfolding reaches_def by (metis comp_apply funpow_add)

lemma reaches_step: "reaches x (apply_step x a) b \<Longrightarrow> reaches x a b"
  unfolding reaches_def by (metis comp_apply funpow_Suc_right)

lemma add_metric_simps [simp]:
  "w_os (add_metric ms w) = w_os w" "w_qd (add_metric ms w) = w_qd w" "w_rd (add_metric ms w) = w_rd w"
  "w_guard (add_metric ms w) = w_guard w" "add_metric [] w = w"
  "add_metric ns (add_metric ms w) = add_metric (ms @ ns) w"
  by (simp_all add: add_metric_def)

lemma reaches_checking:
  "reaches x (Checking ds ta, w)
     (Checking [] (ta @ filter (\<lambda>d. ShouldApply (w_guard w) (DocID d) (Version d)) ds),
      add_metric (map (\<lambda>d. DocsSkipped (Source d))
        (filter (\<lambda>d. \<not> ShouldApply (w_guard w) (DocID d) (Version d)) ds)) w)"
proof (induction ds arbitrary: ta w)
  case (Cons d ds)
  show ?case
    using Cons [of "ta @ [d]" w] Cons [of ta "add_metric [DocsSkipped (Source d)] w"]
    by (cases "ShouldApply (w_guard w) (DocID d) (Version d)") (simp_all add: reaches_step)
qed simp

lemma reaches_committing:
  "reaches x (Committing ds all, w)
     (Committing [] all, add_metric (concat (map (\<lambda>d.
         [FreshnessLag (Source d) (Tier d) (lag_seconds (d_now x) d),
          DocsIndexed (Source d) (Tier d) (Op d)]) ds)) (w\<lparr>w_guard := commit_docs (w_guard w) ds\<rparr>))"
proof (induction ds arbitrary: w)
  case (Cons d ds)
  show ?case
    by (rule reaches_step)
      (use Cons [of "snd (apply_step x (Committing (d # ds) all, w))"] in \<open>simp add: commit_docs_def add_metric_def\<close>)
qed (simp add: commit_docs_def)

lemma reaches_bumping:
  "reaches x (Bumping ts, w) (Finished None, w\<lparr>w_rd := bump_all (d_redis x) (d_cache x) (w_rd w) ts\<rparr>)"
proof (induction ts arbitrary: w)
  case Nil
  show ?case by (rule reaches_step) (simp add: bump_all_def)
next
  case (Cons t ts)
  show ?case
    by (rule reaches_step)
      (use Cons [of "snd (apply_step x (Bumping (t # ts), w))"] in \<open>simp add: bump_all_def\<close>)
qed

text \<open>From the vector store on, after the bulk request.\<close>

lemma reaches_via: "apply_step x a = b \<Longrightarrow> reaches x b c \<Longrightarrow> reaches x a c"
  by (rule reaches_step) simp

lemma reaches_one: "apply_step x a = b \<Longrightarrow> reaches x a b"
  by (rule reaches_step) simp

lemma reaches_written:
  assumes "embed_points x (upserts applied ta) = Inr points"
    and "write_qdrant x (w_qd w) points (deletes applied ta) = (r, q')"
  shows "reaches x (Embedding ta applied, w)
    (case r of
       Some e \<Rightarrow> (Finished (Some e), w\<lparr>w_qd := q'\<rparr>)
     | None \<Rightarrow> (Finished None, finish x (w\<lparr>w_qd := q', w_metrics := w_metrics w @
           [BulkWriteSeconds ''qdrant'' (d_elapsed x ''qdrant'')]\<rparr>)
         (filter (\<lambda>d. DocID d \<in> applied) ta)))"
proof -
  let ?ds = "filter (\<lambda>d. DocID d \<in> applied) ta"
  obtain r1 q1 where r1: "(if points = [] then (None, w_qd w) else Upsert (d_upsert x) (w_qd w) points) = (r1, q1)"
    by fastforce
  have e: "apply_step x (Embedding ta applied, w) = (Upserting ta applied points, w)"
    using assms(1) by simp
  show ?thesis
  proof (cases r1)
    case (Some e1)
    have "r = Some (ApplyUpsert e1)" "q' = q1" using assms(2) unfolding write_qdrant_def r1 Some by simp_all
    moreover have "apply_step x (Upserting ta applied points, w) = (Finished (Some (ApplyUpsert e1)), w\<lparr>w_qd := q1\<rparr>)"
      by (simp only: apply_step.simps r1 Some prod.case option.case)
    ultimately show ?thesis using reaches_via [OF e reaches_one] by simp
  next
    case None
    obtain r2 q2 where r2: "(if deletes applied ta = [] then (None, q1)
        else DeleteByDocIDs (d_delete x) q1 (deletes applied ta)) = (r2, q2)"
      by fastforce
    have u: "apply_step x (Upserting ta applied points, w) = (Deleting ta applied, w\<lparr>w_qd := q1\<rparr>)"
      by (simp only: apply_step.simps r1 None prod.case option.case)
    note pre = reaches_via [OF e reaches_via [OF u]]
    show ?thesis
    proof (cases r2)
      case (Some e2)
      have "r = Some (ApplyDelete e2)" "q' = q2"
        using assms(2) unfolding write_qdrant_def r1 None option.case prod.case r2 Some by simp_all
      moreover have "apply_step x (Deleting ta applied, w\<lparr>w_qd := q1\<rparr>) = (Finished (Some (ApplyDelete e2)), w\<lparr>w_qd := q2\<rparr>)"
        using r2 Some by (cases "deletes applied ta = []") auto
      ultimately show ?thesis using pre [OF reaches_one] by simp
    next
      case None2: None
      let ?w = "add_metric [BulkWriteSeconds ''qdrant'' (d_elapsed x ''qdrant'')] (w\<lparr>w_qd := q2\<rparr>)"
      have rq: "r = None" "q' = q2"
        using assms(2) unfolding write_qdrant_def r1 None option.case prod.case r2 None2 by simp_all
      have d: "apply_step x (Deleting ta applied, w\<lparr>w_qd := q1\<rparr>) = (Committing ?ds ?ds, ?w)"
        using r2 None2 by (cases "deletes applied ta = []") (auto simp: Let_def)
      have "reaches x (Committing ?ds ?ds, ?w) (Committing [] ?ds, add_metric (concat (map (\<lambda>d.
          [FreshnessLag (Source d) (Tier d) (lag_seconds (d_now x) d),
          DocsIndexed (Source d) (Tier d) (Op d)]) ?ds)) (?w\<lparr>w_guard := commit_docs (w_guard w) ?ds\<rparr>))"
        using reaches_committing [of x ?ds ?ds ?w] by simp
      also have "reaches x \<dots> (Finished None, finish x (w\<lparr>w_qd := q2, w_metrics := w_metrics w @
           [BulkWriteSeconds ''qdrant'' (d_elapsed x ''qdrant'')]\<rparr>) ?ds)"
        (is "reaches x (_, ?v) _")
        using reaches_step [of x "(Committing [] ?ds, ?v)"] reaches_bumping [of x "d_range x (tenantsChanged ?ds)" ?v]
        by (simp add: finish_def add_metric_def)
      finally show ?thesis unfolding rq using pre [OF reaches_via [OF d]] by simp
    qed
  qed
qed

lemma reaches_apply_batch:
  "reaches x (start x docs, w)
     (Finished (fst (apply_batch x w docs)), snd (apply_batch x w docs))"
proof -
  let ?ta = "toApply (d_range x) (w_guard w) docs"
  let ?w1 = "w\<lparr>w_metrics := w_metrics w @
     map (\<lambda>d. DocsSkipped (Source d)) (skipped (d_range x) (w_guard w) docs)\<rparr>"
  have c: "reaches x (start x docs, w) (Checking [] ?ta, ?w1)"
    using reaches_checking [of x "visited (d_range x) docs" "[]" w]
    unfolding start_def toApply_def skipped_def add_metric_def by simp
  also have "reaches x \<dots> (Finished (fst (apply_batch x w docs)), snd (apply_batch x w docs))"
  proof (cases "?ta = []")
    case True
    then show ?thesis by (intro reaches_one) (simp add: apply_batch_def)
  next
    case False
    obtain r os' where b: "Bulk (d_bulk x) (w_os w) ?ta = (r, os')" by fastforce
    show ?thesis
    proof (cases r)
      case (Inl e)
      then show ?thesis using False b by (intro reaches_one) (simp add: apply_batch_def Let_def)
    next
      case (Inr applied)
      let ?w2 = "add_metric [BulkWriteSeconds ''opensearch'' (d_elapsed x ''opensearch'')] (?w1\<lparr>w_os := os'\<rparr>)"
      have s: "apply_step x (Checking [] ?ta, ?w1) = (Embedding ?ta applied, ?w2)"
        using False b Inr by simp
      show ?thesis
      proof (cases "embed_points x (upserts applied ?ta)")
        case (Inl e)
        then have "apply_step x (Embedding ?ta applied, ?w2) = (Finished (Some e), ?w2)" by simp
        moreover have "apply_batch x w docs = (Some e, ?w2)"
          using False b Inl \<open>r = Inr applied\<close> by (simp add: apply_batch_def Let_def add_metric_def)
        ultimately show ?thesis using reaches_via [OF s reaches_one] by simp
      next
        case points: (Inr points)
        obtain r3 q' where q: "write_qdrant x (w_qd w) points (deletes applied ?ta) = (r3, q')" by fastforce
        have w: "reaches x (Embedding ?ta applied, ?w2)
          (case r3 of
             Some e \<Rightarrow> (Finished (Some e), ?w2\<lparr>w_qd := q'\<rparr>)
           | None \<Rightarrow> (Finished None, finish x (?w2\<lparr>w_qd := q', w_metrics := w_metrics ?w2 @
                 [BulkWriteSeconds ''qdrant'' (d_elapsed x ''qdrant'')]\<rparr>)
               (filter (\<lambda>d. DocID d \<in> applied) ?ta)))"
          by (rule reaches_written [OF points]) (simp add: q)
        have "apply_batch x w docs = (case r3 of
             Some e \<Rightarrow> (Some e, ?w2\<lparr>w_qd := q'\<rparr>)
           | None \<Rightarrow> (None, finish x (?w2\<lparr>w_qd := q', w_metrics := w_metrics ?w2 @
                 [BulkWriteSeconds ''qdrant'' (d_elapsed x ''qdrant'')]\<rparr>)
               (filter (\<lambda>d. DocID d \<in> applied) ?ta)))"
          using False b Inr points q by (simp add: apply_batch_def Let_def add_metric_def split: option.splits)
        with reaches_via [OF s w] show ?thesis by (cases r3) simp_all
      qed
    qed
  qed
  finally show ?thesis .
qed

subsection \<open>Lemmas: goroutines together\<close>

definition thread_ok :: "vstore \<Rightarrow> thread \<Rightarrow> bool" where
  "thread_ok m th =
     (case th_phase th of
        Idle \<Rightarrow> True
      | Checking ds ta \<Rightarrow> set ds \<union> set ta \<subseteq> set (th_docs th) \<and> distinct (map DocID (ta @ ds)) \<and>
             (\<forall>d \<in> set (th_docs th). superseded m d \<or> (\<exists>e \<in> set ds \<union> set ta. DocID e = DocID d \<and> Version d \<le> Version e))
      | Embedding ta applied \<Rightarrow> set ta \<subseteq> set (th_docs th) \<and> (\<forall>d \<in> set (th_docs th). superseded m d)
      | Upserting ta applied points \<Rightarrow> set ta \<subseteq> set (th_docs th) \<and> (\<forall>d \<in> set (th_docs th). superseded m d)
      | Deleting ta applied \<Rightarrow> set ta \<subseteq> set (th_docs th) \<and> (\<forall>d \<in> set (th_docs th). superseded m d)
      | Committing ds ap \<Rightarrow> set ds \<subseteq> set (th_docs th) \<and> (\<forall>d \<in> set (th_docs th). superseded m d)
      | Bumping ts \<Rightarrow> \<forall>d \<in> set (th_docs th). superseded m d
      | Finished r \<Rightarrow> r = None \<longrightarrow> (\<forall>d \<in> set (th_docs th). superseded m d))"

definition stored_from :: "vstore \<Rightarrow> canonical_doc list \<Rightarrow> vstore \<Rightarrow> bool" where
  "stored_from m0 ds m \<longleftrightarrow>
     (\<forall>i e. m i = Some e \<longrightarrow> m0 i = Some e \<or> (\<exists>d \<in> set ds. DocID d = i \<and> e = doc_entry d))"

definition conc_inv :: "('os \<Rightarrow> vstore) \<Rightarrow> vstore \<Rightarrow> ('os, 'qd, 'r) conc \<Rightarrow> bool" where
  "conc_inv vos m0 s \<longleftrightarrow>
     guard_sound (w_guard (cc_world s)) (vos (w_os (cc_world s))) \<and>
     (\<forall>th \<in> set (cc_threads s). thread_ok (vos (w_os (cc_world s))) th \<and> set (th_docs th) \<subseteq> set (cc_sent s)) \<and>
     (\<forall>d \<in> set (cc_acked s). superseded (vos (w_os (cc_world s))) d) \<and>
     stored_from m0 (cc_sent s) (vos (w_os (cc_world s)))"

lemma superseded_grows: "superseded m d \<Longrightarrow> store_grows m m' \<Longrightarrow> superseded m' d"
  unfolding superseded_def store_grows_def by blast

lemma superseded_le:
  "superseded m e \<Longrightarrow> DocID e = DocID d \<Longrightarrow> Version d \<le> Version e \<Longrightarrow> superseded m d"
  unfolding superseded_def newer_def by (auto split: option.splits)

lemma thread_ok_grows: "thread_ok m th \<Longrightarrow> store_grows m m' \<Longrightarrow> thread_ok m' th"
  using superseded_grows [of m _ m'] unfolding thread_ok_def
  by (cases "th_phase th") (simp_all, blast+)

lemma guard_refuses:
  "guard_sound g m \<Longrightarrow> \<not> ShouldApply g (DocID d) (Version d) \<Longrightarrow> superseded m d"
  unfolding guard_sound_newer superseded_def newer_def ShouldApply_def
  by (fastforce split: option.splits)

lemma guard_sound_Commit:
  "guard_sound g m \<Longrightarrow> superseded m d \<Longrightarrow> guard_sound (Commit g (DocID d) (Version d)) m"
  unfolding guard_sound_newer superseded_def by (auto simp: Commit_def split: option.splits if_splits)

lemma visited_dominates:
  assumes "range_ok order" "d \<in> set docs"
  shows "\<exists>e \<in> set (visited order docs). DocID e = DocID d \<and> Version d \<le> Version e"
proof -
  obtain e where e: "map_of (newestByDoc docs) (DocID d) = Some e"
    using newestByDoc_None [of docs "DocID d"] assms(2) by fastforce
  have "DocID e = DocID d" "Version d \<le> Version e"
    using newestByDoc_Some [OF e] newestByDoc_max [OF e assms(2)] by simp_all
  then show ?thesis using set_visited [OF assms(1), of e docs] e by auto
qed

lemma visited_subset: "range_ok order \<Longrightarrow> set (visited order docs) \<subseteq> set docs"
  using set_visited newestByDoc_Some by blast

lemma thread_ok_start:
  "range_ok (d_range x) \<Longrightarrow> thread_ok m \<lparr>th_docs = docs, th_phase = start x docs\<rparr>"
  using visited_dominates [of "d_range x" _ docs] visited_subset [of "d_range x" docs]
    distinct_visited [of "d_range x" docs]
  by (auto simp: thread_ok_def start_def)

lemma Bulk_api:
  "Bulk api s ds = (r, s') \<Longrightarrow> ds \<noteq> [] \<Longrightarrow> \<exists>r'. api s (map bulk_op_of ds) = (r', s')"
  by (auto simp: Bulk_def split: prod.splits sum.splits)

lemma superseded_applied:
  assumes "distinct (map DocID ds)" "d \<in> set ds"
  shows "superseded (applied_store m ds) d"
  using applied_store_at [OF assms, of m] by (auto simp: superseded_def newer_def split: option.splits)

text \<open>A bulk request, successful or not: versions do not go back, entries come from its documents.\<close>

lemma cluster_bulk:
  assumes "cluster_ok vos vqd x" "Bulk (d_bulk x) s ds = (r, s')" "ds \<noteq> []"
  shows "store_grows (vos s) (vos s')"
    and "vos s' i = Some e \<Longrightarrow> vos s i = Some e \<or> (\<exists>d \<in> set ds. DocID d = i \<and> e = doc_entry d)"
proof -
  obtain r' where r': "d_bulk x s (map bulk_op_of ds) = (r', s')"
    using Bulk_api [OF assms(2,3)] by blast
  then show "store_grows (vos s) (vos s')"
    using assms(1) unfolding cluster_ok_def services_ok_def by blast
  have "vos s' i = vos s i \<or> (\<exists>op \<in> set (map bulk_op_of ds). op_id op = i \<and>
      vos s' i = Some (op_version op, op_result op))"
    using assms(1) r' unfolding cluster_ok_def by blast
  then show "vos s i = Some e \<or> (\<exists>d \<in> set ds. DocID d = i \<and> e = doc_entry d)" if "vos s' i = Some e"
    using that by (auto simp: doc_entry_def)
qed

text \<open>One action: what it does to OpenSearch and to the guard, and where it leaves the call.\<close>

lemma apply_step_store:
  assumes ok: "cluster_ok vos vqd x" and st: "apply_step x (th_phase th, w) = (p, w')"
    and th: "thread_ok (vos (w_os w)) th"
  shows "store_grows (vos (w_os w)) (vos (w_os w'))"
    and "vos (w_os w') i = Some e \<Longrightarrow>
      vos (w_os w) i = Some e \<or> (\<exists>d \<in> set (th_docs th). DocID d = i \<and> e = doc_entry d)"
proof -
  have "store_grows (vos (w_os w)) (vos (w_os w')) \<and> (vos (w_os w') i = Some e \<longrightarrow>
      vos (w_os w) i = Some e \<or> (\<exists>d \<in> set (th_docs th). DocID d = i \<and> e = doc_entry d))"
  proof (cases "\<exists>ta. th_phase th = Checking [] ta \<and> ta \<noteq> []")
    case True
    then obtain ta where ta: "th_phase th = Checking [] ta" "ta \<noteq> []" by blast
    obtain r os' where b: "Bulk (d_bulk x) (w_os w) ta = (r, os')" by fastforce
    have "w_os w' = os'" using st ta b by (auto split: sum.splits)
    moreover have "set ta \<subseteq> set (th_docs th)" using th ta by (simp add: thread_ok_def)
    ultimately show ?thesis using cluster_bulk [OF ok b ta(2)] by blast
  next
    case False
    then have "w_os w' = w_os w"
      using st by (cases "(x, th_phase th, w)" rule: apply_step.cases)
        (auto simp: Let_def split: if_splits sum.splits prod.splits option.splits)
    then show ?thesis by simp
  qed
  then show "store_grows (vos (w_os w)) (vos (w_os w'))"
    and "vos (w_os w') i = Some e \<Longrightarrow>
      vos (w_os w) i = Some e \<or> (\<exists>d \<in> set (th_docs th). DocID d = i \<and> e = doc_entry d)"
    by blast+
qed

lemma apply_step_guard:
  assumes "apply_step x (th_phase th, w) = (p, w')" "thread_ok m th" "guard_sound (w_guard w) m"
  shows "guard_sound (w_guard w') m"
proof (cases "\<exists>d ds ap. th_phase th = Committing (d # ds) ap")
  case True
  then obtain d ds ap where c: "th_phase th = Committing (d # ds) ap" by blast
  then have "superseded m d" using assms(2) by (auto simp: thread_ok_def)
  moreover have "w_guard w' = Commit (w_guard w) (DocID d) (Version d)" using assms(1) c by auto
  ultimately show ?thesis using assms(3) guard_sound_Commit by simp
next
  case False
  then have "w_guard w' = w_guard w"
    using assms(1) by (cases "(x, th_phase th, w)" rule: apply_step.cases)
      (auto simp: Let_def split: if_splits sum.splits prod.splits option.splits)
  then show ?thesis using assms(3) by simp
qed

lemma apply_step_bulk_ok:
  assumes ok: "cluster_ok vos vqd x" and th: "thread_ok (vos (w_os w)) th"
    and ta: "th_phase th = Checking [] ta" and b: "Bulk (d_bulk x) (w_os w) ta = (Inr applied, os')"
    and ne: "ta \<noteq> []" and d: "d \<in> set (th_docs th)"
  shows "superseded (vos os') d"
proof -
  have dist: "distinct (map DocID ta)" using th ta by (simp add: thread_ok_def)
  have ev: "external_versioning (d_bulk x) vos"
    using ok by (simp add: cluster_ok_def services_ok_def deps_ok_def)
  have "superseded (vos (w_os w)) d \<or> (\<exists>e \<in> set ta. DocID e = DocID d \<and> Version d \<le> Version e)"
    using th ta d by (simp add: thread_ok_def)
  then show ?thesis
    using superseded_grows cluster_bulk(1) [OF ok b ne] superseded_applied [OF dist]
      Bulk_external(2) [OF ev dist b] superseded_le by metis
qed

lemma apply_step_thread:
  assumes ok: "cluster_ok vos vqd x" and gs: "guard_sound (w_guard w) (vos (w_os w))"
    and th: "thread_ok (vos (w_os w)) th" and st: "apply_step x (th_phase th, w) = (p, w')"
  shows "thread_ok (vos (w_os w')) (th\<lparr>th_phase := p\<rparr>)"
proof (cases "\<exists>ta. th_phase th = Checking [] ta \<and> ta \<noteq> []")
  case True
  then obtain ta where ta: "th_phase th = Checking [] ta" "ta \<noteq> []" by blast
  obtain r os' where b: "Bulk (d_bulk x) (w_os w) ta = (r, os')" by fastforce
  have sub: "set ta \<subseteq> set (th_docs th)" using th ta by (simp add: thread_ok_def)
  show ?thesis
  proof (cases r)
    case (Inl e)
    then show ?thesis using st ta b by (auto simp: thread_ok_def)
  next
    case (Inr applied)
    then have "p = Embedding ta applied" "w_os w' = os'" using st ta b by auto
    then show ?thesis using sub apply_step_bulk_ok [OF ok th ta(1) b [unfolded Inr] ta(2)]
      by (simp add: thread_ok_def)
  qed
next
  case False
  then have os: "w_os w' = w_os w"
    using st by (cases "(x, th_phase th, w)" rule: apply_step.cases)
      (auto simp: Let_def split: if_splits sum.splits prod.splits option.splits)
  let ?m = "vos (w_os w)"
  show ?thesis
  proof (cases "\<exists>d ds ta. th_phase th = Checking (d # ds) ta")
    case True
    then obtain d ds ta where c: "th_phase th = Checking (d # ds) ta" by blast
    have cov: "superseded ?m a \<or> (\<exists>e \<in> set (d # ds) \<union> set ta. DocID e = DocID a \<and> Version a \<le> Version e)"
      if "a \<in> set (th_docs th)" for a
      using th c that by (simp add: thread_ok_def)
    have fr: "set (d # ds) \<union> set ta \<subseteq> set (th_docs th)" "distinct (map DocID (ta @ d # ds))"
      using th c by (simp_all add: thread_ok_def)
    show ?thesis
    proof (cases "ShouldApply (w_guard w) (DocID d) (Version d)")
      case True
      then have "p = Checking ds (ta @ [d])" using st c by auto
      then show ?thesis using cov fr by (auto simp: thread_ok_def os)
    next
      case False
      have "superseded ?m a \<or> (\<exists>e \<in> set ds \<union> set ta. DocID e = DocID a \<and> Version a \<le> Version e)"
        if "a \<in> set (th_docs th)" for a
        using cov [OF that] superseded_le [OF guard_refuses [OF gs False]] by auto
      moreover have "p = Checking ds ta" using st c False by auto
      ultimately show ?thesis using fr by (auto simp: thread_ok_def os)
    qed
  next
    case no: False
    show ?thesis
    proof (cases "th_phase th")
      case (Checking ds ta)
      have "ds = []" using no Checking by (metis neq_Nil_conv)
      have "ta = []" using False Checking \<open>ds = []\<close> by blast
      have "p = Finished None" using st Checking \<open>ds = []\<close> \<open>ta = []\<close> by simp
      then show ?thesis using th Checking \<open>ds = []\<close> \<open>ta = []\<close> by (simp add: thread_ok_def os)
    next
      case (Embedding ta applied)
      then have "(\<exists>ps. p = Upserting ta applied ps) \<or> (\<exists>e. p = Finished (Some e))"
        using st by (cases "embed_points x (upserts applied ta)") auto
      then show ?thesis using th Embedding by (auto simp: thread_ok_def os)
    next
      case (Upserting ta applied points)
      then have "p = Deleting ta applied \<or> (\<exists>e. p = Finished (Some e))"
        using st by (auto split: if_splits prod.splits option.splits)
      then show ?thesis using th Upserting by (auto simp: thread_ok_def os)
    next
      case (Deleting ta applied)
      let ?ds = "filter (\<lambda>d. DocID d \<in> applied) ta"
      have "p = Committing ?ds ?ds \<or> (\<exists>e. p = Finished (Some e))"
        using st Deleting by (auto simp: Let_def split: if_splits prod.splits option.splits)
      then show ?thesis using th Deleting by (auto simp: thread_ok_def os)
    next
      case (Committing ds ap)
      then have "(\<exists>ts. p = Bumping ts) \<or> (\<exists>d ds'. ds = d # ds' \<and> p = Committing ds' ap)"
        using st by (cases ds) auto
      then show ?thesis using th Committing by (auto simp: thread_ok_def os)
    next
      case (Bumping ts)
      then have "p = Finished None \<or> (\<exists>ts. p = Bumping ts)" using st by (cases ts) auto
      then show ?thesis using th Bumping by (auto simp: thread_ok_def os)
    next
      case Idle
      then have "p = Idle" using st by simp
      then show ?thesis by (simp add: thread_ok_def)
    next
      case (Finished r)
      then have "p = Finished r" using st by simp
      then show ?thesis using th Finished by (simp add: thread_ok_def os)
    qed
  qed
qed

lemma stored_from_mono: "stored_from m0 ds m \<Longrightarrow> set ds \<subseteq> set ds' \<Longrightarrow> stored_from m0 ds' m"
  unfolding stored_from_def by blast

lemma conc_step_inv:
  assumes "conc_step (cluster_ok vos vqd) s ev t" "conc_inv vos m0 s"
  shows "conc_inv vos m0 t"
  using assms(1)
proof (cases rule: conc_step.cases)
  case (Advanced x i)
  define th where "th = cc_threads s ! i"
  obtain p w where st: "apply_step x (th_phase th, cc_world s) = (p, w)" by fastforce
  note inv = assms(2) [unfolded conc_inv_def]
  let ?m = "vos (w_os (cc_world s))" and ?m' = "vos (w_os w)"
  have mem: "th \<in> set (cc_threads s)" using Advanced by (simp add: th_def)
  then have th: "thread_ok ?m th" "set (th_docs th) \<subseteq> set (cc_sent s)" using inv by auto
  note grow = apply_step_store(1) [OF Advanced(3) st th(1)]
  have t: "t = s\<lparr>cc_threads := (cc_threads s)[i := th\<lparr>th_phase := p\<rparr>], cc_world := w,
      cc_acked := cc_acked s @ (if p = Finished None then th_docs th else [])\<rparr>"
    using Advanced st by (simp add: advance_def th_def Let_def)
  have ok': "thread_ok ?m' (th\<lparr>th_phase := p\<rparr>)"
    using apply_step_thread [OF Advanced(3) _ th(1) st] inv by blast
  have "thread_ok ?m' u \<and> set (th_docs u) \<subseteq> set (cc_sent s)" if "u \<in> set (cc_threads t)" for u
  proof -
    have "u = th\<lparr>th_phase := p\<rparr> \<or> u \<in> set (cc_threads s)"
      using that set_update_subset_insert t by fastforce
    then show ?thesis using ok' th(2) inv thread_ok_grows [OF _ grow] by auto
  qed
  moreover have "superseded ?m' d" if "d \<in> set (cc_acked t)" for d
    using that t ok' inv superseded_grows [OF _ grow] by (auto simp: thread_ok_def split: if_splits)
  moreover have "guard_sound (w_guard w) ?m'"
    using apply_step_guard [OF st th(1)] inv guard_sound_grows [OF _ grow] by blast
  moreover have "stored_from m0 (cc_sent s) ?m'"
    unfolding stored_from_def
    using inv [unfolded stored_from_def] apply_step_store(2) [OF Advanced(3) st th(1)] th(2) by blast
  ultimately show ?thesis unfolding conc_inv_def by (simp add: t)
next
  case (Delivered x i docs)
  have "range_ok (d_range x)" using Delivered by (simp add: cluster_ok_def services_ok_def deps_ok_def)
  then have "thread_ok m \<lparr>th_docs = docs, th_phase = start x docs\<rparr>" for m
    by (rule thread_ok_start)
  moreover have "u = \<lparr>th_docs = docs, th_phase = start x docs\<rparr> \<or> u \<in> set (cc_threads s)"
    if "u \<in> set (cc_threads t)" for u
    using that set_update_subset_insert Delivered by (fastforce simp: deliver_def)
  moreover have "stored_from m0 (cc_sent s @ docs) (vos (w_os (cc_world s)))"
    using assms(2) stored_from_mono [of m0 "cc_sent s"] by (simp add: conc_inv_def)
  ultimately show ?thesis
    using assms(2) Delivered by (fastforce simp: conc_inv_def deliver_def)
next
  case Crashed
  then show ?thesis using assms(2) by (auto simp: conc_inv_def crash_def thread_ok_def)
qed

lemma conc_inv_init:
  "guard_sound (w_guard w) (vos (w_os w)) \<Longrightarrow> conc_inv vos (vos (w_os w)) (conc_init n w)"
  by (auto simp: conc_inv_def conc_init_def thread_ok_def stored_from_def)

lemma conc_run_inv:
  assumes "conc_run (cluster_ok vos vqd) s evs t" "conc_inv vos m0 s"
  shows "conc_inv vos m0 t"
  using assms by (induction rule: conc_run.induct) (blast intro: conc_step_inv)+

end
