(* ===== verification/Races.thy ===== *)
theory Races
  imports Interleave
begin

text \<open>
  What the interleavings of \<open>Interleave\<close> do to the two stores: OpenSearch and the guard stay safe, the
  vector store does when no document is in the hands of two goroutines at a time, and a
  schedule of two lanes on one document leaves the stores apart.
\<close>

subsection \<open>Lemmas: goroutines on separate documents\<close>

text \<open>Between the bulk request and the vector store, the stores may differ on an applied document.\<close>

definition in_flight :: "phase \<Rightarrow> string \<Rightarrow> bool" where
  "in_flight p i =
     (case p of
        Embedding ta applied \<Rightarrow> i \<in> applied
      | Upserting ta applied points \<Rightarrow> i \<in> applied
      | Deleting ta applied \<Rightarrow> i \<in> set (deletes applied ta)
      | _ \<Rightarrow> False)"

definition bulk_done :: "vstore \<Rightarrow> canonical_doc list \<Rightarrow> string set \<Rightarrow> bool" where
  "bulk_done m ta applied \<longleftrightarrow> distinct (map DocID ta) \<and> applied \<subseteq> DocID ` set ta \<and>
     (\<forall>d \<in> set ta. DocID d \<in> applied \<longrightarrow> m (DocID d) = Some (doc_entry d))"

text \<open>The documents a call works on are its own, and what it holds is true of the store.\<close>

definition phase_own :: "string set \<Rightarrow> (string \<Rightarrow> string) \<Rightarrow> vstore \<Rightarrow> phase \<Rightarrow> bool" where
  "phase_own J u m p =
     (case p of
        Checking ds ta \<Rightarrow> DocID ` set (ta @ ds) \<subseteq> J \<and> distinct (map DocID (ta @ ds))
      | Embedding ta applied \<Rightarrow> DocID ` set ta \<subseteq> J \<and> bulk_done m ta applied
      | Upserting ta applied points \<Rightarrow> DocID ` set ta \<subseteq> J \<and> bulk_done m ta applied \<and>
          (\<exists>mv. list_all2 (\<lambda>d p. \<exists>v. p = point_of u mv d v) (upserts applied ta) points)
      | Deleting ta applied \<Rightarrow> DocID ` set ta \<subseteq> J \<and> bulk_done m ta applied
      | _ \<Rightarrow> True)"

definition points_ok :: "string set \<Rightarrow> (string \<Rightarrow> string) \<Rightarrow> (string \<rightharpoonup> point) \<Rightarrow> bool" where
  "points_ok I u q \<longleftrightarrow> (\<forall>k p. q k = Some p \<longrightarrow>
     (\<exists>i \<in> I. k = u i \<and> map_of (pt_Payload p) ''doc_id'' = Some (PStr i)))"

text \<open>One call: agreement on its documents, but for those in flight.\<close>

definition call_inv ::
  "string set \<Rightarrow> (string \<Rightarrow> string) \<Rightarrow> vstore \<Rightarrow> (string \<rightharpoonup> point) \<Rightarrow> phase \<Rightarrow> bool" where
  "call_inv J u m q p \<longleftrightarrow>
     phase_own J u m p \<and> (\<forall>i \<in> J. in_flight p i \<or> agree_at (m i) (q (u i)))"

lemma put_own:
  assumes inj: "inj_on u I" and sub: "DocID ` set ta \<subseteq> I" and bd: "bulk_done m ta applied"
    and ps: "list_all2 (\<lambda>d p. \<exists>v. p = point_of u mv d v) (upserts applied ta) ps" and wf: "points_ok I u q"
  shows "points_ok I u (put_points q ps)"
    and "i \<in> I \<Longrightarrow> i \<notin> applied \<Longrightarrow> put_points q ps (u i) = q (u i)"
    and "i \<in> I \<Longrightarrow> i \<in> applied \<Longrightarrow> i \<notin> set (deletes applied ta) \<Longrightarrow> agree_at (m i) (put_points q ps (u i))"
    and "i \<in> I \<Longrightarrow> i \<notin> DocID ` set ta \<Longrightarrow> put_points q ps (u i) = q (u i)"
proof -
  let ?ta = "filter (\<lambda>d. Op d \<noteq> OpDelete) ta"
  have up: "upserts applied ?ta = upserts applied ta" and de: "deletes applied ?ta = []"
    by (auto simp: upserts_def deletes_def intro: filter_cong)
  have dist: "distinct (map DocID ?ta)" using bd by (simp add: bulk_done_def distinct_map_filter)
  have sub': "DocID ` set ?ta \<subseteq> I" using sub by auto
  have "\<And>i. i \<in> I \<Longrightarrow> i \<notin> applied \<inter> DocID ` set ?ta \<Longrightarrow> put_points q ps (u i) = q (u i)"
    using written_points(3) [OF inj _ sub' dist, where mv = mv and applied = applied and ps = ps and q = q] ps wf
    by (simp add: up de points_ok_def)
  then show "put_points q ps (u i) = q (u i)" if "i \<in> I" "i \<notin> applied" for i using that by auto
  from \<open>\<And>i. i \<in> I \<Longrightarrow> i \<notin> applied \<inter> DocID ` set ?ta \<Longrightarrow> put_points q ps (u i) = q (u i)\<close>
  show "put_points q ps (u i) = q (u i)" if "i \<in> I" "i \<notin> DocID ` set ta" for i using that by auto
  show "agree_at (m i) (put_points q ps (u i))" if i: "i \<in> I" "i \<in> applied" "i \<notin> set (deletes applied ta)"
  proof -
    obtain d where d: "d \<in> set ta" "DocID d = i" using bd i(2) by (auto simp: bulk_done_def)
    then have ne: "Op d \<noteq> OpDelete" using i by (auto simp: deletes_def)
    then have "\<exists>v. put_points q ps (u i) = Some (point_of u mv d v)"
      using written_points(2) [OF inj i(1) sub' dist, where mv = mv and applied = applied and ps = ps and q = q and d = d] ps wf d i(2)
      by (simp add: up de points_ok_def)
    moreover have "m i = Some (doc_entry d)" using bd d i(2) by (auto simp: bulk_done_def)
    ultimately show ?thesis using ne by (auto simp: agree_at_def doc_entry_def)
  qed
  show "points_ok I u (put_points q ps)" unfolding points_ok_def
  proof (intro allI impI)
    fix k p assume "put_points q ps k = Some p"
    then consider "q k = Some p" | "p \<in> set ps" "pt_ID p = k" using put_points_Some by blast
    then show "\<exists>i \<in> I. k = u i \<and> map_of (pt_Payload p) ''doc_id'' = Some (PStr i)"
    proof cases
      case 1
      then show ?thesis using wf by (simp add: points_ok_def)
    next
      case 2
      then obtain d v where "d \<in> set (upserts applied ta)" "p = point_of u mv d v"
        using points_from [OF ps] by blast
      then show ?thesis using 2 sub by (auto simp: upserts_def)
    qed
  qed
qed

lemma drop_own:
  assumes inj: "inj_on u I" and sub: "DocID ` set ta \<subseteq> I" and bd: "bulk_done m ta applied"
    and wf: "points_ok I u q"
  defines "q' \<equiv> drop_points q (map (\<lambda>i. (''doc_id'', i)) (deletes applied ta))"
  shows "points_ok I u q'"
    and "i \<in> I \<Longrightarrow> i \<notin> set (deletes applied ta) \<Longrightarrow> q' (u i) = q (u i)"
    and "i \<in> I \<Longrightarrow> i \<in> set (deletes applied ta) \<Longrightarrow> agree_at (m i) (q' (u i))"
proof -
  have old: "map_of (pt_Payload p) ''doc_id'' = Some (PStr i)" if "q (u i) = Some p" "i \<in> I" for p i
    using wf that inj unfolding points_ok_def by (metis inj_onD)
  show "points_ok I u q'"
    using wf unfolding points_ok_def q'_def drop_points_def by (auto split: option.splits if_splits)
  show "q' (u i) = q (u i)" if "i \<in> I" "i \<notin> set (deletes applied ta)"
  proof (cases "q (u i)")
    case (Some p)
    then show ?thesis
      using matches_doc_id [OF old [OF Some that(1)]] that(2) by (simp add: q'_def drop_points_Some)
  qed (simp add: q'_def)
  show "agree_at (m i) (q' (u i))" if i: "i \<in> I" "i \<in> set (deletes applied ta)"
  proof -
    obtain d where d: "d \<in> set ta" "DocID d = i" "i \<in> applied" "Op d = OpDelete"
      using i(2) by (auto simp: deletes_def)
    then have "m i = Some (Version d, None)" using bd by (auto simp: bulk_done_def doc_entry_def)
    moreover have "q' (u i) = None"
    proof (cases "q (u i)")
      case (Some p)
      then show ?thesis
        using matches_doc_id [OF old [OF Some i(1)]] i(2) by (simp add: q'_def drop_points_Some)
    qed (simp add: q'_def)
    ultimately show ?thesis by (simp add: agree_at_def)
  qed
qed

definition healthy ::
  "('os \<Rightarrow> vstore) \<Rightarrow> ('qd \<Rightarrow> string \<rightharpoonup> point) \<Rightarrow> (string \<Rightarrow> string) \<Rightarrow> ('os, 'qd, 'r) deps \<Rightarrow> bool" where
  "healthy vos vqd u x \<longleftrightarrow> cluster_ok vos vqd x \<and> responsive x \<and> d_uuid5 x = u"

lemma upsert_responsive:
  "responsive x \<Longrightarrow> \<exists>q'. (if ps = [] then (None, q) else Upsert (d_upsert x) q ps) = (None, q')"
proof (cases "ps = []")
  case False
  assume "responsive x"
  then obtain q' where "d_upsert x q ps = (None, q')" unfolding responsive_def by blast
  with False show ?thesis by (simp add: Upsert_def)
qed simp

lemma delete_responsive:
  "responsive x \<Longrightarrow> \<exists>q'. (if ids = [] then (None, q) else DeleteByDocIDs (d_delete x) q ids) = (None, q')"
proof (cases "ids = []")
  case False
  assume "responsive x"
  then obtain q' where "d_delete x q (map (\<lambda>i. (''doc_id'', i)) ids) = (None, q')"
    unfolding responsive_def by blast
  with False show ?thesis by (simp add: DeleteByDocIDs_def)
qed simp

text \<open>An action of a call touches only documents of its own.\<close>

lemma call_step:
  assumes ok: "healthy vos vqd u x" and inj: "inj_on u I" and JI: "J \<subseteq> I"
    and inv: "call_inv J u (vos (w_os w)) (vqd (w_qd w)) p" and wf: "points_ok I u (vqd (w_qd w))"
    and st: "apply_step x (p, w) = (p', w')"
  shows "call_inv J u (vos (w_os w')) (vqd (w_qd w')) p' \<and> points_ok I u (vqd (w_qd w')) \<and>
    (\<forall>i \<in> I - J. vos (w_os w') i = vos (w_os w) i \<and> vqd (w_qd w') (u i) = vqd (w_qd w) (u i))"
proof -
  let ?m = "vos (w_os w)" and ?q = "vqd (w_qd w)"
  have dk: "deps_ok x vos vqd" and r: "responsive x" and u: "d_uuid5 x = u"
    using ok by (simp_all add: healthy_def cluster_ok_def services_ok_def)
  have quiet: ?thesis if "vos (w_os w') = ?m" "vqd (w_qd w') = ?q" "phase_own J u ?m p'"
      "\<And>i. in_flight p i \<Longrightarrow> in_flight p' i"
    using that inv wf by (auto simp: call_inv_def)
  show ?thesis
  proof (cases p)
    case (Checking ds ta)
    show ?thesis
    proof (cases ds)
      case (Cons d ds')
      have o: "phase_own J u ?m (Checking (d # ds') ta)" using inv Checking Cons by (simp add: call_inv_def)
      show ?thesis
      proof (rule quiet)
        show "phase_own J u ?m p'" using o st Checking Cons by (auto simp: phase_own_def split: if_splits)
      qed (use st Checking Cons in \<open>auto simp: in_flight_def split: if_splits\<close>)
    next
      case Nil
      show ?thesis
      proof (cases "ta = []")
        case True
        then show ?thesis
          by (intro quiet) (use st Checking Nil in \<open>auto simp: in_flight_def phase_own_def\<close>)
      next
        case False
        have own: "DocID ` set ta \<subseteq> J" "distinct (map DocID ta)"
          using inv Checking Nil by (auto simp: call_inv_def phase_own_def)
        obtain items s' where api: "d_bulk x (w_os w) (map bulk_op_of ta) = (Inr items, s')"
          and taken: "items_taken (map bulk_op_of ta) items"
          using r unfolding responsive_def by blast
        have ev: "external_versioning (d_bulk x) vos" using dk by (simp add: deps_ok_def)
        note b = Bulk_no_item_error [OF ev own(2) api False taken]
        note m' = Bulk_external(2) [OF ev own(2) b]
        have p': "p' = Embedding ta (applied_ids ?m ta)" "w_os w' = s'" "w_qd w' = w_qd w"
          using st Checking Nil False b by auto
        have bd: "bulk_done (vos s') ta (applied_ids ?m ta)"
          using own(2) applied_ids_subset applied_store_at [OF own(2), of _ ?m] applied_ids_iff [OF own(2), of _ ?m]
          by (auto simp: bulk_done_def m' doc_entry_def)
        have same: "vos s' i = ?m i" if "i \<notin> applied_ids ?m ta" for i
        proof (cases "i \<in> DocID ` set ta")
          case True
          then obtain d where "d \<in> set ta" "DocID d = i" by blast
          then show ?thesis
            using that applied_store_at [OF own(2), of d ?m] applied_ids_iff [OF own(2), of d ?m] by (auto simp: m')
        qed (simp add: m' applied_store_other)
        have "in_flight p' i \<or> agree_at (vos s' i) (?q (u i))" if "i \<in> J" for i
          using same [of i] inv that Checking unfolding p'(1) call_inv_def in_flight_def
          by (cases "i \<in> applied_ids ?m ta") auto
        then have "call_inv J u (vos s') ?q p'"
          using bd own(1) p'(1) by (simp add: call_inv_def phase_own_def)
        moreover have "vos s' i = ?m i" if "i \<in> I - J" for i
          using same [of i] that own(1) applied_ids_subset [of ?m ta] by blast
        ultimately show ?thesis using wf p'(2,3) by simp
      qed
    qed
  next
    case (Embedding ta applied)
    obtain ps where ps: "embed_points x (upserts applied ta) = Inr ps" using embed_points_responsive [OF r] by blast
    obtain mv where "list_all2 (\<lambda>d p. \<exists>v. p = point_of u mv d v) (upserts applied ta) ps"
      using embed_points_Inr [OF ps] u by blast
    then show ?thesis
      by (intro quiet) (use st ps Embedding inv in \<open>auto simp: call_inv_def phase_own_def in_flight_def\<close>)
  next
    case (Upserting ta applied ps)
    obtain q' where q': "(if ps = [] then (None, w_qd w) else Upsert (d_upsert x) (w_qd w) ps) = (None, q')"
      using upsert_responsive [OF r] by blast
    have v: "vqd q' = put_points ?q ps"
      using q' Upsert_ok [of "d_upsert x" vqd "w_qd w" ps q'] dk by (auto simp: deps_ok_def split: if_splits)
    have p': "p' = Deleting ta applied" "w_os w' = w_os w" "w_qd w' = q'"
      using st Upserting q' by auto
    obtain mv where mv: "list_all2 (\<lambda>d p. \<exists>v. p = point_of u mv d v) (upserts applied ta) ps"
      and bd: "bulk_done ?m ta applied" and sub: "DocID ` set ta \<subseteq> J"
      using inv Upserting by (auto simp: call_inv_def phase_own_def)
    have subI: "DocID ` set ta \<subseteq> I" using sub JI by blast
    note put = put_own [OF inj subI bd mv wf]
    have "in_flight p' i \<or> agree_at (?m i) (vqd q' (u i))" if "i \<in> J" for i
      using put(2) [OF subsetD [OF JI that]] put(3) [OF subsetD [OF JI that]] that inv Upserting unfolding v p'(1) call_inv_def in_flight_def
      by (cases "i \<in> applied") auto
    then show ?thesis using put(1,4) sub p' bd by (auto simp: call_inv_def phase_own_def v)
  next
    case (Deleting ta applied)
    obtain q' where q': "(if deletes applied ta = [] then (None, w_qd w)
        else DeleteByDocIDs (d_delete x) (w_qd w) (deletes applied ta)) = (None, q')"
      using delete_responsive [OF r] by blast
    have v: "vqd q' = drop_points ?q (map (\<lambda>i. (''doc_id'', i)) (deletes applied ta))"
      using q' DeleteByDocIDs_ok [of "d_delete x" vqd "w_qd w" "deletes applied ta" q'] dk
      by (auto simp: deps_ok_def split: if_splits)
    let ?ds = "filter (\<lambda>d. DocID d \<in> applied) ta"
    have p': "p' = Committing ?ds ?ds" "w_os w' = w_os w" "w_qd w' = q'"
      using st Deleting q' by (auto simp: Let_def split: if_splits)
    have bd: "bulk_done ?m ta applied" and sub: "DocID ` set ta \<subseteq> J"
      using inv Deleting by (auto simp: call_inv_def phase_own_def)
    have subI: "DocID ` set ta \<subseteq> I" using sub JI by blast
    note drop = drop_own [OF inj subI bd wf, folded v]
    have "agree_at (?m i) (vqd q' (u i))" if "i \<in> J" for i
      using drop(2) [OF subsetD [OF JI that]] drop(3) [OF subsetD [OF JI that]] that inv Deleting unfolding call_inv_def in_flight_def
      by (cases "i \<in> set (deletes applied ta)") auto
    moreover have "vqd q' (u i) = ?q (u i)" if "i \<in> I - J" for i
      using that drop(2) [of i] sub by (auto simp: deletes_def)
    ultimately show ?thesis using drop(1) p' by (auto simp: call_inv_def phase_own_def)
  next
    case (Committing ds ap)
    then show ?thesis by (intro quiet; cases ds) (use st in \<open>auto simp: in_flight_def phase_own_def\<close>)
  next
    case (Bumping ts)
    then show ?thesis by (intro quiet; cases ts) (use st in \<open>auto simp: in_flight_def phase_own_def\<close>)
  next
    case Idle
    then show ?thesis by (intro quiet) (use st in \<open>auto simp: in_flight_def phase_own_def\<close>)
  next
    case (Finished r)
    then show ?thesis by (intro quiet) (use st in \<open>auto simp: in_flight_def phase_own_def\<close>)
  qed
qed

subsection \<open>Lemmas: runs\<close>

text \<open>Each goroutine is handed documents of its own only, and none dies.\<close>

definition owned :: "string set \<Rightarrow> (string \<Rightarrow> nat) \<Rightarrow> event \<Rightarrow> bool" where
  "owned I own ev =
     (case ev of
        Advance k \<Rightarrow> True
      | Deliver k docs \<Rightarrow> \<forall>d \<in> set docs. DocID d \<in> I \<and> own (DocID d) = k
      | Crash \<Rightarrow> False)"

definition share :: "string set \<Rightarrow> (string \<Rightarrow> nat) \<Rightarrow> nat \<Rightarrow> string set" where
  "share I own k = {i \<in> I. own i = k}"

definition lanes_inv ::
  "string set \<Rightarrow> (string \<Rightarrow> nat) \<Rightarrow> (string \<Rightarrow> string) \<Rightarrow> ('os \<Rightarrow> vstore) \<Rightarrow>
   ('qd \<Rightarrow> string \<rightharpoonup> point) \<Rightarrow> ('os, 'qd, 'r) conc \<Rightarrow> bool" where
  "lanes_inv I own u vos vqd s \<longleftrightarrow>
     points_ok I u (vqd (w_qd (cc_world s))) \<and>
     (\<forall>k < length (cc_threads s). call_inv (share I own k) u (vos (w_os (cc_world s)))
        (vqd (w_qd (cc_world s))) (th_phase (cc_threads s ! k)))"

lemma share_sub: "share I own k \<subseteq> I"
  by (auto simp: share_def)

lemma phase_own_cong:
  assumes "phase_own J u m p" "\<And>i. i \<in> J \<Longrightarrow> m' i = m i"
  shows "phase_own J u m' p"
proof -
  have "bulk_done m' ta applied" if "bulk_done m ta applied" "DocID ` set ta \<subseteq> J" for ta applied
    using that assms(2) by (fastforce simp: bulk_done_def)
  then show ?thesis using assms(1) by (cases p) (auto simp: phase_own_def)
qed

lemma call_inv_cong:
  assumes "call_inv J u m q p" "\<And>i. i \<in> J \<Longrightarrow> m' i = m i" "\<And>i. i \<in> J \<Longrightarrow> q' (u i) = q (u i)"
  shows "call_inv J u m' q' p"
  using assms phase_own_cong [of J u m p m'] by (simp add: call_inv_def)

lemma lanes_step:
  assumes st: "conc_step (healthy vos vqd u) s ev t" and ev: "owned I own ev"
    and inj: "inj_on u I" and inv: "lanes_inv I own u vos vqd s"
  shows "lanes_inv I own u vos vqd t"
  using st
proof (cases rule: conc_step.cases)
  case (Advanced x k)
  define th where "th = cc_threads s ! k"
  obtain p w where a: "apply_step x (th_phase th, cc_world s) = (p, w)" by fastforce
  have t: "cc_threads t = (cc_threads s)[k := th\<lparr>th_phase := p\<rparr>]" "cc_world t = w"
    using Advanced a by (simp_all add: advance_def th_def Let_def)
  have c: "call_inv (share I own k) u (vos (w_os (cc_world s))) (vqd (w_qd (cc_world s))) (th_phase th)"
    and wf: "points_ok I u (vqd (w_qd (cc_world s)))"
    using inv Advanced by (simp_all add: lanes_inv_def th_def)
  note c' = call_step [OF Advanced(3) inj share_sub c wf a]
  have "call_inv (share I own l) u (vos (w_os w)) (vqd (w_qd w)) (th_phase (cc_threads t ! l))"
    if l: "l < length (cc_threads t)" for l
  proof (cases "l = k")
    case True
    then show ?thesis using c' t Advanced by simp
  next
    case False
    have o: "call_inv (share I own l) u (vos (w_os (cc_world s))) (vqd (w_qd (cc_world s))) (th_phase (cc_threads s ! l))"
      using inv l t by (simp add: lanes_inv_def)
    have "i \<in> I - share I own k" if "i \<in> share I own l" for i using that False by (auto simp: share_def)
    then have "call_inv (share I own l) u (vos (w_os w)) (vqd (w_qd w)) (th_phase (cc_threads s ! l))"
      by (intro call_inv_cong [OF o]) (use c' in auto)
    then show ?thesis using False t by simp
  qed
  then show ?thesis using c' t by (simp add: lanes_inv_def)
next
  case (Delivered x k docs)
  let ?m = "vos (w_os (cc_world s))" and ?q = "vqd (w_qd (cc_world s))"
  have r: "range_ok (d_range x)" using Delivered by (simp add: healthy_def cluster_ok_def services_ok_def deps_ok_def)
  have c: "call_inv (share I own k) u ?m ?q (th_phase (cc_threads s ! k))"
    using inv Delivered by (simp add: lanes_inv_def)
  have idle: "\<not> in_flight (th_phase (cc_threads s ! k)) i" for i
    using Delivered(5) by (auto simp: busy_def in_flight_def split: phase.splits)
  have "DocID ` set (visited (d_range x) docs) \<subseteq> share I own k"
    using visited_subset [OF r, of docs] ev Delivered(1) by (fastforce simp: owned_def share_def)
  then have "call_inv (share I own k) u ?m ?q (start x docs)"
    using c idle distinct_visited [OF r, of docs] by (simp add: call_inv_def start_def phase_own_def)
  then show ?thesis using inv Delivered by (auto simp: lanes_inv_def deliver_def nth_list_update)
next
  case Crashed
  then show ?thesis using ev by (simp add: owned_def)
qed

lemma lanes_run:
  assumes "conc_run (healthy vos vqd u) s evs t" "list_all (owned I own) evs" "inj_on u I"
    and "lanes_inv I own u vos vqd s"
  shows "lanes_inv I own u vos vqd t \<and> length (cc_threads t) = length (cc_threads s)"
  using assms
proof (induction rule: conc_run.induct)
  case (Step evs t ev v)
  then have "lanes_inv I own u vos vqd t" "length (cc_threads t) = length (cc_threads s)" by auto
  moreover have "length (cc_threads v) = length (cc_threads t)"
    using Step.hyps(2) by cases (simp_all add: advance_def deliver_def crash_def Let_def split_def)
  ultimately show ?case using lanes_step [OF Step.hyps(2)] Step.prems by simp
qed simp

lemma lanes_init:
  assumes "stores_agree I u (vos (w_os w)) (vqd (w_qd w))"
  shows "lanes_inv I own u vos vqd (conc_init n w)"
  using assms
  by (auto simp: lanes_inv_def conc_init_def call_inv_def phase_own_def points_ok_def stores_agree_def share_def)

lemma lanes_agree:
  assumes "lanes_inv I own u vos vqd s" "own ` I \<subseteq> {..<length (cc_threads s)}"
    and "\<And>th. th \<in> set (cc_threads s) \<Longrightarrow> \<not> busy (th_phase th)"
  shows "stores_agree I u (vos (w_os (cc_world s))) (vqd (w_qd (cc_world s)))"
proof -
  have "agree_at (vos (w_os (cc_world s)) i) (vqd (w_qd (cc_world s)) (u i))" if "i \<in> I" for i
  proof -
    let ?k = "own i"
    have k: "?k < length (cc_threads s)" using assms(2) that by auto
    then have "\<not> busy (th_phase (cc_threads s ! ?k))" using assms(3) by simp
    then have "\<not> in_flight (th_phase (cc_threads s ! ?k)) i"
      by (auto simp: busy_def in_flight_def split: phase.splits)
    moreover have "call_inv (share I own ?k) u (vos (w_os (cc_world s))) (vqd (w_qd (cc_world s))) (th_phase (cc_threads s ! ?k))"
      using assms(1) k by (simp add: lanes_inv_def)
    ultimately show ?thesis using that unfolding call_inv_def share_def by blast
  qed
  then show ?thesis using assms(1) by (simp add: lanes_inv_def points_ok_def stores_agree_def)
qed

subsection \<open>Lemmas: schedules\<close>

lemma conc_run_trans: "conc_run ok t evs' v \<Longrightarrow> conc_run ok s evs t \<Longrightarrow> conc_run ok s (evs @ evs') v"
  by (induction rule: conc_run.induct) (auto simp flip: append_assoc intro: conc_run.intros)

lemma conc_run_one: "conc_step ok s ev t \<Longrightarrow> conc_run ok s [ev] t"
  using conc_run.Step [OF conc_run.Start] by fastforce

lemma idle_fixed: "\<not> busy p \<Longrightarrow> (apply_step x ^^ n) (p, w) = (p, w)"
  by (induction n) (auto simp: busy_def split: phase.splits)

text \<open>A goroutine scheduled without interruption does what it does alone.\<close>

lemma conc_run_alone:
  assumes "(apply_step x ^^ n) (th_phase (cc_threads s ! k), cc_world s) = (p', w')"
    and "k < length (cc_threads s)"
  shows "\<exists>evs t. conc_run (\<lambda>y. y = x) s evs t \<and> cc_world t = w' \<and>
    cc_threads t = (cc_threads s)[k := (cc_threads s ! k)\<lparr>th_phase := p'\<rparr>] \<and> set evs \<subseteq> {Advance k} \<and>
    length evs \<le> n"
  using assms
proof (induction n arbitrary: s)
  case 0
  then show ?case by (intro exI [of _ "[]"] exI [of _ s]) (auto intro: conc_run.Start)
next
  case (Suc n)
  let ?p = "th_phase (cc_threads s ! k)"
  show ?case
  proof (cases "busy ?p")
    case False
    then have "p' = ?p" "w' = cc_world s" using Suc.prems(1) idle_fixed [of ?p "Suc n" x] by auto
    then show ?thesis by (intro exI [of _ "[]"] exI [of _ s]) (auto intro: conc_run.Start)
  next
    case True
    let ?t = "advance x k s"
    have step: "conc_step (\<lambda>y. y = x) s (Advance k) ?t" using True Suc.prems(2) by (auto intro: conc_step.intros)
    obtain p1 w1 where a: "apply_step x (?p, cc_world s) = (p1, w1)" by fastforce
    have t: "cc_threads ?t = (cc_threads s)[k := (cc_threads s ! k)\<lparr>th_phase := p1\<rparr>]" "cc_world ?t = w1"
      using a by (simp_all add: advance_def Let_def)
    have "(apply_step x ^^ n) (p1, w1) = (p', w')"
      using Suc.prems(1) a by (simp add: funpow_Suc_right del: funpow.simps)
    then obtain evs v where v: "conc_run (\<lambda>y. y = x) ?t evs v" "cc_world v = w'"
      "cc_threads v = (cc_threads ?t)[k := (cc_threads ?t ! k)\<lparr>th_phase := p'\<rparr>]" "set evs \<subseteq> {Advance k}"
      "length evs \<le> n"
      using Suc.IH [of ?t] t Suc.prems(2) by auto
    show ?thesis
      by (intro exI [of _ "[Advance k] @ evs"] exI [of _ v] conjI conc_run_trans [OF v(1)] conc_run_one step)
        (use v t Suc.prems(2) in simp_all)
  qed
qed

lemma conc_run_reaches:
  assumes "reaches x (th_phase (cc_threads s ! k), cc_world s) (p', w')" "k < length (cc_threads s)"
  obtains evs t where "conc_run (\<lambda>y. y = x) s evs t" "cc_world t = w'"
    "cc_threads t = (cc_threads s)[k := (cc_threads s ! k)\<lparr>th_phase := p'\<rparr>]" "set evs \<subseteq> {Advance k}"
  using assms conc_run_alone unfolding reaches_def by blast

lemma visited_single: "range_ok order \<Longrightarrow> visited order [d] = [d]"
proof -
  assume "range_ok order"
  then have "mset (order [DocID d]) = {#DocID d#}" unfolding range_ok_def by simp
  then have "order [DocID d] = [DocID d]" by (simp add: mset_single_iff_right)
  then show ?thesis by (simp add: visited_def newestByDoc_def newest_step_def map_filter_simps)
qed

subsection \<open>Lemmas: two lanes on one document\<close>

text \<open>The first half of a call, up to the vector store.\<close>

lemma reaches_upserting:
  assumes ok: "cluster_ok vos vqd x" "responsive x" and gs: "guard_sound (w_guard w) (vos (w_os w))"
    and d: "Op d \<noteq> OpDelete" "newer (vos (w_os w)) (DocID d) (Version d)"
  obtains w' mv v where
    "reaches x (start x [d], w) (Upserting [d] {DocID d} [point_of (d_uuid5 x) mv d v], w')"
    "vos (w_os w') = (vos (w_os w))(DocID d \<mapsto> doc_entry d)" "w_guard w' = w_guard w"
proof -
  let ?m = "vos (w_os w)"
  have ev: "external_versioning (d_bulk x) vos" and rg: "range_ok (d_range x)"
    using ok(1) by (simp_all add: cluster_ok_def services_ok_def deps_ok_def)
  have sa: "ShouldApply (w_guard w) (DocID d) (Version d)"
    using guard_refuses [OF gs] d(2) by (auto simp: superseded_def)
  obtain items s' where api: "d_bulk x (w_os w) (map bulk_op_of [d]) = (Inr items, s')"
    and taken: "items_taken (map bulk_op_of [d]) items"
    using ok(2) unfolding responsive_def by blast
  have dist: "distinct (map DocID [d])" by simp
  have app: "applied_ids ?m [d] = {DocID d}" using d(2) by (auto simp: applied_ids_def)
  note b = Bulk_no_item_error [OF ev dist api _ taken, simplified, unfolded app]
  note m' = Bulk_external(2) [OF ev dist b]
  let ?w = "add_metric [BulkWriteSeconds ''opensearch'' (d_elapsed x ''opensearch'')] (w\<lparr>w_os := s'\<rparr>)"
  obtain ps where ps: "embed_points x [d] = Inr ps" using embed_points_responsive [OF ok(2)] by blast
  obtain mv where "list_all2 (\<lambda>d p. \<exists>v. p = point_of (d_uuid5 x) mv d v) [d] ps"
    using embed_points_Inr [OF ps] by blast
  then obtain v where v: "ps = [point_of (d_uuid5 x) mv d v]" by (auto simp: list_all2_Cons1)
  have "upserts {DocID d} [d] = [d]" using d(1) by (simp add: upserts_def)
  then have e: "apply_step x (Embedding [d] {DocID d}, ?w) = (Upserting [d] {DocID d} ps, ?w)" using ps by simp
  have c: "apply_step x (Checking [] [d], w) = (Embedding [d] {DocID d}, ?w)" using b by simp
  have s: "apply_step x (start x [d], w) = (Checking [] [d], w)"
    using sa visited_single [OF rg] by (simp add: start_def)
  have "reaches x (start x [d], w) (Upserting [d] {DocID d} [point_of (d_uuid5 x) mv d v], ?w)"
    using reaches_via [OF s reaches_via [OF c reaches_one [OF e]]] v by simp
  moreover have "vos (w_os ?w) = ?m(DocID d \<mapsto> doc_entry d)"
    using m' d by (auto simp: applied_store_def ext_apply_def doc_entry_def)
  ultimately show ?thesis by (rule that) simp
qed

text \<open>The second half: it writes the point it computed, whatever happened meanwhile.\<close>

lemma reaches_upserted:
  assumes ok: "cluster_ok vos vqd x" "responsive x" and d: "Op d \<noteq> OpDelete"
  obtains w' where "reaches x (Upserting [d] A [pt], w) (Finished None, w')"
    "w_os w' = w_os w" "vqd (w_qd w') = (vqd (w_qd w))(pt_ID pt \<mapsto> pt)"
proof -
  obtain q' where q': "d_upsert x (w_qd w) [pt] = (None, q')" using ok(2) unfolding responsive_def by blast
  have us: "upsert_spec (d_upsert x) vqd" using ok(1) by (simp add: cluster_ok_def services_ok_def deps_ok_def)
  have v: "vqd q' = (vqd (w_qd w))(pt_ID pt \<mapsto> pt)"
    using us q' unfolding upsert_spec_def by (auto simp: put_points_Cons)
  let ?ds = "filter (\<lambda>d. DocID d \<in> A) [d]"
  let ?w1 = "w\<lparr>w_qd := q'\<rparr>"
  let ?w2 = "add_metric [BulkWriteSeconds ''qdrant'' (d_elapsed x ''qdrant'')] ?w1"
  have u: "apply_step x (Upserting [d] A [pt], w) = (Deleting [d] A, ?w1)"
    using q' by (simp add: Upsert_def)
  have "deletes A [d] = []" using d by (simp add: deletes_def)
  then have de: "apply_step x (Deleting [d] A, ?w1) = (Committing ?ds ?ds, ?w2)"
    by (simp add: Let_def)
  note c = reaches_committing [of x ?ds ?ds ?w2]
  note bu = reaches_via [OF apply_step.simps(8) reaches_bumping]
  note all = reaches_via [OF u reaches_via [OF de reaches_trans [OF c bu]]]
  show ?thesis by (rule that [OF all]) (simp_all add: v)
qed

lemma lanes_diverge:
  fixes old new :: canonical_doc
  assumes ok: "cluster_ok vos vqd x" "responsive x" and gs: "guard_sound (w_guard w) (vos (w_os w))"
    and d: "DocID old = i" "DocID new = i" "Version old < Version new" "Op old \<noteq> OpDelete"
    and fresh: "newer (vos (w_os w)) i (Version old)"
  shows "\<exists>evs s p. conc_run (\<lambda>y. y = x) (conc_init 2 w) evs s \<and>
    map th_phase (cc_threads s) = [Finished None, Finished None] \<and>
    vos (w_os (cc_world s)) i = Some (doc_entry new) \<and>
    vqd (w_qd (cc_world s)) (d_uuid5 x i) = Some p \<and>
    map_of (pt_Payload p) ''version'' = Some (PInt (Version old))"
proof -
  let ?s0 = "conc_init 2 w"
  let ?s1 = "deliver x 0 [old] ?s0"
  let ?s2 = "deliver x 1 [new] ?s1"
  have s0: "conc_step (\<lambda>y. y = x) ?s0 (Deliver 0 [old]) ?s1" "conc_step (\<lambda>y. y = x) ?s1 (Deliver 1 [new]) ?s2"
    by (rule conc_step.Delivered; simp add: conc_init_def deliver_def busy_def eval_nat_numeral)+
  note run2 = conc_run_trans [OF conc_run_one [OF s0(2)] conc_run_one [OF s0(1)]]
  have t2: "cc_threads ?s2 = [\<lparr>th_docs = [old], th_phase = start x [old]\<rparr>, \<lparr>th_docs = [new], th_phase = start x [new]\<rparr>]"
    "cc_world ?s2 = w"
    by (simp_all add: conc_init_def deliver_def eval_nat_numeral)
  obtain w1 mv v where w1: "reaches x (start x [old], w) (Upserting [old] {i} [point_of (d_uuid5 x) mv old v], w1)"
    "vos (w_os w1) = (vos (w_os w))(i \<mapsto> doc_entry old)" "w_guard w1 = w_guard w"
    using reaches_upserting [OF ok gs d(4)] fresh d(1) by metis
  let ?p = "point_of (d_uuid5 x) mv old v"
  obtain evs3 s3 where s3: "conc_run (\<lambda>y. y = x) ?s2 evs3 s3" "cc_world s3 = w1"
    "cc_threads s3 = (cc_threads ?s2)[0 := (cc_threads ?s2 ! 0)\<lparr>th_phase := Upserting [old] {i} [?p]\<rparr>]"
    by (rule conc_run_reaches [where k = 0 and s = ?s2 and x = x and p' = "Upserting [old] {i} [?p]" and w' = w1])
      (use w1(1) t2 in simp_all)
  have gs1: "guard_sound (w_guard w1) (vos (w_os w1))"
  proof -
    have "store_grows (vos (w_os w)) (vos (w_os w1))"
      using fresh unfolding store_grows_def w1(2) by (auto simp: newer_def doc_entry_def split: option.splits)
    then show ?thesis using gs guard_sound_grows unfolding w1(3) by blast
  qed
  have dk: "deps_ok x vos vqd" using ok(1) by (simp add: cluster_ok_def services_ok_def)
  obtain w2 where b: "apply_batch x w1 [new] = (None, w2)" using apply_batch_succeeds [OF dk ok(2)] by blast
  have os2: "vos (w_os w2) i = Some (doc_entry new)"
    using apply_batch_sequential [OF dk gs1 b] d w1(2)
    by (auto simp: sequential_def ext_apply_def newer_def doc_entry_def)
  obtain evs4 s4 where s4: "conc_run (\<lambda>y. y = x) s3 evs4 s4" "cc_world s4 = w2"
    "cc_threads s4 = (cc_threads s3)[1 := (cc_threads s3 ! 1)\<lparr>th_phase := Finished None\<rparr>]"
    by (rule conc_run_reaches [where k = 1 and s = s3 and x = x and p' = "Finished None" and w' = w2])
      (use reaches_apply_batch [of x "[new]" w1] b t2 s3 in simp_all)
  obtain w3 where w3: "reaches x (Upserting [old] {i} [?p], w2) (Finished None, w3)"
    "w_os w3 = w_os w2" "vqd (w_qd w3) = (vqd (w_qd w2))(pt_ID ?p \<mapsto> ?p)"
    by (rule reaches_upserted [OF ok d(4)])
  obtain evs5 s5 where s5: "conc_run (\<lambda>y. y = x) s4 evs5 s5" "cc_world s5 = w3"
    "cc_threads s5 = (cc_threads s4)[0 := (cc_threads s4 ! 0)\<lparr>th_phase := Finished None\<rparr>]"
    by (rule conc_run_reaches [where k = 0 and s = s4 and x = x and p' = "Finished None" and w' = w3])
      (use w3(1) t2 s3 s4 in simp_all)
  show ?thesis
  proof (intro exI conjI)
    show "conc_run (\<lambda>y. y = x) ?s0 (((([Deliver 0 [old]] @ [Deliver 1 [new]]) @ evs3) @ evs4) @ evs5) s5"
      by (rule conc_run_trans [OF s5(1) conc_run_trans [OF s4(1) conc_run_trans [OF s3(1) run2]]])
    show "vqd (w_qd (cc_world s5)) (d_uuid5 x i) = Some ?p" using w3(3) s5(2) d(1) by simp
  qed (use s5 s4 s3 t2 w3 os2 d(1) in simp_all)
qed

lemma conc_run_mono:
  "conc_run P s evs t \<Longrightarrow> (\<And>x. P x \<Longrightarrow> Q x) \<Longrightarrow> conc_run Q s evs t"
  by (induction rule: conc_run.induct) (auto intro!: conc_run.intros elim!: conc_stepE intro: conc_step.intros)

lemma finished_acked:
  assumes "conc_run ok (conc_init n w) evs s"
  shows "th \<in> set (cc_threads s) \<Longrightarrow> th_phase th = Finished None \<Longrightarrow> set (th_docs th) \<subseteq> set (cc_acked s)"
  using assms
proof (induction arbitrary: th rule: conc_run.induct)
  case Start
  then show ?case by (auto simp: conc_init_def)
next
  case (Step evs t ev u)
  from Step.hyps(2) show ?case
  proof (cases rule: conc_step.cases)
    case (Advanced x i)
    obtain p w' where a: "apply_step x (th_phase (cc_threads t ! i), cc_world t) = (p, w')" by fastforce
    have "th \<in> set (cc_threads t) \<or> th = (cc_threads t ! i)\<lparr>th_phase := p\<rparr>"
      using Step.prems(1) Advanced a set_update_subset_insert by (fastforce simp: advance_def Let_def)
    then show ?thesis using Step.IH [of th] Step.prems(2) Advanced a by (auto simp: advance_def Let_def)
  next
    case (Delivered x i docs)
    have "th \<in> set (cc_threads t) \<or> th = \<lparr>th_docs = docs, th_phase = start x docs\<rparr>"
      using Step.prems(1) Delivered set_update_subset_insert by (fastforce simp: deliver_def)
    then show ?thesis using Step.IH [of th] Step.prems(2) Delivered by (auto simp: deliver_def start_def)
  next
    case Crashed
    then show ?thesis using Step.prems by (auto simp: crash_def)
  qed
qed

lemma ext_entries:
  "foldl ext_apply m ops i = m i \<or> (\<exists>op \<in> set ops. op_id op = i \<and> foldl ext_apply m ops i = Some (op_version op, op_result op))"
proof (induction ops arbitrary: m)
  case (Cons op ops)
  have "ext_apply m op i = m i \<or> op_id op = i \<and> ext_apply m op i = Some (op_version op, op_result op)"
    by (simp add: ext_apply_def)
  then show ?case using Cons [of "ext_apply m op"] by fastforce
qed simp

lemma cluster_ok_ref: "cluster_ok (\<lambda>m. m) (\<lambda>m. m) ref_deps"
proof -
  have "services_ok (\<lambda>m. m) (\<lambda>m. m) ref_deps" by (rule services_ok_ref)
  moreover have "s' i = s i \<or> (\<exists>op \<in> set ops. op_id op = i \<and> s' i = Some (op_version op, op_result op))"
    if "d_bulk ref_deps s ops = (r, s')" for s ops r s' i
    using that ext_entries [of s ops i] snd_ext_bulk [of s ops]
    by (auto simp: ref_deps_def ext_api_def Let_def split: prod.splits)
  ultimately show ?thesis unfolding cluster_ok_def by blast
qed

lemma healthy_ref: "healthy (\<lambda>m. m) (\<lambda>m. m) (\<lambda>s. s) ref_deps"
  using cluster_ok_ref responsive_ref by (simp add: healthy_def ref_deps_def)

text \<open>A goroutine alone on one batch, from start to end.\<close>

lemma run_one_batch:
  assumes ok: "deps_ok x vos vqd" "responsive x" and k: "k < length (cc_threads s)"
    and idle: "\<not> busy (th_phase (cc_threads s ! k))"
  obtains evs t w' where "conc_run (\<lambda>y. y = x) s (Deliver k docs # evs) t"
    "apply_batch x (cc_world s) docs = (None, w')" "cc_world t = w'"
    "cc_threads t = (cc_threads s)[k := \<lparr>th_docs = docs, th_phase = Finished None\<rparr>]"
    "set evs \<subseteq> {Advance k}"
proof -
  let ?s = "deliver x k docs s"
  have st: "conc_step (\<lambda>y. y = x) s (Deliver k docs) ?s" by (rule conc_step.Delivered) (use k idle in simp_all)
  have t: "cc_threads ?s = (cc_threads s)[k := \<lparr>th_docs = docs, th_phase = start x docs\<rparr>]" "cc_world ?s = cc_world s"
    by (simp_all add: deliver_def)
  obtain w' where b: "apply_batch x (cc_world s) docs = (None, w')" using apply_batch_succeeds [OF ok] by blast
  have "reaches x (th_phase (cc_threads ?s ! k), cc_world ?s) (Finished None, w')"
    using reaches_apply_batch [of x docs "cc_world s"] b k by (simp add: t)
  moreover have "k < length (cc_threads ?s)" using k by (simp add: t)
  ultimately obtain evs u where u: "conc_run (\<lambda>y. y = x) ?s evs u" "cc_world u = w'"
    "cc_threads u = (cc_threads ?s)[k := (cc_threads ?s ! k)\<lparr>th_phase := Finished None\<rparr>]" "set evs \<subseteq> {Advance k}"
    by (rule conc_run_reaches)
  have "conc_run (\<lambda>y. y = x) s (Deliver k docs # evs) u"
    using conc_run_trans [OF u(1) conc_run_one [OF st]] by simp
  then show ?thesis using that b u k t by simp
qed

subsection \<open>Properties\<close>

text \<open>C16: cutting \<open>apply\<close> into its accesses to shared state is faithful: a goroutine that is not
  interrupted takes the actions one by one and ends with the error and the state of \<open>apply\<close>.
\<close>

theorem apply_steps_alone:
  "\<exists>n. (apply_step x ^^ n) (start x docs, w) =
     (Finished (fst (apply_batch x w docs)), snd (apply_batch x w docs))"
  using reaches_apply_batch unfolding reaches_def .

text \<open>C13: OpenSearch and the guard are safe under every interleaving of any number of goroutines, with
  failed calls, retries and crashes: the document of every call that returned nil is in the
  index or superseded there, every entry was there before or is that of a document some call was
  handed, and the guard never runs ahead of the index.
\<close>

theorem concurrent_writes_safe:
  assumes "conc_run (cluster_ok vos vqd) (conc_init n w) evs s"
    and "guard_sound (w_guard w) (vos (w_os w))"
  shows "(\<forall>d \<in> set (cc_acked s). superseded (vos (w_os (cc_world s))) d) \<and>
    (\<forall>i e. vos (w_os (cc_world s)) i = Some e \<longrightarrow>
       vos (w_os w) i = Some e \<or> (\<exists>d \<in> set (cc_sent s). DocID d = i \<and> e = doc_entry d)) \<and>
    guard_sound (w_guard (cc_world s)) (vos (w_os (cc_world s)))"
  using conc_run_inv [OF assms(1) conc_inv_init [where vos = vos and w = w, OF assms(2)]]
  unfolding conc_inv_def stored_from_def by blast

theorem concurrent_writes_safe_witness:
  "\<exists>evs s. conc_run (cluster_ok (\<lambda>m. m) (\<lambda>m. m)) (conc_init 2 ref_world) evs s \<and>
     ex_doc ''a'' 3 OpUpsert \<in> set (cc_acked s) \<and>
     superseded (w_os (cc_world s)) (ex_doc ''a'' 3 OpUpsert)"
proof -
  let ?d = "ex_doc ''a'' 3 OpUpsert"
  obtain evs s w' where s: "conc_run (\<lambda>y. y = ref_deps) (conc_init 2 ref_world) (Deliver 0 [?d] # evs) s"
    "cc_threads s = (cc_threads (conc_init 2 ref_world))[0 := \<lparr>th_docs = [?d], th_phase = Finished None\<rparr>]"
    by (rule run_one_batch [OF deps_ok_ref responsive_ref, where k = 0 and s = "conc_init 2 ref_world" and docs = "[?d]"])
      (auto simp: conc_init_def busy_def)
  have "?d \<in> set (cc_acked s)"
    using finished_acked [OF s(1), of "\<lparr>th_docs = [?d], th_phase = Finished None\<rparr>"] s(2) by (simp add: conc_init_def eval_nat_numeral)
  moreover have run: "conc_run (cluster_ok (\<lambda>m. m) (\<lambda>m. m)) (conc_init 2 ref_world) (Deliver 0 [?d] # evs) s"
    by (rule conc_run_mono [OF s(1)]) (simp add: cluster_ok_ref)
  moreover have "guard_sound (w_guard ref_world) (w_os ref_world)" by (simp add: ref_world_def)
  ultimately show ?thesis using concurrent_writes_safe [OF run] by blast
qed

text \<open>C15: the vector store is not safe. If the lanes hold two versions of one document at the same time (a
  row whose tier changed), both calls can return nil and leave the newer version in OpenSearch and
  the older one in Qdrant: the lane with the older version passes OpenSearch first and reaches Qdrant
  last. Nothing repairs it, as both documents count as applied.
\<close>

theorem concurrent_lanes_diverge:
  fixes old new :: canonical_doc
  assumes "cluster_ok vos vqd x" "responsive x" "guard_sound (w_guard w) (vos (w_os w))"
    and "DocID old = i" "DocID new = i" "Version old < Version new" "Op old \<noteq> OpDelete"
    and "newer (vos (w_os w)) i (Version old)"
  shows "\<exists>evs s p. conc_run (\<lambda>y. y = x) (conc_init 2 w) evs s \<and>
    map th_phase (cc_threads s) = [Finished None, Finished None] \<and>
    vos (w_os (cc_world s)) i = Some (doc_entry new) \<and>
    vqd (w_qd (cc_world s)) (d_uuid5 x i) = Some p \<and>
    map_of (pt_Payload p) ''version'' = Some (PInt (Version old))"
  using assms by (rule lanes_diverge)

theorem concurrent_lanes_diverge_witness:
  "\<exists>evs s p. conc_run (\<lambda>y. y = ref_deps) (conc_init 2 ref_world) evs s \<and>
    w_os (cc_world s) ''a'' = Some (doc_entry (ex_doc ''a'' 2 OpUpsert)) \<and>
    w_qd (cc_world s) ''a'' = Some p \<and> map_of (pt_Payload p) ''version'' = Some (PInt 1)"
proof -
  have g: "guard_sound (w_guard ref_world) (w_os ref_world)" by (simp add: ref_world_def)
  have "newer (w_os ref_world) ''a'' (Version (ex_doc ''a'' 1 OpUpsert))" by (simp add: ref_world_def newer_def)
  then obtain evs s p where "conc_run (\<lambda>y. y = ref_deps) (conc_init 2 ref_world) evs s"
    "w_os (cc_world s) ''a'' = Some (doc_entry (ex_doc ''a'' 2 OpUpsert))"
    "w_qd (cc_world s) (d_uuid5 ref_deps ''a'') = Some p"
    "map_of (pt_Payload p) ''version'' = Some (PInt (Version (ex_doc ''a'' 1 OpUpsert)))"
    using concurrent_lanes_diverge [OF cluster_ok_ref responsive_ref g, of "ex_doc ''a'' 1 OpUpsert" "''a''" "ex_doc ''a'' 2 OpUpsert"]
    by (auto simp: ex_doc_def OpUpsert_def OpDelete_def)
  moreover have "d_uuid5 ref_deps ''a'' = ''a''" "Version (ex_doc ''a'' 1 OpUpsert) = 1" by (simp_all add: ref_deps_def ex_doc_def)
  ultimately show ?thesis by metis
qed

text \<open>C14: the race needs a shared document. If every document belongs to one goroutine, every call to a service
  succeeds, the process does not die, and OpenSearch and Qdrant agreed at the start, then under every interleaving they agree whenever no call is under way. (After a failed
  embedding they need not: \<open>retry_after_embed_failure_skips_qdrant\<close>.)
\<close>

theorem separate_lanes_agree:
  assumes "conc_run (healthy vos vqd u) (conc_init n w) evs s" "list_all (owned I own) evs"
    and "inj_on u I" "own ` I \<subseteq> {..<n}"
    and "stores_agree I u (vos (w_os w)) (vqd (w_qd w))"
    and "\<And>th. th \<in> set (cc_threads s) \<Longrightarrow> \<not> busy (th_phase th)"
  shows "stores_agree I u (vos (w_os (cc_world s))) (vqd (w_qd (cc_world s)))"
proof -
  have "lanes_inv I own u vos vqd s" "length (cc_threads s) = n"
    using lanes_run [OF assms(1-3) lanes_init [where vos = vos and vqd = vqd and w = w, OF assms(5)]] by (auto simp: conc_init_def)
  then show ?thesis using lanes_agree assms(4,6) by metis
qed

theorem separate_lanes_agree_witness:
  "\<exists>evs s. conc_run (healthy (\<lambda>m. m) (\<lambda>m. m) (\<lambda>s. s)) (conc_init 2 ref_world) evs s \<and>
     ex_doc ''a'' 3 OpUpsert \<in> set (cc_acked s) \<and>
     stores_agree {''a'', ''b''} (\<lambda>s. s) (w_os (cc_world s)) (w_qd (cc_world s))"
proof -
  let ?d = "ex_doc ''a'' 3 OpUpsert" and ?own = "\<lambda>i. if i = ''a'' then 0 else 1 :: nat"
  obtain evs s w' where s: "conc_run (\<lambda>y. y = ref_deps) (conc_init 2 ref_world) (Deliver 0 [?d] # evs) s"
    "cc_threads s = (cc_threads (conc_init 2 ref_world))[0 := \<lparr>th_docs = [?d], th_phase = Finished None\<rparr>]"
    "set evs \<subseteq> {Advance 0}"
    by (rule run_one_batch [OF deps_ok_ref responsive_ref, where k = 0 and s = "conc_init 2 ref_world" and docs = "[?d]"])
      (auto simp: conc_init_def busy_def)
  have ack: "?d \<in> set (cc_acked s)"
    using finished_acked [OF s(1), of "\<lparr>th_docs = [?d], th_phase = Finished None\<rparr>"] s(2) by (simp add: conc_init_def eval_nat_numeral)
  have run: "conc_run (healthy (\<lambda>m. m) (\<lambda>m. m) (\<lambda>s. s)) (conc_init 2 ref_world) (Deliver 0 [?d] # evs) s"
    by (rule conc_run_mono [OF s(1)]) (simp add: healthy_ref)
  have "stores_agree {''a'', ''b''} (\<lambda>s. s) (w_os (cc_world s)) (w_qd (cc_world s))"
  proof (rule separate_lanes_agree [OF run])
    show "list_all (owned {''a'', ''b''} ?own) (Deliver 0 [?d] # evs)"
      using s(3) by (auto simp: list_all_iff owned_def ex_doc_def)
    show "stores_agree {''a'', ''b''} (\<lambda>s. s) (w_os ref_world) (w_qd ref_world)"
      by (simp add: ref_world_def stores_agree_empty)
    show "\<not> busy (th_phase th)" if "th \<in> set (cc_threads s)" for th
      using that s(2) by (auto simp: conc_init_def busy_def eval_nat_numeral)
  qed (auto simp: inj_on_def)
  with ack run show ?thesis by blast
qed

end
