(* ===== verification/RateLimit.thy ===== *)
theory RateLimit
  imports Json
begin

text \<open>
  The HTTP edge of the query service: requests and responses, \<open>limitBody\<close>, the per-client
  token bucket and \<open>clientKey\<close> (\<open>cmd/query/middleware.go\<close>), and \<open>writeJSON\<close>
  (\<open>cmd/query/main.go\<close>). Times are nanoseconds; the clock is an argument of every call.
  \<open>allow\<close> holds the mutex from the bucket read to its return, so a call is one atomic step;
  concurrent requests are sequences of calls.
\<close>

subsection \<open>Requests and responses\<close>

text \<open>
  A request: its headers (the empty string when absent), the remote address, the first JSON
  value of the body and how many bytes must be read to reach its end.
\<close>

record request =
  rq_Header :: "string \<Rightarrow> string"
  rq_RemoteAddr :: string
  rq_Body :: raw
  rq_BodyBytes :: nat

text \<open>A handler writes a response or panics; the server recovers a panic and drops the connection.\<close>

datatype 'a outcome = Panics | Returns 'a

record response =
  rs_Status :: int
  rs_Header :: "(string \<times> string) list"
  rs_Body :: json

definition writeJSON :: "(string \<times> string) list \<Rightarrow> int \<Rightarrow> json \<Rightarrow> response" where
  "writeJSON hdrs status v =
     \<lparr>rs_Status = status, rs_Header = hdrs @ [(''Content-Type'', ''application/json'')], rs_Body = v\<rparr>"

definition maxBodyBytes :: nat where "maxBodyBytes = 64 * 1024"

text \<open>\<open>http.MaxBytesReader\<close>: reading past the limit is an error, so the decoder fails.\<close>

definition limitBody :: "(request \<Rightarrow> 's \<Rightarrow> 'a \<times> 's) \<Rightarrow> request \<Rightarrow> 's \<Rightarrow> 'a \<times> 's" where
  "limitBody handler r s =
     handler (if rq_BodyBytes r > maxBodyBytes then r\<lparr>rq_Body := NotJSON []\<rparr> else r) s"

subsection \<open>The rate limiter\<close>

record bucket =
  bk_tokens :: real
  bk_last :: int
  bk_seen :: int

record rateLimiter =
  rl_buckets :: "string \<rightharpoonup> bucket"
  rl_rps :: real
  rl_burst :: real
  rl_idleEvic :: int

definition newRateLimiter :: "real \<Rightarrow> real \<Rightarrow> rateLimiter" where
  "newRateLimiter rps burst =
     \<lparr>rl_buckets = Map.empty, rl_rps = rps, rl_burst = burst, rl_idleEvic = 10 * 60 * 10 ^ 9\<rparr>"

text \<open>\<open>d.Seconds()\<close>.\<close>

definition seconds :: "int \<Rightarrow> real" where
  "seconds d = real_of_int d / 10 ^ 9"

definition evictLocked :: "rateLimiter \<Rightarrow> int \<Rightarrow> rateLimiter" where
  "evictLocked rl now =
     rl\<lparr>rl_buckets := (\<lambda>k. case rl_buckets rl k of
          None \<Rightarrow> None
        | Some b \<Rightarrow> if now - bk_seen b > rl_idleEvic rl then None else Some b)\<rparr>"

text \<open>The bucket after the refill, \<open>last\<close> and \<open>seen\<close> set.\<close>

definition refill :: "rateLimiter \<Rightarrow> int \<Rightarrow> string \<Rightarrow> bucket" where
  "refill rl now key =
     (let b = (case rl_buckets rl key of
                 Some b \<Rightarrow> b
               | None \<Rightarrow> \<lparr>bk_tokens = rl_burst rl, bk_last = now, bk_seen = 0\<rparr>);
          t = bk_tokens b + seconds (now - bk_last b) * rl_rps rl
      in \<lparr>bk_tokens = (if t > rl_burst rl then rl_burst rl else t), bk_last = now, bk_seen = now\<rparr>)"

text \<open>\<open>b.tokens--\<close> through the pointer: the entry changes if it is still in the map.\<close>

definition allow :: "rateLimiter \<Rightarrow> int \<Rightarrow> string \<Rightarrow> bool \<times> rateLimiter" where
  "allow rl now key =
     (if rl_rps rl \<le> 0 then (True, rl)
      else let b = refill rl now key;
               rl1 = evictLocked (rl\<lparr>rl_buckets := (rl_buckets rl)(key \<mapsto> b)\<rparr>) now
           in if bk_tokens b < 1 then (False, rl1)
              else (True, rl1\<lparr>rl_buckets := (rl_buckets rl1)(key :=
                      map_option (\<lambda>b. b\<lparr>bk_tokens := bk_tokens b - 1\<rparr>) (rl_buckets rl1 key))\<rparr>))"

definition middleware ::
  "(request \<Rightarrow> string) \<Rightarrow> (request \<Rightarrow> 's \<Rightarrow> response outcome \<times> 's) \<Rightarrow> int \<Rightarrow> request \<Rightarrow>
   rateLimiter \<times> 's \<Rightarrow> response outcome \<times> rateLimiter \<times> 's" where
  "middleware keyFn handler now r st =
     (case st of (rl, s) \<Rightarrow>
        (case allow rl now (keyFn r) of
           (False, rl') \<Rightarrow>
             (Returns (writeJSON [(''Retry-After'', ''1'')] 429 (JObj [(''error'', JStr ''rate limited'')])), rl', s)
         | (True, rl') \<Rightarrow> (case handler r s of (resp, s') \<Rightarrow> (resp, rl', s'))))"

subsection \<open>Client keys\<close>

text \<open>The host of \<open>net.SplitHostPort\<close>; \<^term>\<open>None\<close> stands for its errors.\<close>

definition SplitHostPort :: "string \<Rightarrow> string option" where
  "SplitHostPort hp =
     (if CHR '':'' \<notin> set hp then None
      else let port = rev (takeWhile (\<lambda>c. c \<noteq> CHR '':'') (rev hp));
               before = take (length hp - length port - 1) hp
           in if hp \<noteq> [] \<and> hd hp = CHR ''['' then
                (let host = takeWhile (\<lambda>c. c \<noteq> CHR '']'') (tl hp)
                 in if CHR '']'' \<notin> set hp \<or> length host + 2 \<noteq> length before then None
                    else if CHR ''['' \<in> set (tl hp) \<or> CHR '']'' \<in> set (drop (length host + 2) hp) then None
                    else Some host)
              else if CHR '':'' \<in> set before \<or> CHR ''['' \<in> set hp \<or> CHR '']'' \<in> set hp then None
              else Some before)"

definition clientKey :: "request \<Rightarrow> string" where
  "clientKey r =
     (let k = rq_Header r ''X-API-Key''; xff = rq_Header r ''X-Forwarded-For''
      in if k \<noteq> [] then ''key:'' @ k
         else if xff \<noteq> [] then ''ip:'' @ TrimSpace (Cut_before xff (CHR '',''))
         else ''ip:'' @ (case SplitHostPort (rq_RemoteAddr r) of
                           None \<Rightarrow> rq_RemoteAddr r | Some host \<Rightarrow> host))"

subsection \<open>Specification\<close>

text \<open>The decisions of a sequence of calls (time, key), in order.\<close>

fun run_allow :: "rateLimiter \<Rightarrow> (int \<times> string) list \<Rightarrow> (string \<times> bool) list" where
  "run_allow rl [] = []"
| "run_allow rl ((now, key) # cs) =
     (case allow rl now key of (ok, rl') \<Rightarrow> (key, ok) # run_allow rl' cs)"

text \<open>An ideal token bucket for one client, never evicted: level and time of the last call.\<close>

fun ideal :: "real \<Rightarrow> real \<Rightarrow> real \<Rightarrow> int \<Rightarrow> int list \<Rightarrow> bool list" where
  "ideal rps burst lv prev [] = []"
| "ideal rps burst lv prev (t # ts) =
     (let l = min burst (lv + seconds (t - prev) * rps)
      in if l < 1 then False # ideal rps burst l t ts
         else True # ideal rps burst (l - 1) t ts)"

text \<open>The level a client has at time \<open>t\<close>.\<close>

definition level :: "rateLimiter \<Rightarrow> string \<Rightarrow> int \<Rightarrow> real" where
  "level rl k t =
     (case rl_buckets rl k of
        None \<Rightarrow> rl_burst rl
      | Some b \<Rightarrow> min (rl_burst rl) (bk_tokens b + seconds (t - bk_last b) * rl_rps rl))"

definition wf_limiter :: "rateLimiter \<Rightarrow> int \<Rightarrow> bool" where
  "wf_limiter rl now \<longleftrightarrow> 0 < rl_rps rl \<and> 0 \<le> rl_burst rl \<and> 0 \<le> rl_idleEvic rl \<and>
     rl_burst rl \<le> seconds (rl_idleEvic rl) * rl_rps rl \<and>
     (\<forall>k b. rl_buckets rl k = Some b \<longrightarrow> 0 \<le> bk_tokens b \<and> bk_tokens b \<le> rl_burst rl \<and>
        bk_seen b = bk_last b \<and> bk_last b \<le> now)"

subsection \<open>Lemmas\<close>

lemma seconds_nonneg: "0 \<le> d \<Longrightarrow> 0 \<le> seconds d"
  by (simp add: seconds_def)

lemma seconds_mono: "d \<le> e \<Longrightarrow> seconds d \<le> seconds e"
  by (simp add: seconds_def divide_right_mono)

lemma seconds_add: "seconds (d + e) = seconds d + seconds e"
  by (simp add: seconds_def add_divide_distrib)

lemma seconds_diff: "seconds (d - e) = seconds d - seconds e"
  by (simp add: seconds_def diff_divide_distrib)

lemma seconds_zero [simp]: "seconds 0 = 0"
  by (simp add: seconds_def)

lemma refill_level: "bk_tokens (refill rl now k) = level rl k now"
  by (auto simp: refill_def level_def Let_def seconds_def split: option.splits)

lemma refill_times [simp]: "bk_last (refill rl now k) = now" "bk_seen (refill rl now k) = now"
  by (simp_all add: refill_def Let_def)

lemma level_bounds:
  assumes "wf_limiter rl now" "now \<le> t"
  shows "0 \<le> level rl k t \<and> level rl k t \<le> rl_burst rl"
proof (cases "rl_buckets rl k")
  case (Some b)
  with assms have "0 \<le> bk_tokens b" "bk_last b \<le> t" "0 < rl_rps rl" "0 \<le> rl_burst rl"
    by (fastforce simp: wf_limiter_def)+
  then have "0 \<le> bk_tokens b + seconds (t - bk_last b) * rl_rps rl" by (simp add: seconds_nonneg)
  with \<open>0 \<le> rl_burst rl\<close> Some show ?thesis by (simp add: level_def)
qed (use assms in \<open>simp add: level_def wf_limiter_def\<close>)

text \<open>Eviction drops only buckets that are full again.\<close>

lemma level_evict:
  assumes "wf_limiter rl now" "now \<le> t"
  shows "level (evictLocked rl now) k t = level rl k t"
proof (cases "rl_buckets rl k")
  case (Some b)
  show ?thesis
  proof (cases "now - bk_seen b > rl_idleEvic rl")
    case True
    have b: "0 \<le> bk_tokens b" "bk_seen b = bk_last b" "0 < rl_rps rl"
      "rl_burst rl \<le> seconds (rl_idleEvic rl) * rl_rps rl"
      using assms Some by (fastforce simp: wf_limiter_def)+
    have "seconds (rl_idleEvic rl) \<le> seconds (t - bk_last b)"
      using True assms(2) b(2) by (intro seconds_mono) simp
    then have "seconds (rl_idleEvic rl) * rl_rps rl \<le> seconds (t - bk_last b) * rl_rps rl"
      using b(3) by (intro mult_right_mono) auto
    with b have "rl_burst rl \<le> bk_tokens b + seconds (t - bk_last b) * rl_rps rl" by linarith
    then show ?thesis using True Some by (simp add: level_def evictLocked_def min_def)
  qed (use Some in \<open>simp add: level_def evictLocked_def\<close>)
qed (simp add: level_def evictLocked_def)

lemma wf_evict: "wf_limiter rl now \<Longrightarrow> wf_limiter (evictLocked rl now) now"
  by (auto simp: wf_limiter_def evictLocked_def split: option.splits if_splits)

lemma wf_later: "wf_limiter rl now \<Longrightarrow> now \<le> t \<Longrightarrow> wf_limiter rl t"
  by (fastforce simp: wf_limiter_def)

lemma wf_put:
  assumes "wf_limiter rl now" "0 \<le> v" "v \<le> rl_burst rl"
  shows "wf_limiter (rl\<lparr>rl_buckets := (rl_buckets rl)(k \<mapsto> \<lparr>bk_tokens = v, bk_last = now, bk_seen = now\<rparr>)\<rparr>) now"
  using assms by (auto simp: wf_limiter_def)

lemma refill_eq: "refill rl now k = \<lparr>bk_tokens = level rl k now, bk_last = now, bk_seen = now\<rparr>"
  using refill_level [of rl now k] refill_times [of rl now k] by (cases "refill rl now k") auto

text \<open>The state after a call: the caller's bucket, everything else evicted or kept.\<close>

lemma allow_eq:
  assumes "wf_limiter rl now"
  shows "allow rl now k =
    (if level rl k now < 1
     then (False, (evictLocked rl now)\<lparr>rl_buckets := (rl_buckets (evictLocked rl now))
            (k \<mapsto> \<lparr>bk_tokens = level rl k now, bk_last = now, bk_seen = now\<rparr>)\<rparr>)
     else (True, (evictLocked rl now)\<lparr>rl_buckets := (rl_buckets (evictLocked rl now))
            (k \<mapsto> \<lparr>bk_tokens = level rl k now - 1, bk_last = now, bk_seen = now\<rparr>)\<rparr>))"
proof -
  have "0 < rl_rps rl" "0 \<le> rl_idleEvic rl" using assms by (auto simp: wf_limiter_def)
  then have "evictLocked (rl\<lparr>rl_buckets := (rl_buckets rl)(k \<mapsto> refill rl now k)\<rparr>) now =
      (evictLocked rl now)\<lparr>rl_buckets := (rl_buckets (evictLocked rl now))(k \<mapsto> refill rl now k)\<rparr>"
    by (intro rateLimiter.equality) (auto simp: evictLocked_def fun_eq_iff split: option.splits)
  then show ?thesis using \<open>0 < rl_rps rl\<close> by (simp add: allow_def Let_def refill_eq)
qed

lemma allow_params:
  "rl_rps (snd (allow rl now k)) = rl_rps rl" "rl_burst (snd (allow rl now k)) = rl_burst rl"
  "rl_idleEvic (snd (allow rl now k)) = rl_idleEvic rl"
  by (simp_all add: allow_def evictLocked_def Let_def)

lemma wf_allow:
  assumes "wf_limiter rl now"
  shows "wf_limiter (snd (allow rl now k)) now"
proof -
  have l: "0 \<le> level rl k now" "level rl k now \<le> rl_burst rl"
    using level_bounds [OF assms, of now k] by auto
  have b: "rl_burst (evictLocked rl now) = rl_burst rl" by (simp add: evictLocked_def)
  show ?thesis
    using wf_put [OF wf_evict [OF assms], of "level rl k now" k]
      wf_put [OF wf_evict [OF assms], of "level rl k now - 1" k] l b
    by (auto simp: allow_eq [OF assms])
qed

lemma allow_level_same:
  assumes "wf_limiter rl now" "now \<le> t"
  shows "level (snd (allow rl now k)) k t =
    min (rl_burst rl) ((if fst (allow rl now k) then level rl k now - 1 else level rl k now) +
      seconds (t - now) * rl_rps rl)"
  by (simp add: allow_eq [OF assms(1)] level_def evictLocked_def)

lemma allow_level_other:
  assumes "wf_limiter rl now" "now \<le> t" "k' \<noteq> k"
  shows "level (snd (allow rl now k')) k t = level rl k t"
proof -
  have "level (rl'\<lparr>rl_buckets := (rl_buckets rl')(k' \<mapsto> b)\<rparr>) k t = level rl' k t" for rl' b
    using assms(3) by (simp add: level_def split: option.splits)
  then show ?thesis
    using level_evict [OF assms(1,2), of k] by (simp add: allow_eq [OF assms(1)])
qed

lemma allow_decision: "wf_limiter rl now \<Longrightarrow> fst (allow rl now k) \<longleftrightarrow> \<not> level rl k now < 1"
  by (simp add: allow_eq)

lemma wf_new: "0 < rps \<Longrightarrow> 0 \<le> burst \<Longrightarrow> burst \<le> 600 * rps \<Longrightarrow> wf_limiter (newRateLimiter rps burst) t"
  by (simp add: wf_limiter_def newRateLimiter_def seconds_def)

text \<open>The decisions for one client are those of its ideal bucket.\<close>

lemma run_ideal:
  assumes "wf_limiter rl now" "sorted (now # map fst cs)"
    and "\<And>t. now \<le> t \<Longrightarrow> level rl k t = min (rl_burst rl) (lv + seconds (t - prev) * rl_rps rl)"
  shows "map snd (filter (\<lambda>d. fst d = k) (run_allow rl cs)) =
    ideal (rl_rps rl) (rl_burst rl) lv prev (map fst (filter (\<lambda>c. snd c = k) cs))"
  using assms
proof (induction cs arbitrary: rl now lv prev)
  case (Cons c cs)
  obtain t k' where c: "c = (t, k')" by fastforce
  have wf: "wf_limiter rl t" using Cons.prems(1,2) c wf_later by auto
  have s: "sorted (t # map fst cs)" "now \<le> t" using Cons.prems(2) c by auto
  obtain ok rl' where a: "allow rl t k' = (ok, rl')" by fastforce
  note par = allow_params [of rl t k']
  have wf': "wf_limiter rl' t" using wf_allow [OF wf, of k'] a by simp
  show ?case
  proof (cases "k' = k")
    case True
    define l where "l = level rl k t"
    have l: "l = min (rl_burst rl) (lv + seconds (t - prev) * rl_rps rl)"
      using Cons.prems(3) s(2) by (simp add: l_def)
    have ok: "ok \<longleftrightarrow> \<not> l < 1" using allow_decision [OF wf, of k] a True by (simp add: l_def)
    have "level rl' k u = min (rl_burst rl') ((if ok then l - 1 else l) + seconds (u - t) * rl_rps rl')"
      if "t \<le> u" for u
      using allow_level_same [OF wf that, of k] a True par by (simp add: l_def)
    from Cons.IH [OF wf' s(1) this] show ?thesis
      using a par True c ok l by (simp add: Let_def)
  next
    case False
    have "level rl' k u = min (rl_burst rl') (lv + seconds (u - prev) * rl_rps rl')" if "t \<le> u" for u
      using allow_level_other [OF wf that, of k' k] Cons.prems(3) [of u] that s(2) a False par by simp
    from Cons.IH [OF wf' s(1) this] show ?thesis
      using a par False c by simp
  qed
qed simp

lemma run_ideal_now:
  assumes "wf_limiter rl t0" "sorted (t0 # map fst cs)"
  shows "map snd (filter (\<lambda>d. fst d = k) (run_allow rl cs)) =
    ideal (rl_rps rl) (rl_burst rl) (level rl k t0) t0 (map fst (filter (\<lambda>c. snd c = k) cs))"
proof (rule run_ideal [OF assms])
  fix t assume t: "t0 \<le> t"
  have pos: "0 < rl_rps rl" using assms(1) by (simp add: wf_limiter_def)
  have nn: "0 \<le> seconds (t - t0) * rl_rps rl" using pos t by (simp add: seconds_nonneg)
  show "level rl k t = min (rl_burst rl) (level rl k t0 + seconds (t - t0) * rl_rps rl)"
  proof (cases "rl_buckets rl k")
    case None
    then show ?thesis using nn by (simp add: level_def)
  next
    case (Some b)
    have "seconds (t - bk_last b) * rl_rps rl = seconds (t0 - bk_last b) * rl_rps rl + seconds (t - t0) * rl_rps rl"
      by (simp add: seconds_diff algebra_simps)
    then show ?thesis using Some nn by (simp add: level_def min_def)
  qed
qed

text \<open>The limiter after some calls.\<close>

fun after_allow :: "rateLimiter \<Rightarrow> (int \<times> string) list \<Rightarrow> rateLimiter" where
  "after_allow rl [] = rl"
| "after_allow rl ((now, key) # cs) = after_allow (snd (allow rl now key)) cs"

lemma run_allow_append: "drop (length as) (run_allow rl (as @ bs)) = run_allow (after_allow rl as) bs"
  by (induction rl as rule: after_allow.induct) (auto split: prod.splits)

lemma after_allow_params [simp]:
  "rl_rps (after_allow rl cs) = rl_rps rl" "rl_burst (after_allow rl cs) = rl_burst rl"
  by (induction rl cs rule: after_allow.induct) (simp_all add: allow_params)

lemma wf_after_allow:
  assumes "wf_limiter rl s" "sorted (s # map fst cs)" "\<And>c. c \<in> set cs \<Longrightarrow> fst c \<le> t" "s \<le> t"
  shows "wf_limiter (after_allow rl cs) t"
  using assms
proof (induction cs arbitrary: rl s)
  case (Cons c cs)
  then have "wf_limiter (snd (allow rl (fst c) (snd c))) (fst c)" using wf_later by (intro wf_allow) auto
  from Cons.IH [OF this] show ?case using Cons.prems Cons.prems(3) [of c] by (cases c) auto
qed (use wf_later in auto)

text \<open>Draining a bucket at one time, and the eviction of an idle one by another client's call.\<close>

definition same_params :: "rateLimiter \<Rightarrow> rateLimiter \<Rightarrow> bool" where
  "same_params a b \<longleftrightarrow> rl_rps a = rl_rps b \<and> rl_burst a = rl_burst b \<and> rl_idleEvic a = rl_idleEvic b"

lemma allow_one:
  assumes "0 < rl_rps rl" "0 \<le> rl_idleEvic rl" "1 \<le> level rl k t"
  shows "\<exists>rl'. allow rl t k = (True, rl') \<and> same_params rl' rl \<and>
    rl_buckets rl' k = Some \<lparr>bk_tokens = level rl k t - 1, bk_last = t, bk_seen = t\<rparr>"
  using assms by (simp add: allow_def refill_eq evictLocked_def Let_def same_params_def)

lemma drain:
  assumes "0 < rl_rps rl" "0 \<le> rl_idleEvic rl" "level rl k t = real m" "real m \<le> rl_burst rl" "n \<le> m"
  shows "\<exists>rl'. (\<forall>cs. run_allow rl (replicate n (t, k) @ cs) = replicate n (k, True) @ run_allow rl' cs) \<and>
    same_params rl' rl \<and> (n = 0 \<and> rl' = rl \<or> (\<exists>b. rl_buckets rl' k = Some b \<and> bk_seen b = t))"
  using assms
proof (induction n arbitrary: rl m)
  case 0
  then show ?case by (auto simp: same_params_def)
next
  case (Suc n)
  obtain rl1 where one: "allow rl t k = (True, rl1)" "same_params rl1 rl"
    "rl_buckets rl1 k = Some \<lparr>bk_tokens = real m - 1, bk_last = t, bk_seen = t\<rparr>"
    using allow_one [of rl k t] Suc.prems by auto
  have "level rl1 k t = real (m - 1)" "real (m - 1) \<le> rl_burst rl1"
    using one(2,3) Suc.prems by (auto simp: level_def same_params_def)
  moreover have "0 < rl_rps rl1" "0 \<le> rl_idleEvic rl1" using one(2) Suc.prems by (simp_all add: same_params_def)
  ultimately obtain rl' where "\<forall>cs. run_allow rl1 (replicate n (t, k) @ cs) = replicate n (k, True) @ run_allow rl' cs"
    "same_params rl' rl1" "n = 0 \<and> rl' = rl1 \<or> (\<exists>b. rl_buckets rl' k = Some b \<and> bk_seen b = t)"
    using Suc.IH [of rl1 "m - 1"] Suc.prems(5) by fastforce
  then show ?case using one by (intro exI [of _ rl']) (auto simp: same_params_def)
qed

lemma allow_evicts:
  assumes "0 < rl_rps rl" "0 \<le> rl_idleEvic rl" "rl_buckets rl k = Some b" "rl_idleEvic rl < now - bk_seen b" "k' \<noteq> k"
  shows "rl_buckets (snd (allow rl now k')) k = None" "same_params (snd (allow rl now k')) rl"
  using assms by (simp_all add: allow_def evictLocked_def Let_def same_params_def)

lemma ideal_bound:
  assumes "0 < rps" "0 \<le> lv" "0 \<le> burst" "sorted (prev # ts)" "\<And>t. t \<in> set ts \<Longrightarrow> t \<le> stop" "prev \<le> stop"
  shows "real (length (filter id (ideal rps burst lv prev ts))) \<le> lv + rps * seconds (stop - prev)"
  using assms
proof (induction ts arbitrary: lv prev)
  case Nil
  then show ?case by (simp add: seconds_nonneg)
next
  case (Cons t ts)
  define l where "l = min burst (lv + seconds (t - prev) * rps)"
  have l0: "0 \<le> l" "l \<le> lv + seconds (t - prev) * rps"
    using Cons.prems by (auto simp: l_def seconds_nonneg)
  have spl: "rps * seconds (stop - prev) = seconds (t - prev) * rps + rps * seconds (stop - t)"
    by (simp add: seconds_diff algebra_simps)
  have s: "sorted (t # ts)" "t \<le> stop" using Cons.prems by auto
  show ?case
  proof (cases "l < 1")
    case True
    then show ?thesis
      using Cons.IH [OF Cons.prems(1) l0(1) Cons.prems(3) s(1) _ s(2)] Cons.prems(5) l0 spl
      by (simp add: Let_def flip: l_def)
  next
    case False
    then show ?thesis
      using Cons.IH [OF Cons.prems(1) _ Cons.prems(3) s(1) _ s(2), of "l - 1"] Cons.prems(5) l0 spl
      by (simp add: Let_def flip: l_def)
  qed
qed

lemma ideal_steady:
  assumes "1 \<le> burst" "0 < rps" "0 \<le> lv" "lv \<le> burst" "1 \<le> lv + seconds (hd ts - prev) * rps"
    and "sorted_wrt (\<lambda>a b. 1 / rps \<le> seconds (b - a)) ts"
  shows "ideal rps burst lv prev ts = replicate (length ts) True"
  using assms
proof (induction ts arbitrary: lv prev)
  case (Cons t ts)
  define l where "l = min burst (lv + seconds (t - prev) * rps)"
  have l1: "1 \<le> l" using Cons.prems by (simp add: l_def)
  have "1 \<le> (l - 1) + seconds (hd ts - t) * rps" if "ts \<noteq> []"
  proof -
    have "1 / rps \<le> seconds (hd ts - t)" using Cons.prems(6) that by (cases ts) auto
    then have "1 \<le> seconds (hd ts - t) * rps" using Cons.prems(2) by (simp add: pos_divide_le_eq)
    with l1 show ?thesis by linarith
  qed
  moreover have "l \<le> burst" by (simp add: l_def)
  ultimately have "ideal rps burst (l - 1) t ts = replicate (length ts) True"
    using Cons.IH [of "l - 1" t] Cons.prems l1 by (cases "ts = []") auto
  then show ?case using l1 by (simp add: Let_def flip: l_def)
qed simp

subsection \<open>Properties\<close>

text \<open>The limiter's invariant: every bucket holds between 0 and \<open>burst\<close> tokens and was
  refilled when it was last seen. A fresh limiter has it and every call at a later time
  keeps it (for a burst that ten minutes of refill cover, as the defaults 20 and 40 do).\<close>

theorem limiter_invariant:
  assumes "0 < rps" "0 \<le> burst" "burst \<le> 600 * rps" and "wf_limiter rl now" "now \<le> t"
  shows "wf_limiter (newRateLimiter rps burst) t0 \<and> wf_limiter (snd (allow rl t k)) t"
  using wf_new [OF assms(1-3)] wf_allow [OF wf_later [OF assms(4,5)]] by blast

theorem limiter_invariant_witness:
  "wf_limiter (newRateLimiter 20 40) 0 \<and> wf_limiter (snd (allow (newRateLimiter 20 40) 5 ''k'')) 5"
  using limiter_invariant [of 20 40 "newRateLimiter 20 40" 0 5 0 "''k''"] wf_new [of 20 40 0] by simp

text \<open>C19: Clients are isolated and eviction is invisible, as long as the ten minutes after which idle
  buckets are evicted refill a whole burst (\<open>burst\<close> at most \<open>600 * rps\<close>, as for the defaults 20 and
  40; \<open>eviction_refills_early\<close> shows what happens otherwise): in any interleaving of calls whose
  times do not decrease, the decisions a client sees are those of an ideal token bucket of its own that is
  never evicted, run on the times of its own calls.\<close>

theorem limiter_refines_token_bucket:
  assumes "0 < rps" "0 \<le> burst" "burst \<le> 600 * rps" and "sorted (t0 # map fst calls)"
  shows "map snd (filter (\<lambda>d. fst d = k) (run_allow (newRateLimiter rps burst) calls)) =
    ideal rps burst burst t0 (map fst (filter (\<lambda>c. snd c = k) calls))"
  using run_ideal_now [OF wf_new [OF assms(1-3)] assms(4), of k]
  by (simp add: newRateLimiter_def level_def)

theorem limiter_refines_token_bucket_witness:
  "map snd (filter (\<lambda>d. fst d = ''a'') (run_allow (newRateLimiter 1 1) [(0, ''a''), (0, ''b''), (0, ''a'')])) =
     [True, False]"
  using limiter_refines_token_bucket [of 1 1 0 "[(0, ''a''), (0, ''b''), (0, ''a'')]" "''a''"]
  by (simp add: Let_def)

text \<open>C22: The rate bound: if \<open>burst\<close> is at most \<open>600 * rps\<close> (see \<open>eviction_refills_early\<close>) and the times of the
  calls do not decrease, then in any time window, after any calls before it and whatever the other clients do, a
  client gets at most \<open>burst\<close> requests plus \<open>rps\<close> per second of the window through.\<close>

theorem limiter_rate_bound:
  assumes "0 < rps" "0 \<le> burst" "burst \<le> 600 * rps"
    and "sorted (map fst (past @ calls))"
    and "\<And>c. c \<in> set past \<Longrightarrow> fst c \<le> t0" "\<And>c. c \<in> set calls \<Longrightarrow> t0 \<le> fst c \<and> fst c \<le> t1" "t0 \<le> t1"
  shows "real (length (filter (\<lambda>d. fst d = k \<and> snd d)
      (drop (length past) (run_allow (newRateLimiter rps burst) (past @ calls))))) \<le>
    burst + rps * seconds (t1 - t0)"
proof -
  let ?rl = "after_allow (newRateLimiter rps burst) past"
  let ?ts = "map fst (filter (\<lambda>c. snd c = k) calls)"
  have count: "length (filter (\<lambda>d. fst d = k \<and> snd d) ds) = length (filter id (map snd (filter (\<lambda>d. fst d = k) ds)))"
    for ds :: "(string \<times> bool) list"
    by (induction ds) auto
  have "wf_limiter ?rl t0" if "past = c # cs" for c cs
    using assms(4,5) that by (intro wf_after_allow [OF wf_new [OF assms(1-3)], of "fst c"])
      (auto simp: sorted_append)
  then have wf: "wf_limiter ?rl t0" using wf_new [OF assms(1-3)] by (cases past) auto
  have par: "rl_rps (newRateLimiter rps burst) = rps" "rl_burst (newRateLimiter rps burst) = burst"
    by (simp_all add: newRateLimiter_def)
  have s: "sorted (t0 # map fst calls)" using assms(4,6) by (auto simp: sorted_append)
  then have "sorted (t0 # ?ts)" by (auto simp: sorted_filter)
  then have "real (length (filter id (ideal rps burst (level ?rl k t0) t0 ?ts))) \<le> level ?rl k t0 + rps * seconds (t1 - t0)"
    using level_bounds [OF wf, of t0 k] assms(1,2,6,7) by (intro ideal_bound) auto
  then show ?thesis
    using run_ideal_now [OF wf s, of k] level_bounds [OF wf, of t0 k] unfolding count run_allow_append
    by (simp add: par)
qed

theorem limiter_rate_bound_witness:
  "real (length (filter (\<lambda>d. fst d = ''a'' \<and> snd d) (drop (length [(0 :: int, ''a'')]) (run_allow (newRateLimiter 1 3)
     ([(0, ''a'')] @ [(0, ''a''), (0, ''a''), (0, ''a''), (0, ''b'')]))))) \<le> 3 + 1 * seconds (0 - 0)"
  by (rule limiter_rate_bound) auto



text \<open>C27: No client that keeps its rate is ever limited: if its calls are at least \<open>1/rps\<close>
  seconds apart and \<open>burst\<close> is at least 1, every one of them is allowed.\<close>

theorem limiter_steady_client:
  assumes "0 < rps" "1 \<le> burst" "burst \<le> 600 * rps" "sorted (t0 # map fst calls)"
    and "sorted_wrt (\<lambda>a b. 1 / rps \<le> seconds (b - a)) (map fst (filter (\<lambda>c. snd c = k) calls))"
    and "(k, ok) \<in> set (run_allow (newRateLimiter rps burst) calls)"
  shows "ok"
proof -
  let ?ts = "map fst (filter (\<lambda>c. snd c = k) calls)"
  have "map snd (filter (\<lambda>d. fst d = k) (run_allow (newRateLimiter rps burst) calls)) =
      ideal rps burst burst t0 ?ts"
    using run_ideal_now [OF wf_new [of rps burst t0] assms(4), of k] assms(1-3)
    by (simp add: newRateLimiter_def level_def)
  moreover have "ideal rps burst burst t0 ?ts = replicate (length ?ts) True"
  proof (cases "?ts = []")
    case False
    then have "t0 \<le> hd ?ts" using assms(4) hd_in_set [OF False] by auto
    then have "0 \<le> seconds (hd ?ts - t0) * rps" using assms(1) by (simp add: seconds_nonneg)
    then show ?thesis using assms(1,2,5) by (intro ideal_steady) auto
  qed simp
  moreover have "ok \<in> set (map snd (filter (\<lambda>d. fst d = k) (run_allow (newRateLimiter rps burst) calls)))"
    using assms(6) by force
  ultimately have "ok \<in> set (replicate (length ?ts) True)" by simp
  then show ?thesis by (simp split: if_splits)
qed

theorem limiter_steady_client_witness:
  "snd (run_allow (newRateLimiter 2 1) [(0, ''a''), (0, ''b''), (500000000, ''a'')] ! 2)"
proof -
  have "run_allow (newRateLimiter 2 1) [(0, ''a''), (0, ''b''), (500000000, ''a'')] =
      [(''a'', True), (''b'', True), (''a'', snd (run_allow (newRateLimiter 2 1) [(0, ''a''), (0, ''b''), (500000000, ''a'')] ! 2))]"
    by (simp add: allow_def newRateLimiter_def refill_def evictLocked_def Let_def seconds_def)
  then have "(''a'', snd (run_allow (newRateLimiter 2 1) [(0, ''a''), (0, ''b''), (500000000, ''a'')] ! 2)) \<in>
      set (run_allow (newRateLimiter 2 1) [(0, ''a''), (0, ''b''), (500000000, ''a'')])"
    by (metis list.set_intros(1,2))
  then show ?thesis
    by (rule limiter_steady_client [of 2 1 0, rotated -1]) (simp_all add: seconds_def)
qed

end
