(* ===== verification/Fusion.thy ===== *)
theory Fusion
  imports Prelude
begin

text \<open>
  Package \<open>internal/retrieve\<close> (\<open>fusion.go\<close>): Reciprocal Rank Fusion of ranked id ls and
  Maximal Marginal Relevance. Scores are \<^typ>\<open>real\<close>. The map \<open>score\<close> of \<open>RRF\<close> is an
  association list; Go leaves the order in which \<open>range\<close> visits a map open, so the order
  is an argument of \<open>RRF_range\<close> and \<open>RRF\<close> fixes one of them.
\<close>

record Scored =
  sc_DocID :: string
  sc_Score :: real

subsection \<open>Reciprocal Rank Fusion\<close>

text \<open>\<open>score[id] += w\<close>: an absent key reads as 0.\<close>

fun add_score :: "string \<Rightarrow> real \<Rightarrow> (string \<times> real) list \<Rightarrow> (string \<times> real) list" where
  "add_score i w [] = [(i, 0 + w)]"
| "add_score i w ((j, s) # m) = (if i = j then (j, s + w) # m else (j, s) # add_score i w m)"

text \<open>The inner loop over one list, from rank \<open>r\<close> on.\<close>

fun rrf_list :: "int \<Rightarrow> int \<Rightarrow> string list \<Rightarrow> (string \<times> real) list \<Rightarrow> (string \<times> real) list" where
  "rrf_list k r [] m = m"
| "rrf_list k r (i # is) m = rrf_list k (r + 1) is (add_score i (1 / real_of_int (k + r + 1)) m)"

fun rrf_lists :: "int \<Rightarrow> string list list \<Rightarrow> (string \<times> real) list \<Rightarrow> (string \<times> real) list" where
  "rrf_lists k [] m = m"
| "rrf_lists k (l # ls) m = rrf_lists k ls (rrf_list k 0 l m)"

definition scored_less :: "Scored \<Rightarrow> Scored \<Rightarrow> bool" where
  "scored_less a b =
     (if sc_Score a = sc_Score b then sc_DocID a < sc_DocID b else sc_Score a > sc_Score b)"

definition rrf_k :: "int \<Rightarrow> int" where
  "rrf_k k = (if k \<le> 0 then 60 else k)"

definition RRF_range ::
  "((string \<times> real) list \<Rightarrow> (string \<times> real) list) \<Rightarrow> string list list \<Rightarrow> int \<Rightarrow> Scored list" where
  "RRF_range visit ls k =
     SliceStable scored_less
       (map (\<lambda>(i, s). \<lparr>sc_DocID = i, sc_Score = s\<rparr>) (visit (rrf_lists (rrf_k k) ls [])))"

definition RRF :: "string list list \<Rightarrow> int \<Rightarrow> Scored list" where
  "RRF ls k = RRF_range (\<lambda>m. m) ls k"

subsection \<open>Maximal Marginal Relevance\<close>

fun cos_loop :: "real list \<Rightarrow> real list \<Rightarrow> real \<Rightarrow> real \<Rightarrow> real \<Rightarrow> real \<times> real \<times> real" where
  "cos_loop (x # xs) (y # ys) dot na nb =
     cos_loop xs ys (dot + x * y) (na + x * x) (nb + y * y)"
| "cos_loop _ _ dot na nb = (dot, na, nb)"

definition cosine :: "real list \<Rightarrow> real list \<Rightarrow> real" where
  "cosine a b =
     (if a = [] \<or> b = [] \<or> length a \<noteq> length b then 0
      else (case cos_loop a b 0 0 0 of
              (dot, na, nb) \<Rightarrow> if na = 0 \<or> nb = 0 then 0 else dot / (sqrt na * sqrt nb)))"

text \<open>Reads of the maps \<open>relevance\<close> and \<open>vectors\<close>: 0 and the nil slice for an absent key.\<close>

definition rel_of :: "(string \<rightharpoonup> real) \<Rightarrow> string \<Rightarrow> real" where
  "rel_of m i = (case m i of None \<Rightarrow> 0 | Some r \<Rightarrow> r)"

definition vec_of :: "(string \<rightharpoonup> real list) \<Rightarrow> string \<Rightarrow> real list" where
  "vec_of m i = (case m i of None \<Rightarrow> [] | Some v \<Rightarrow> v)"

fun max_sim :: "(string \<rightharpoonup> real list) \<Rightarrow> string \<Rightarrow> string list \<Rightarrow> real \<Rightarrow> real" where
  "max_sim vectors i [] best = best"
| "max_sim vectors i (s # ss) best =
     (let sim = cosine (vec_of vectors i) (vec_of vectors s)
      in max_sim vectors i ss (if sim > best then sim else best))"

definition mmr_score ::
  "(string \<rightharpoonup> real) \<Rightarrow> (string \<rightharpoonup> real list) \<Rightarrow> real \<Rightarrow> string list \<Rightarrow> string \<Rightarrow> real" where
  "mmr_score relevance vectors lambda selected i =
     lambda * rel_of relevance i - (1 - lambda) * max_sim vectors i selected 0"

text \<open>The scan over \<open>remaining\<close> that keeps the first best index.\<close>

fun best_index :: "(string \<Rightarrow> real) \<Rightarrow> nat \<Rightarrow> string list \<Rightarrow> nat \<times> real \<Rightarrow> nat \<times> real" where
  "best_index score i [] best = best"
| "best_index score i (x # xs) (bestIdx, bestScore) =
     best_index score (Suc i) xs
       (if score x > bestScore then (i, score x) else (bestIdx, bestScore))"

text \<open>The selection loop; \<open>n\<close> is \<open>topK - len(selected)\<close>.\<close>

fun mmr_loop ::
  "(string \<rightharpoonup> real) \<Rightarrow> (string \<rightharpoonup> real list) \<Rightarrow> real \<Rightarrow> nat \<Rightarrow> string list \<Rightarrow> string list \<Rightarrow> string list" where
  "mmr_loop relevance vectors lambda 0 selected remaining = selected"
| "mmr_loop relevance vectors lambda (Suc n) selected remaining =
     (if remaining = [] then selected
      else let b = fst (best_index (mmr_score relevance vectors lambda selected) 0 remaining
                          (0, - (10 ^ 18)))
           in mmr_loop relevance vectors lambda n (selected @ [remaining ! b])
                (take b remaining @ drop (Suc b) remaining))"

definition mmr_topK :: "int \<Rightarrow> nat \<Rightarrow> nat" where
  "mmr_topK topK n = (if topK \<le> 0 \<or> topK > int n then n else nat topK)"

definition MMR ::
  "string list \<Rightarrow> (string \<rightharpoonup> real) \<Rightarrow> (string \<rightharpoonup> real list) \<Rightarrow> real \<Rightarrow> int \<Rightarrow> string list" where
  "MMR candidates relevance vectors lambda topK =
     mmr_loop relevance vectors lambda (mmr_topK topK (length candidates)) [] candidates"

subsection \<open>Specification\<close>

text \<open>What one list contributes to a document: the sum over the ranks at which it occurs.\<close>

definition list_score :: "int \<Rightarrow> string list \<Rightarrow> string \<Rightarrow> real" where
  "list_score k l i =
     (\<Sum>r \<in> {r. r < length l \<and> l ! r = i}. 1 / real_of_int (k + int r + 1))"

definition rrf_score :: "int \<Rightarrow> string list list \<Rightarrow> string \<Rightarrow> real" where
  "rrf_score k ls i = sum_list (map (\<lambda>l. list_score k l i) ls)"

subsection \<open>Lemmas: the score map\<close>

definition score_at :: "(string \<times> real) list \<Rightarrow> string \<Rightarrow> real" where
  "score_at m i = (case map_of m i of None \<Rightarrow> 0 | Some s \<Rightarrow> s)"

lemma add_score_keys: "set (map fst (add_score i w m)) = insert i (set (map fst m))"
proof (induction m)
  case (Cons p m)
  then show ?case by (cases p) (simp add: insert_commute)
qed simp

lemma add_score_distinct: "distinct (map fst m) \<Longrightarrow> distinct (map fst (add_score i w m))"
proof (induction m)
  case (Cons p m)
  obtain j s where "p = (j, s)" by fastforce
  with Cons show ?case using add_score_keys [of i w m] by auto
qed simp

lemma add_score_at: "score_at (add_score i w m) j = score_at m j + (if i = j then w else 0)"
  by (induction m) (auto simp: score_at_def)

lemma rrf_list_keys: "set (map fst (rrf_list k r l m)) = set l \<union> set (map fst m)"
proof (induction l arbitrary: r m)
  case (Cons i l)
  then show ?case by (simp only: rrf_list.simps add_score_keys) auto
qed simp

lemma rrf_list_distinct: "distinct (map fst m) \<Longrightarrow> distinct (map fst (rrf_list k r l m))"
  by (induction l arbitrary: r m) (simp_all add: add_score_distinct)

definition list_score_from :: "int \<Rightarrow> int \<Rightarrow> string list \<Rightarrow> string \<Rightarrow> real" where
  "list_score_from k r l i =
     (\<Sum>n \<in> {n. n < length l \<and> l ! n = i}. 1 / real_of_int (k + r + int n + 1))"

lemma list_score_from_Cons:
  "list_score_from k r (x # l) i =
     (if x = i then 1 / real_of_int (k + r + 1) else 0) + list_score_from k (r + 1) l i"
proof -
  let ?f = "\<lambda>n. 1 / real_of_int (k + r + int n + 1)"
  let ?A = "{n. n < length l \<and> l ! n = i}"
  have split: "{n. n < length (x # l) \<and> (x # l) ! n = i} = (if x = i then {0} else {}) \<union> Suc ` ?A"
    by (auto simp: less_Suc_eq_0_disj)
  have "sum ?f (Suc ` ?A) = (\<Sum>n\<in>?A. 1 / real_of_int (k + (r + 1) + int n + 1))"
    by (subst sum.reindex) (auto simp: algebra_simps)
  then show ?thesis
    unfolding list_score_from_def split by (subst sum.union_disjoint) auto
qed

lemma rrf_list_at: "score_at (rrf_list k r l m) i = score_at m i + list_score_from k r l i"
proof (induction l arbitrary: r m)
  case Nil
  then show ?case by (simp add: list_score_from_def)
next
  case (Cons x l)
  then show ?case by (simp add: add_score_at list_score_from_Cons)
qed

lemma rrf_lists_keys: "set (map fst (rrf_lists k ls m)) = \<Union> (set ` set ls) \<union> set (map fst m)"
proof (induction ls arbitrary: m)
  case (Cons l ls)
  then show ?case by (simp only: rrf_lists.simps rrf_list_keys) auto
qed simp

lemma rrf_lists_distinct: "distinct (map fst m) \<Longrightarrow> distinct (map fst (rrf_lists k ls m))"
  by (induction ls arbitrary: m) (simp_all add: rrf_list_distinct)

lemma rrf_lists_at: "score_at (rrf_lists k ls m) i = score_at m i + rrf_score k ls i"
  by (induction ls arbitrary: m)
     (simp_all add: rrf_list_at rrf_score_def list_score_def list_score_from_def)

lemma rrf_map_set:
  "set (rrf_lists k ls []) = (\<lambda>i. (i, rrf_score k ls i)) ` \<Union> (set ` set ls)"
proof -
  let ?m = "rrf_lists k ls []"
  have d: "distinct (map fst ?m)" by (simp add: rrf_lists_distinct)
  have "set ?m = (\<lambda>i. (i, rrf_score k ls i)) ` fst ` set ?m"
  proof -
    have "s = rrf_score k ls i" if "(i, s) \<in> set ?m" for i s
      using rrf_lists_at [of k ls "[]" i] map_of_is_SomeI [OF d that] by (simp add: score_at_def)
    then have "(fst p, rrf_score k ls (fst p)) = p" if "p \<in> set ?m" for p
      using that by (cases p) simp
    then show ?thesis by (simp add: image_image)
  qed
  moreover have "fst ` set ?m = \<Union> (set ` set ls)"
    using rrf_lists_keys [of k ls "[]"] by simp
  ultimately show ?thesis by simp
qed

subsection \<open>Lemmas: the ranking\<close>

interpretation scored_order: strict_weak_order scored_less
  by unfold_locales (auto simp: scored_less_def split: if_splits)

lemma scored_less_total: "a \<noteq> (b :: Scored) \<Longrightarrow> scored_less a b \<or> scored_less b a"
  by (cases a; cases b) (auto simp: scored_less_def)

lemma RRF_set:
  "set (RRF ls k) = (\<lambda>i. \<lparr>sc_DocID = i, sc_Score = rrf_score (rrf_k k) ls i\<rparr>) `
     \<Union> (set ` set ls)"
  by (simp add: RRF_def RRF_range_def rrf_map_set image_image)

lemma RRF_distinct: "distinct (map sc_DocID (RRF ls k))"
proof -
  have "map sc_DocID (map (\<lambda>(i, s). \<lparr>sc_DocID = i, sc_Score = s\<rparr>) m) = map fst m" for m
    by (induction m) auto
  then show ?thesis
    by (simp add: RRF_def RRF_range_def rrf_lists_distinct del: map_map)
qed

lemma RRF_sorted: "sorted_wrt scored_less (RRF ls k)"
proof -
  have "distinct (RRF ls k)"
    using RRF_distinct [of ls k] by (simp add: distinct_map)
  moreover have "sorted_wrt (\<lambda>a b. \<not> scored_less b a) (RRF ls k)"
    unfolding RRF_def RRF_range_def by (rule scored_order.sorted_SliceStable)
  moreover have "distinct xs \<Longrightarrow> sorted_wrt (\<lambda>a b. \<not> scored_less b a) xs \<Longrightarrow> sorted_wrt scored_less xs" for xs
  proof (induction xs)
    case (Cons x xs)
    then have "scored_less x y" if "y \<in> set xs" for y
      using that scored_less_total [of x y] by auto
    with Cons show ?case by simp
  qed simp
  ultimately show ?thesis by blast
qed

lemma RRF_range_perm:
  assumes "\<And>m. mset (visit m) = mset m"
  shows "RRF_range visit ls k = RRF ls k"
  unfolding RRF_def RRF_range_def
  by (rule scored_order.SliceStable_perm) (use assms scored_less_total in \<open>auto simp: mset_map\<close>)

lemma rrf_score_mset: "mset ls = mset ls' \<Longrightarrow> rrf_score k ls i = rrf_score k ls' i"
  by (simp add: rrf_score_def flip: sum_mset_sum_list)

subsection \<open>Lemmas: scores\<close>

lemma list_score_nonneg: "0 \<le> k \<Longrightarrow> 0 \<le> list_score k l i"
  unfolding list_score_def by (rule sum_nonneg) simp

lemma list_score_absent: "i \<notin> set l \<Longrightarrow> list_score k l i = 0"
  unfolding list_score_def by (rule sum.neutral) (auto simp: in_set_conv_nth)

lemma list_score_distinct:
  assumes "distinct l" "r < length l"
  shows "list_score k l (l ! r) = 1 / real_of_int (k + int r + 1)"
proof -
  have "{n. n < length l \<and> l ! n = l ! r} = {r}"
    using assms by (auto simp: nth_eq_iff_index_eq)
  then show ?thesis by (simp add: list_score_def)
qed

lemma list_score_le:
  assumes "distinct l" "0 < k"
  shows "list_score k l i \<le> 1 / real_of_int (k + 1)"
proof (cases "i \<in> set l")
  case True
  then obtain r where "r < length l" "l ! r = i" by (metis in_set_conv_nth)
  then show ?thesis using list_score_distinct [of l r k] assms by (auto intro!: divide_left_mono)
next
  case False
  then show ?thesis using assms by (simp add: list_score_absent)
qed

lemma list_score_ge:
  assumes "distinct l" "0 < k" "i \<in> set l" "int (length l) \<le> k + 1"
  shows "1 / real_of_int (2 * k + 1) \<le> list_score k l i"
proof -
  obtain r where r: "r < length l" "l ! r = i" using assms(3) by (metis in_set_conv_nth)
  have "real_of_int (k + int r + 1) \<le> real_of_int (2 * k + 1)"
    using r(1) assms(4) by (simp only: of_int_le_iff)
  then show ?thesis
    using list_score_distinct [OF assms(1) r(1), of k] r(2) assms(2)
    by (simp add: divide_left_mono)
qed

subsection \<open>Lemmas: cosine\<close>

lemma cos_loop_sums:
  "length a = length b \<Longrightarrow> cos_loop a b d na nb =
     (d + (\<Sum>(x, y)\<leftarrow>zip a b. x * y), na + (\<Sum>x\<leftarrow>a. x * x), nb + (\<Sum>y\<leftarrow>b. y * y))"
  by (induction a b arbitrary: d na nb rule: list_induct2) (simp_all add: add.assoc)

lemma sum_list_squares_nonneg: "0 \<le> (\<Sum>x\<leftarrow>xs. x * (x :: real))"
  by (rule sum_list_nonneg) auto

lemma sum_list_quadratic:
  "length a = length b \<Longrightarrow> (\<Sum>(x, y)\<leftarrow>zip a b. (s * x - t * y) * (s * x - t * (y :: real))) =
     s * s * (\<Sum>x\<leftarrow>a. x * x) - 2 * s * t * (\<Sum>(x, y)\<leftarrow>zip a b. x * y) + t * t * (\<Sum>y\<leftarrow>b. y * y)"
  by (induction a b rule: list_induct2) (simp_all add: algebra_simps)

text \<open>The Cauchy-Schwarz inequality for the three sums of the loop.\<close>

lemma dot_bound:
  fixes a b :: "real list"
  assumes "length a = length b"
  shows "(\<Sum>(x, y)\<leftarrow>zip a b. x * y)\<^sup>2 \<le> (\<Sum>x\<leftarrow>a. x * x) * (\<Sum>y\<leftarrow>b. y * y)"
proof -
  define na nb d where "na = (\<Sum>x\<leftarrow>a. x * x)" and "nb = (\<Sum>y\<leftarrow>b. y * y)"
    and "d = (\<Sum>(x, y)\<leftarrow>zip a b. x * y)"
  have q: "0 \<le> s * s * na - 2 * s * t * d + t * t * nb" for s t
    unfolding na_def nb_def d_def sum_list_quadratic [OF assms, symmetric]
    by (rule sum_list_nonneg) auto
  have "0 \<le> nb" by (simp add: nb_def sum_list_squares_nonneg)
  show ?thesis
  proof (cases "nb = 0")
    case True
    have "d = 0"
    proof (rule ccontr)
      assume "d \<noteq> 0"
      then have "0 \<le> na - 2 * ((na + 1) / (2 * d)) * d" using q [of 1 "(na + 1) / (2 * d)"] True by simp
      with \<open>d \<noteq> 0\<close> show False by simp
    qed
    then show ?thesis using True by (simp flip: na_def nb_def d_def)
  next
    case False
    with \<open>0 \<le> nb\<close> have "0 < nb" by simp
    have "0 \<le> nb * (nb * na - d\<^sup>2)" using q [of nb d] by (simp add: algebra_simps power2_eq_square)
    with \<open>0 < nb\<close> have "d\<^sup>2 \<le> na * nb" by (simp add: zero_le_mult_iff mult.commute)
    then show ?thesis by (simp add: na_def nb_def d_def)
  qed
qed

lemma abs_cosine_le: "\<bar>cosine a b\<bar> \<le> 1"
proof (cases "a = [] \<or> b = [] \<or> length a \<noteq> length b")
  case False
  then have len: "length a = length b" by simp
  define na nb d where "na = (\<Sum>x\<leftarrow>a. x * x)" and "nb = (\<Sum>y\<leftarrow>b. y * y)"
    and "d = (\<Sum>(x, y)\<leftarrow>zip a b. x * y)"
  have nn: "0 \<le> na" "0 \<le> nb" by (simp_all add: na_def nb_def sum_list_squares_nonneg)
  have c: "cosine a b = (if na = 0 \<or> nb = 0 then 0 else d / (sqrt na * sqrt nb))"
    using False cos_loop_sums [OF len, of 0 0 0] by (simp add: cosine_def na_def nb_def d_def)
  have "\<bar>d\<bar> \<le> sqrt (na * nb)"
    using dot_bound [OF len] by (intro real_le_rsqrt) (simp add: na_def nb_def d_def)
  then show ?thesis using c nn by (auto simp: real_sqrt_mult abs_divide divide_le_eq abs_mult)
qed (simp add: cosine_def)

lemma cosine_commute: "cosine a b = cosine b a"
proof (cases "length a = length b")
  case True
  then have "(\<Sum>(x, y)\<leftarrow>zip a b. x * y) = (\<Sum>(x, y)\<leftarrow>zip b a. x * y)"
    by (induction a b rule: list_induct2) simp_all
  then show ?thesis
    using True cos_loop_sums [of a b 0 0 0] cos_loop_sums [of b a 0 0 0]
    by (auto simp: cosine_def mult.commute)
qed (simp add: cosine_def)

subsection \<open>Lemmas: the selection loop\<close>

lemma max_sim_bounds: "0 \<le> best \<Longrightarrow> best \<le> 1 \<Longrightarrow> 0 \<le> max_sim v i ss best \<and> max_sim v i ss best \<le> 1"
proof (induction ss arbitrary: best)
  case (Cons s ss)
  have "cosine (vec_of v i) (vec_of v s) \<le> 1"
    using abs_cosine_le [of "vec_of v i" "vec_of v s"] by simp
  with Cons show ?case by (simp add: Let_def)
qed simp

lemma best_index_spec:
  assumes "best_index score i xs (bi, bs) = (b, s)"
  shows "(b = bi \<and> s = bs \<and> (\<forall>x\<in>set xs. score x \<le> bs)) \<or>
    (\<exists>us x vs. xs = us @ x # vs \<and> b = i + length us \<and> s = score x \<and> bs < s \<and>
       (\<forall>u\<in>set us. score u < s) \<and> (\<forall>v\<in>set vs. score v \<le> s))"
  using assms
proof (induction xs arbitrary: i bi bs)
  case (Cons y ys)
  show ?case
  proof (cases "score y > bs")
    case True
    with Cons.prems have "best_index score (Suc i) ys (i, score y) = (b, s)" by simp
    from Cons.IH [OF this] consider
      "b = i" "s = score y" "\<forall>x\<in>set ys. score x \<le> score y"
      | us x vs where "ys = us @ x # vs" "b = Suc i + length us" "s = score x" "score y < s"
        "\<forall>u\<in>set us. score u < s" "\<forall>v\<in>set vs. score v \<le> s" by blast
    then show ?thesis
    proof cases
      case 1
      with True have "y # ys = [] @ y # ys \<and> b = i + length [] \<and> s = score y \<and> bs < s \<and>
        (\<forall>u\<in>set []. score u < s) \<and> (\<forall>v\<in>set ys. score v \<le> s)" by simp
      then show ?thesis by blast
    next
      case 2
      with True have "y # ys = (y # us) @ x # vs \<and> b = i + length (y # us) \<and> s = score x \<and> bs < s \<and>
        (\<forall>u\<in>set (y # us). score u < s) \<and> (\<forall>v\<in>set vs. score v \<le> s)" by simp
      then show ?thesis by blast
    qed
  next
    case False
    with Cons.prems have "best_index score (Suc i) ys (bi, bs) = (b, s)" by simp
    from Cons.IH [OF this] consider
      "b = bi" "s = bs" "\<forall>x\<in>set ys. score x \<le> bs"
      | us x vs where "ys = us @ x # vs" "b = Suc i + length us" "s = score x" "bs < s"
        "\<forall>u\<in>set us. score u < s" "\<forall>v\<in>set vs. score v \<le> s" by blast
    then show ?thesis
    proof cases
      case 1
      with False show ?thesis by simp
    next
      case 2
      with False have "y # ys = (y # us) @ x # vs \<and> b = i + length (y # us) \<and> s = score x \<and> bs < s \<and>
        (\<forall>u\<in>set (y # us). score u < s) \<and> (\<forall>v\<in>set vs. score v \<le> s)" by simp
      then show ?thesis by blast
    qed
  qed
qed simp

lemma remove_nth: "take (length us) (us @ x # vs) @ drop (Suc (length us)) (us @ x # vs) = us @ vs"
  by simp

text \<open>One round takes an element out of \<open>remaining\<close>.\<close>

lemma mmr_round:
  assumes "rem \<noteq> []"
  obtains us x vs where "rem = us @ x # vs"
    "mmr_loop rel vec l (Suc n) sel rem = mmr_loop rel vec l n (sel @ [x]) (us @ vs)"
    "(\<forall>y\<in>set rem. - (10 ^ 18) < mmr_score rel vec l sel y) \<Longrightarrow>
       (\<forall>u\<in>set us. mmr_score rel vec l sel u < mmr_score rel vec l sel x) \<and>
       (\<forall>v\<in>set vs. mmr_score rel vec l sel v \<le> mmr_score rel vec l sel x)"
proof -
  let ?score = "mmr_score rel vec l sel"
  obtain b s where bs: "best_index ?score 0 rem (0, - (10 ^ 18)) = (b, s)" by fastforce
  consider "b = 0" "\<forall>y\<in>set rem. ?score y \<le> - (10 ^ 18)"
    | us x vs where "rem = us @ x # vs" "b = length us" "s = ?score x"
      "\<forall>u\<in>set us. ?score u < s" "\<forall>v\<in>set vs. ?score v \<le> s"
    using best_index_spec [OF bs] by auto
  then show thesis
  proof cases
    case 1
    obtain y ys where "rem = y # ys" using assms by (cases rem) auto
    with 1 bs show thesis by (intro that [of "[]" y ys]) (auto simp: Let_def)
  next
    case 2
    with bs assms show thesis by (intro that [of us x vs]) (simp_all add: Let_def)
  qed
qed

lemma mmr_loop_extends:
  "\<exists>ext. mmr_loop rel vec l n sel rem = sel @ ext \<and> mset ext \<subseteq># mset rem \<and>
     length ext = min n (length rem)"
proof (induction n arbitrary: sel rem)
  case (Suc n)
  show ?case
  proof (cases "rem = []")
    case False
    obtain us x vs where r: "rem = us @ x # vs"
      "mmr_loop rel vec l (Suc n) sel rem = mmr_loop rel vec l n (sel @ [x]) (us @ vs)"
      using mmr_round [OF False] by blast
    obtain ext where "mmr_loop rel vec l n (sel @ [x]) (us @ vs) = (sel @ [x]) @ ext"
      "mset ext \<subseteq># mset (us @ vs)" "length ext = min n (length (us @ vs))"
      using Suc.IH by blast
    then show ?thesis using r by (intro exI [of _ "x # ext"]) auto
  qed simp
qed simp

lemma mmr_loop_greedy:
  assumes "\<And>sel y. y \<in> set rem \<Longrightarrow> - (10 ^ 18) < mmr_score rel vec l sel y"
    and "length sel \<le> i" "i < length (mmr_loop rel vec l n sel rem)"
    and "c \<in># mset rem - mset (drop (length sel) (take i (mmr_loop rel vec l n sel rem)))"
  shows "mmr_score rel vec l (take i (mmr_loop rel vec l n sel rem)) c \<le>
    mmr_score rel vec l (take i (mmr_loop rel vec l n sel rem)) (mmr_loop rel vec l n sel rem ! i)"
  using assms
proof (induction n arbitrary: sel rem)
  case (Suc n)
  show ?case
  proof (cases "rem = []")
    case False
    let ?R = "mmr_loop rel vec l (Suc n) sel rem"
    obtain us x vs where r: "rem = us @ x # vs" "?R = mmr_loop rel vec l n (sel @ [x]) (us @ vs)"
      and best: "(\<forall>y\<in>set rem. - (10 ^ 18) < mmr_score rel vec l sel y) \<Longrightarrow>
       (\<forall>u\<in>set us. mmr_score rel vec l sel u < mmr_score rel vec l sel x) \<and>
       (\<forall>v\<in>set vs. mmr_score rel vec l sel v \<le> mmr_score rel vec l sel x)"
      using mmr_round [OF False] by metis
    obtain ext where R: "?R = sel @ x # ext"
      using mmr_loop_extends [of rel vec l n "sel @ [x]" "us @ vs"] r(2) by auto
    show ?thesis
    proof (cases "i = length sel")
      case True
      then have "c \<in> set rem" using Suc.prems(4) R by simp
      moreover have "\<forall>y\<in>set rem. mmr_score rel vec l sel y \<le> mmr_score rel vec l sel x"
        using best Suc.prems(1) r(1) by force
      ultimately show ?thesis using True R by simp
    next
      case False
      with Suc.prems(2) obtain j where j: "i = Suc (length sel + j)"
        by (metis add_Suc_right le_neq_implies_less less_iff_Suc_add)
      have "c \<in># mset (us @ vs) - mset (drop (length (sel @ [x])) (take i ?R))"
        using Suc.prems(4) R j r(1) by simp
      then show ?thesis
        using Suc.IH [of "us @ vs" "sel @ [x]"] Suc.prems(1-3) r j by auto
    qed
  next
    case True
    with Suc.prems show ?thesis by simp
  qed
qed simp

text \<open>The first best element of a list is the head of its stable sort.\<close>

lemma ins_by_least: "(\<And>y. y \<in> set ys \<Longrightarrow> \<not> lt y x) \<Longrightarrow> ins_by lt x ys = x # ys"
  by (cases ys) auto

lemma SliceStable_first:
  assumes "\<And>u. u \<in> set us \<Longrightarrow> lt x u" "\<And>v. v \<in> set vs \<Longrightarrow> \<not> lt v x"
  shows "SliceStable lt (us @ x # vs) = x # SliceStable lt (us @ vs)"
  using assms
proof (induction us)
  case Nil
  then show ?case using ins_by_least [of "SliceStable lt vs" lt x] by simp
qed simp

lemma mmr_score_relevance [simp]: "mmr_score rel vec 1 sel x = rel_of rel x"
  by (simp add: mmr_score_def)

lemma mmr_loop_relevance:
  assumes "\<And>y. y \<in> set rem \<Longrightarrow> - (10 ^ 18) < rel_of rel y"
  shows "mmr_loop rel vec 1 n sel rem =
    sel @ take n (SliceStable (\<lambda>a b. rel_of rel a > rel_of rel b) rem)"
  using assms
proof (induction n arbitrary: sel rem)
  case (Suc n)
  show ?case
  proof (cases "rem = []")
    case False
    obtain us x vs where r: "rem = us @ x # vs"
      "mmr_loop rel vec 1 (Suc n) sel rem = mmr_loop rel vec 1 n (sel @ [x]) (us @ vs)"
      "(\<forall>u\<in>set us. rel_of rel u < rel_of rel x) \<and> (\<forall>v\<in>set vs. rel_of rel v \<le> rel_of rel x)"
      using mmr_round [OF False, of rel vec 1 n sel] Suc.prems by (metis mmr_score_relevance)
    then have "SliceStable (\<lambda>a b. rel_of rel a > rel_of rel b) rem =
        x # SliceStable (\<lambda>a b. rel_of rel a > rel_of rel b) (us @ vs)"
      by (simp only: r(1)) (intro SliceStable_first; force)
    then show ?thesis using Suc.IH [of "us @ vs" "sel @ [x]"] Suc.prems r(1,2) by auto
  qed simp
qed simp

lemma mmr_score_lower:
  assumes "0 \<le> l" "l \<le> 1" "- (10 ^ 17) \<le> rel_of rel y"
  shows "- (10 ^ 18) < mmr_score rel vec l sel y"
proof -
  have m: "0 \<le> max_sim vec y sel 0" "max_sim vec y sel 0 \<le> 1"
    using max_sim_bounds [of 0] by auto
  have "l * (- (10 ^ 17)) \<le> l * rel_of rel y" using assms by (intro mult_left_mono) auto
  moreover have "- (10 ^ 17) \<le> l * (- (10 ^ 17 :: real))" using assms by simp
  moreover have "(1 - l) * max_sim vec y sel 0 \<le> 1 * 1" using m assms by (intro mult_mono) auto
  moreover have "(10 :: real) ^ 17 + 1 < 10 ^ 18" by simp
  ultimately show ?thesis unfolding mmr_score_def by linarith
qed

subsection \<open>Properties\<close>

text \<open>C18: \<open>RRF\<close> is Reciprocal Rank Fusion: its result holds every document of the input
  lists exactly once, with the sum over the lists and the ranks of \<open>1/(k+rank+1)\<close> as score
  (\<open>k = 60\<close> when the argument is not positive), in descending order of the score and, at
  equal scores, ascending order of the id.\<close>

theorem RRF_correct:
  "distinct (map sc_DocID (RRF ls k)) \<and>
   set (RRF ls k) =
     (\<lambda>i. \<lparr>sc_DocID = i, sc_Score = rrf_score (rrf_k k) ls i\<rparr>) ` \<Union> (set ` set ls) \<and>
   sorted_wrt (\<lambda>a b. sc_Score b < sc_Score a \<or>
     sc_Score a = sc_Score b \<and> sc_DocID a < sc_DocID b) (RRF ls k)"
proof -
  have "sorted_wrt (\<lambda>a b. sc_Score b < sc_Score a \<or>
     sc_Score a = sc_Score b \<and> sc_DocID a < sc_DocID b) (RRF ls k)"
    by (rule sorted_wrt_mono_rel [OF _ RRF_sorted]) (auto simp: scored_less_def split: if_splits)
  then show ?thesis using RRF_distinct RRF_set by blast
qed

text \<open>The fused ranking is deterministic: neither the order in which the runtime visits
  the score map nor the order of the input lists changes it.\<close>

theorem RRF_deterministic:
  assumes "\<And>m. mset (visit m) = mset m" and "mset ls = mset ls'"
  shows "RRF_range visit ls k = RRF ls' k"
proof -
  have "set ls = set ls'" using assms(2) by (metis set_mset_mset)
  then have "set (RRF ls k) = set (RRF ls' k)"
    using rrf_score_mset [OF assms(2)] by (simp add: RRF_set)
  moreover have "distinct (RRF ls k)" for ls :: "string list list"
    using RRF_distinct [of ls k] by (simp add: distinct_map)
  ultimately have "mset (RRF ls k) = mset (RRF ls' k)"
    by (simp add: set_eq_iff_mset_eq_distinct)
  then have "RRF ls k = RRF ls' k"
    by (rule sorted_wrt_unique [OF RRF_sorted RRF_sorted])
       (meson scored_order.irrefl scored_order.trans)
  then show ?thesis using RRF_range_perm [OF assms(1)] by simp
qed

theorem RRF_deterministic_witness:
  "RRF_range rev [[''a'', ''b''], [''c'']] 60 = RRF [[''c''], [''a'', ''b'']] 60"
  by (rule RRF_deterministic) simp_all

text \<open>With two rankings of at most \<open>k + 1\<close> distinct documents each (the service asks both
  lanes for 50 and uses \<open>k = 60\<close>), a document found by both lanes is ranked before every
  document found by only one.\<close>

theorem RRF_both_lanes_win:
  assumes "distinct l1" "distinct l2" "0 < k"
    and "int (length l1) \<le> k + 1" "int (length l2) \<le> k + 1"
    and "a \<in> set l1 \<inter> set l2" "b \<in> set l1 \<union> set l2" "b \<notin> set l1 \<inter> set l2"
  shows "\<exists>i j. i < j \<and> j < length (RRF [l1, l2] k) \<and>
    sc_DocID (RRF [l1, l2] k ! i) = a \<and> sc_DocID (RRF [l1, l2] k ! j) = b"
proof -
  let ?R = "RRF [l1, l2] k"
  let ?s = "\<lambda>x. \<lparr>sc_DocID = x, sc_Score = list_score k l1 x + list_score k l2 x\<rparr>"
  have "set ?R = ?s ` (set l1 \<union> set l2)"
    using assms(3) by (simp add: RRF_set rrf_score_def rrf_k_def)
  with assms(6,7) have "?s a \<in> set ?R" "?s b \<in> set ?R" by auto
  then obtain i j where i: "i < length ?R" "?R ! i = ?s a" and j: "j < length ?R" "?R ! j = ?s b"
    unfolding in_set_conv_nth by blast
  have "list_score k l1 b + list_score k l2 b \<le> 1 / real_of_int (k + 1)"
    using assms(1-3,8) list_score_le [of l1 k b] list_score_le [of l2 k b]
      list_score_absent [of b l1 k] list_score_absent [of b l2 k] by auto
  moreover have "1 / real_of_int (k + 1) < 2 * (1 / real_of_int (2 * k + 1))"
    using assms(3) by (simp add: field_simps)
  moreover have "2 * (1 / real_of_int (2 * k + 1)) \<le> list_score k l1 a + list_score k l2 a"
    using list_score_ge [of l1 k a] list_score_ge [of l2 k a] assms(1-6) by simp
  ultimately have "\<not> scored_less (?s b) (?s a)" "?s a \<noteq> ?s b"
    by (auto simp: scored_less_def)
  then have "i < j"
    using RRF_sorted [of "[l1, l2]" k] i j
    by (metis linorder_neqE_nat sorted_wrt_iff_nth_less)
  then show ?thesis using i j by (intro exI [of _ i] exI [of _ j]) simp
qed

theorem RRF_both_lanes_win_witness:
  "map sc_DocID (RRF [[''a'', ''b''], [''c'', ''b'']] 60) = [''b'', ''a'', ''c''] \<and>
   (\<exists>i j. i < j \<and> j < length (RRF [[''a'', ''b''], [''c'', ''b'']] 60) \<and>
    sc_DocID (RRF [[''a'', ''b''], [''c'', ''b'']] 60 ! i) = ''b'' \<and>
    sc_DocID (RRF [[''a'', ''b''], [''c'', ''b'']] 60 ! j) = ''a'')"
proof
  show "map sc_DocID (RRF [[''a'', ''b''], [''c'', ''b'']] 60) = [''b'', ''a'', ''c'']"
    by (simp add: RRF_def RRF_range_def rrf_k_def scored_less_def)
qed (rule RRF_both_lanes_win; simp)

text \<open>\<open>MMR\<close> returns a selection of the candidates, without repeating one, of exactly the
  requested size (all of them when \<open>topK\<close> is not positive or too large), and every pick is
  greedy: among the candidates not picked yet it has the best marginal relevance
  \<open>lambda * relevance - (1 - lambda) * similarity to the picks so far\<close>. Relevances below
  \<open>-10^17\<close> are excluded, the scan starts from the score \<open>-10^18\<close>.\<close>

theorem MMR_greedy:
  assumes "0 \<le> l" "l \<le> 1" and "\<And>c. c \<in> set cs \<Longrightarrow> - (10 ^ 17) \<le> rel_of rel c"
  shows "mset (MMR cs rel vec l k) \<subseteq># mset cs \<and>
    length (MMR cs rel vec l k) = mmr_topK k (length cs) \<and>
    (\<forall>i < length (MMR cs rel vec l k). \<forall>c \<in># mset cs - mset (take i (MMR cs rel vec l k)).
      mmr_score rel vec l (take i (MMR cs rel vec l k)) c \<le>
      mmr_score rel vec l (take i (MMR cs rel vec l k)) (MMR cs rel vec l k ! i))"
proof -
  have "min (mmr_topK k n) n = mmr_topK k n" for n by (auto simp: mmr_topK_def)
  then have "mset (MMR cs rel vec l k) \<subseteq># mset cs"
    "length (MMR cs rel vec l k) = mmr_topK k (length cs)"
    using mmr_loop_extends [of rel vec l "mmr_topK k (length cs)" "[]" cs]
    by (auto simp: MMR_def)
  moreover have "mmr_score rel vec l (take i (MMR cs rel vec l k)) c \<le>
      mmr_score rel vec l (take i (MMR cs rel vec l k)) (MMR cs rel vec l k ! i)"
    if "i < length (MMR cs rel vec l k)" "c \<in># mset cs - mset (take i (MMR cs rel vec l k))" for i c
    using mmr_loop_greedy [of cs rel vec l "[]" i "mmr_topK k (length cs)" c]
      mmr_score_lower [OF assms(1,2,3)] that by (simp add: MMR_def)
  ultimately show ?thesis by blast
qed

theorem MMR_greedy_witness:
  "mset (MMR [''a'', ''b'', ''c''] [''a'' \<mapsto> 1, ''b'' \<mapsto> 0.95] [''a'' \<mapsto> [1, 0], ''b'' \<mapsto> [2, 0]] 0.5 2) \<subseteq>#
     mset [''a'', ''b'', ''c''] \<and>
   length (MMR [''a'', ''b'', ''c''] [''a'' \<mapsto> 1, ''b'' \<mapsto> 0.95] [''a'' \<mapsto> [1, 0], ''b'' \<mapsto> [2, 0]] 0.5 2) = 2"
  using MMR_greedy [of "0.5" "[''a'', ''b'', ''c'']" "[''a'' \<mapsto> 1, ''b'' \<mapsto> 0.95]"
      "[''a'' \<mapsto> [1, 0], ''b'' \<mapsto> [2, 0]]" 2]
  by (auto simp: rel_of_def mmr_topK_def)

text \<open>With \<open>lambda = 1\<close> \<open>MMR\<close> is the stable sort of the candidates by descending
  relevance, cut at \<open>topK\<close>.\<close>

theorem MMR_pure_relevance:
  assumes "\<And>c. c \<in> set cs \<Longrightarrow> - (10 ^ 18) < rel_of rel c"
  shows "MMR cs rel vec 1 k =
    take (mmr_topK k (length cs)) (SliceStable (\<lambda>a b. rel_of rel a > rel_of rel b) cs)"
  using mmr_loop_relevance [OF assms, of cs] by (simp add: MMR_def)

theorem MMR_pure_relevance_witness:
  "MMR [''a'', ''b'', ''c''] [''a'' \<mapsto> 3, ''b'' \<mapsto> 9, ''c'' \<mapsto> 6] [''a'' \<mapsto> [1, 0]] 1 3 =
     [''b'', ''c'', ''a'']"
proof -
  have "MMR [''a'', ''b'', ''c''] [''a'' \<mapsto> 3, ''b'' \<mapsto> 9, ''c'' \<mapsto> 6] [''a'' \<mapsto> [1, 0]] 1 3 =
    take (mmr_topK 3 (length [''a'', ''b'', ''c'']))
     (SliceStable (\<lambda>a b. rel_of [''a'' \<mapsto> 3, ''b'' \<mapsto> 9, ''c'' \<mapsto> 6] a >
        rel_of [''a'' \<mapsto> 3, ''b'' \<mapsto> 9, ''c'' \<mapsto> 6] b) [''a'', ''b'', ''c''])"
    by (rule MMR_pure_relevance) (auto simp: rel_of_def)
  then show ?thesis by (simp add: mmr_topK_def rel_of_def)
qed

text \<open>The cosine similarity is symmetric, lies between -1 and 1 (mismatched, empty or zero
  vectors give 0), and is 1 for a vector and itself.\<close>

theorem cosine_range:
  "cosine a b = cosine b a \<and> \<bar>cosine a b\<bar> \<le> 1 \<and>
   cosine a a = (if list_all (\<lambda>x. x = 0) a then 0 else 1)"
proof -
  have z: "(\<Sum>x\<leftarrow>xs. x * x) = 0 \<longleftrightarrow> list_all (\<lambda>x. x = 0) xs" for xs :: "real list"
    by (induction xs) (auto simp: sum_list_squares_nonneg add_nonneg_eq_0_iff)
  have zip: "(\<Sum>(x, y)\<leftarrow>zip a a. x * y) = (\<Sum>x\<leftarrow>a. x * x)"
    by (induction a) simp_all
  have "cosine a a = (if list_all (\<lambda>x. x = 0) a then 0 else 1)"
    using cos_loop_sums [of a a 0 0 0] z [of a] zip sum_list_squares_nonneg [of a]
    by (cases "a = []") (auto simp: cosine_def)
  then show ?thesis using cosine_commute abs_cosine_le by blast
qed

end
