(* ===== verification/Sentences.thy ===== *)
theory Sentences
  imports Prelude
begin

text \<open>
  The text functions of package \<open>internal/rag\<close>: \<open>splitSentences\<close>, \<open>tokens\<close>, \<open>overlap\<close> (\<open>rag.go\<close>),
  \<open>contentTokens\<close> and the citation-marker regular expression (\<open>faithfulness.go\<close>). Each
  regular expression is the scanner that computes its leftmost-first matches. A token set
  is a list without repetition; its order is not observable, the code only counts.
\<close>

subsection \<open>Sentences\<close>

text \<open>The class \<open>\s\<close> of package regexp: no vertical tab, unlike \<open>TrimSpace\<close>.\<close>

definition re_space :: "char \<Rightarrow> bool" where
  "re_space c \<longleftrightarrow> c \<in> {CHR 0x09, CHR 0x0A, CHR 0x0C, CHR 0x0D, CHR '' ''}"

definition is_end :: "char \<Rightarrow> bool" where
  "is_end c \<longleftrightarrow> c \<in> {CHR ''.'', CHR ''!'', CHR ''?''}"

text \<open>
  The matches of \<open>(?s)(.*?[.!?])(\s+|$)\<close>, first group of each: \<open>cur\<close> is what the lazy \<open>.*?\<close> has
  consumed, \<open>skip\<close> whether the trailing \<open>\s+\<close> of the previous match is being consumed.
\<close>

fun match_sentences :: "bool \<Rightarrow> string \<Rightarrow> string \<Rightarrow> string list" where
  "match_sentences skip cur [] = []"
| "match_sentences skip cur (c # cs) =
     (if skip \<and> re_space c then match_sentences True cur cs
      else if is_end c \<and> (cs = [] \<or> re_space (hd cs))
      then (cur @ [c]) # match_sentences True [] cs
      else match_sentences False (cur @ [c]) cs)"

definition splitSentences :: "string \<Rightarrow> string list" where
  "splitSentences text =
     (let out = filter (\<lambda>s. s \<noteq> []) (map TrimSpace (match_sentences False [] text))
      in if out = [] \<and> TrimSpace text \<noteq> [] then [TrimSpace text] else out)"

subsection \<open>Tokens\<close>

definition is_token_char :: "char \<Rightarrow> bool" where
  "is_token_char c \<longleftrightarrow> is_digit c \<or> (97 \<le> (of_char c :: nat) \<and> (of_char c :: nat) \<le> 122)"

text \<open>The matches of \<open>[a-z0-9]+\<close>; \<open>cur\<close> is the run being consumed.\<close>

fun token_runs :: "string \<Rightarrow> string \<Rightarrow> string list" where
  "token_runs cur [] = (if cur = [] then [] else [cur])"
| "token_runs cur (c # cs) =
     (if is_token_char c then token_runs (cur @ [c]) cs
      else (if cur = [] then [] else [cur]) @ token_runs [] cs)"

definition tokens :: "string \<Rightarrow> string list" where
  "tokens s = remdups (token_runs [] (ToLower s))"

definition overlap :: "string list \<Rightarrow> string list \<Rightarrow> nat" where
  "overlap a b = length (filter (\<lambda>t. t \<in> set b) a)"

definition stopwords :: "string list" where
  "stopwords = [''the'', ''a'', ''an'', ''and'', ''or'', ''of'', ''to'', ''in'', ''is'', ''are'',
     ''it'', ''that'', ''this'', ''for'', ''on'', ''with'', ''as'', ''by'', ''be'', ''at'', ''from'',
     ''into'', ''so'', ''not'']"

definition contentTokens :: "string \<Rightarrow> string list" where
  "contentTokens s = filter (\<lambda>w. w \<notin> set stopwords) (tokens s)"

subsection \<open>Citation markers\<close>

text \<open>The length of a match of \<open>\[doc_\d+\]\<close> at the head of a text.\<close>

definition marker_len :: "string \<Rightarrow> nat option" where
  "marker_len s =
     (if HasPrefix s ''[doc_'' then
        let ds = takeWhile is_digit (drop 5 s); r = drop (5 + length ds) s
        in if ds \<noteq> [] \<and> r \<noteq> [] \<and> hd r = CHR '']'' then Some (5 + length ds + 1) else None
      else None)"

text \<open>\<open>ReplaceAllString(_, "")\<close>; the number is how much of a match is left to drop.\<close>

fun strip_markers :: "nat \<Rightarrow> string \<Rightarrow> string" where
  "strip_markers n [] = []"
| "strip_markers (Suc n) (c # cs) = strip_markers n cs"
| "strip_markers 0 (c # cs) =
     (case marker_len (c # cs) of
        None \<Rightarrow> c # strip_markers 0 cs
      | Some n \<Rightarrow> strip_markers (n - 1) cs)"

fun has_marker :: "string \<Rightarrow> bool" where
  "has_marker [] = False"
| "has_marker (c # cs) = (marker_len (c # cs) \<noteq> None \<or> has_marker cs)"

text \<open>A text with at least one terminated sentence.\<close>

definition terminated :: "string \<Rightarrow> bool" where
  "terminated text \<longleftrightarrow> match_sentences False [] text \<noteq> []"

subsection \<open>Lemmas: scanning\<close>

lemma re_space_is_space: "re_space c \<Longrightarrow> is_space c"
  by (auto simp: re_space_def is_space_def)

lemma end_not_space [simp]: "is_end c \<Longrightarrow> \<not> is_space c" "is_end c \<Longrightarrow> \<not> re_space c"
  by (auto simp: is_end_def is_space_def re_space_def)

text \<open>
  A match is a stretch of the text that starts at the beginning or after white space and
  has no terminator followed by white space before its last character.
\<close>

definition inner_end :: "string \<Rightarrow> bool" where
  "inner_end s \<longleftrightarrow> (\<exists>i. Suc i < length s \<and> is_end (s ! i) \<and> re_space (s ! Suc i))"

lemma inner_end_Cons:
  "inner_end (c # cs) \<longleftrightarrow> (is_end c \<and> cs \<noteq> [] \<and> re_space (hd cs)) \<or> inner_end cs"
proof
  assume "inner_end (c # cs)"
  then obtain i where i: "Suc i < length (c # cs)" "is_end ((c # cs) ! i)" "re_space ((c # cs) ! Suc i)"
    by (auto simp: inner_end_def)
  then show "(is_end c \<and> cs \<noteq> [] \<and> re_space (hd cs)) \<or> inner_end cs"
    by (cases i) (auto simp: inner_end_def hd_conv_nth)
next
  assume "(is_end c \<and> cs \<noteq> [] \<and> re_space (hd cs)) \<or> inner_end cs"
  then show "inner_end (c # cs)"
  proof
    assume "is_end c \<and> cs \<noteq> [] \<and> re_space (hd cs)"
    then show ?thesis by (auto simp: inner_end_def hd_conv_nth intro!: exI [of _ 0])
  next
    assume "inner_end cs"
    then obtain i where "Suc i < length cs" "is_end (cs ! i)" "re_space (cs ! Suc i)"
      by (auto simp: inner_end_def)
    then show ?thesis by (auto simp: inner_end_def intro!: exI [of _ "Suc i"])
  qed
qed

lemma inner_end_Nil [simp]: "\<not> inner_end []"
  by (simp add: inner_end_def)

lemma inner_end_suffix: "\<not> inner_end (u @ v) \<Longrightarrow> \<not> inner_end v"
  by (induction u) (simp_all add: inner_end_Cons)

lemma inner_end_snoc:
  "inner_end (s @ [c]) \<longleftrightarrow> inner_end s \<or> (s \<noteq> [] \<and> is_end (last s) \<and> re_space c)"
  by (induction s) (auto simp: inner_end_Cons)

text \<open>A well-formed sentence followed by white space or the end is the next match.\<close>

definition sentence :: "string \<Rightarrow> bool" where
  "sentence s \<longleftrightarrow> s \<noteq> [] \<and> is_end (last s) \<and> \<not> inner_end s \<and> \<not> is_space (hd s)"

lemma match_next:
  assumes "s \<noteq> []" "is_end (last s)" "\<not> inner_end s" "skip \<Longrightarrow> \<not> re_space (hd s)"
    and "rest = [] \<or> re_space (hd rest)"
  shows "match_sentences skip cur (s @ rest) = (cur @ s) # match_sentences True [] rest"
  using assms
proof (induction s arbitrary: skip cur)
  case (Cons c cs)
  show ?case
  proof (cases "cs = []")
    case True
    with Cons.prems show ?thesis by auto
  next
    case False
    with Cons.prems have "\<not> (is_end c \<and> re_space (hd cs))" "\<not> inner_end cs"
      by (auto simp: inner_end_Cons)
    then show ?thesis using Cons.prems False Cons.IH [of False "cur @ [c]"] by auto
  qed
qed simp

lemma match_skip: "list_all re_space w \<Longrightarrow> match_sentences True [] (w @ rest) = match_sentences True [] rest"
  by (induction w) auto

text \<open>Every match is such a stretch of the text.\<close>

lemma match_sound:
  assumes "m \<in> set (match_sentences skip cur src)"
    and "pre = [] \<or> re_space (last pre) \<or> skip \<and> (src = [] \<or> re_space (hd src))"
    and "skip \<Longrightarrow> cur = []" "\<not> inner_end (cur @ take 1 src)"
  shows "\<exists>a b. pre @ cur @ src = a @ m @ b \<and> (a = [] \<or> re_space (last a)) \<and>
    m \<noteq> [] \<and> is_end (last m) \<and> \<not> inner_end m"
  using assms
proof (induction src arbitrary: skip cur pre)
  case (Cons c cs)
  have t1: "\<not> inner_end (take 1 xs)" for xs by (cases xs) (auto simp: inner_end_Cons)
  consider "skip \<and> re_space c"
    | "\<not> (skip \<and> re_space c) \<and> is_end c \<and> (cs = [] \<or> re_space (hd cs))"
    | "\<not> (skip \<and> re_space c) \<and> \<not> (is_end c \<and> (cs = [] \<or> re_space (hd cs)))" by blast
  then show ?case
  proof cases
    case 1
    then show ?thesis
      using Cons.IH [of True "[]" "pre @ [c]"] Cons.prems(1,3) t1 by auto
  next
    case 2
    note found = 2
    then consider "m = cur @ [c]" | "m \<in> set (match_sentences True [] cs)"
      using Cons.prems(1) by auto
    then show ?thesis
    proof cases
      case 1
      then show ?thesis using Cons.prems found
        by (intro exI [of _ pre] exI [of _ cs]) auto
    next
      case 2
      then show ?thesis
        using Cons.IH [of True "[]" "pre @ cur @ [c]"] found t1 by auto
    qed
  next
    case 3
    note step = 3
    have "\<not> inner_end ((cur @ [c]) @ take 1 cs)"
      using Cons.prems(4) step inner_end_snoc [of "cur @ [c]"] by (cases cs) auto
    then show ?thesis
      using Cons.IH [of False "cur @ [c]" pre] Cons.prems step by auto
  qed
qed simp

text \<open>What \<open>splitSentences\<close> returns on a terminated src: sentences of it, at word boundaries.\<close>

definition occurs_in :: "string \<Rightarrow> string \<Rightarrow> bool" where
  "occurs_in s src \<longleftrightarrow> (\<exists>a b. src = a @ s @ b \<and> (a = [] \<or> is_space (last a)))"

lemma trim_match:
  assumes "m \<noteq> []" "is_end (last m)" "\<not> inner_end m"
  shows "sentence (TrimSpace m) \<and> (\<exists>w. m = w @ TrimSpace m \<and> list_all is_space w)"
proof -
  have tr: "TrimSpace m = dropWhile is_space m"
    using assms by (intro TrimSpace_keep_last) simp_all
  have m: "m = takeWhile is_space m @ TrimSpace m" by (simp add: tr)
  have ne: "TrimSpace m \<noteq> []"
    using assms by (metis dropWhile_eq_Nil_conv end_not_space(1) last_in_set tr)
  have "\<not> is_space (hd (TrimSpace m))"
    using ne tr by (metis hd_dropWhile)
  moreover have "last (TrimSpace m) = last m" using m ne by (metis last_appendR)
  moreover have "\<not> inner_end (TrimSpace m)" using m assms(3) by (metis inner_end_suffix)
  moreover have "list_all is_space (takeWhile is_space m)"
    by (auto simp: list_all_iff dest: set_takeWhileD)
  ultimately show ?thesis
    using m ne assms(2) unfolding sentence_def by (metis append_assoc)
qed

lemma splitSentences_terminated:
  assumes "terminated src" "s \<in> set (splitSentences src)"
  shows "sentence s \<and> occurs_in s src"
proof -
  let ?ms = "match_sentences False [] src"
  have sound: "\<exists>a b. src = a @ m @ b \<and> (a = [] \<or> re_space (last a)) \<and>
      m \<noteq> [] \<and> is_end (last m) \<and> \<not> inner_end m" if "m \<in> set ?ms" for m
    using match_sound [OF that, of "[]"] by (cases src) (auto simp: inner_end_Cons)
  then have ne: "TrimSpace m \<noteq> []" if "m \<in> set ?ms" for m
    using that trim_match [of m] by (auto simp: sentence_def)
  with assms have "s \<in> TrimSpace ` set ?ms"
    by (cases ?ms) (auto simp: splitSentences_def Let_def terminated_def split: if_splits)
  then obtain m where m: "m \<in> set ?ms" "s = TrimSpace m" by blast
  obtain a b where ab: "src = a @ m @ b" "a = [] \<or> re_space (last a)"
    and mm: "m \<noteq> []" "is_end (last m)" "\<not> inner_end m"
    using sound [OF m(1)] by blast
  obtain w where w: "m = w @ s" "list_all is_space w" "sentence s"
    using trim_match [OF mm] m(2) by blast
  have "src = (a @ w) @ s @ b" using ab w by simp
  moreover have "a @ w = [] \<or> is_space (last (a @ w))"
    using ab(2) w(2) re_space_is_space by (cases w rule: rev_cases) auto
  ultimately show ?thesis using w(3) unfolding occurs_in_def by blast
qed

lemma TrimSpace_sentence: "sentence s \<Longrightarrow> TrimSpace s = s"
proof -
  assume s: "sentence s"
  then have "TrimSpace s = dropWhile is_space s"
    by (intro TrimSpace_keep_last) (auto simp: sentence_def)
  also have "\<dots> = s" using s by (cases s) (auto simp: sentence_def)
  finally show ?thesis .
qed

subsection \<open>Lemmas: tokens\<close>

lemma token_runs_sep:
  "\<not> is_token_char c \<Longrightarrow> token_runs cur (xs @ c # ys) = token_runs cur xs @ token_runs [] ys"
  by (induction xs arbitrary: cur) auto

lemma lower_not_token [simp]:
  "is_space c \<Longrightarrow> \<not> is_token_char (lower_char c)"
  "is_end c \<Longrightarrow> \<not> is_token_char (lower_char c)"
  by (auto simp: is_space_def is_end_def is_token_char_def is_digit_def lower_char_def)

text \<open>The tokens of a sentence are tokens of the text it occurs in.\<close>

lemma tokens_occurs:
  assumes "sentence s" "occurs_in s t"
  shows "set (tokens s) \<subseteq> set (tokens t)"
proof -
  obtain a b where t: "t = a @ s @ b" "a = [] \<or> is_space (last a)"
    using assms(2) by (auto simp: occurs_in_def)
  obtain s' e where s: "s = s' @ [e]" "is_end e"
    using assms(1) by (metis append_butlast_last_id sentence_def)
  have "set (token_runs [] (ToLower s)) \<subseteq> set (token_runs [] (ToLower (s @ b)))"
    using s token_runs_sep [of "lower_char e"] by (simp add: ToLower_def)
  also have "\<dots> \<subseteq> set (token_runs [] (ToLower t))"
    using t token_runs_sep [of "lower_char (last a)" "[]" "map lower_char (butlast a)"]
    by (cases a rule: rev_cases) (auto simp: ToLower_def)
  finally show ?thesis by (simp add: tokens_def)
qed

lemma distinct_contentTokens [simp]: "distinct (contentTokens s)"
  by (simp add: contentTokens_def tokens_def)

lemma overlap_le: "overlap a b \<le> length a"
  by (simp add: overlap_def)

lemma overlap_full: "set a \<subseteq> set b \<Longrightarrow> overlap a b = length a"
  by (simp add: overlap_def filter_id_conv subset_iff)

text \<open>\<open>overlap\<close> counts the common elements of two token sets.\<close>

lemma overlap_card: "distinct a \<Longrightarrow> overlap a b = card (set a \<inter> set b)"
  by (simp add: overlap_def distinct_length_filter Int_commute)

subsection \<open>Lemmas: markers\<close>

lemma marker_len_Some:
  "marker_len s = Some n \<longleftrightarrow> (\<exists>ds r. s = ''[doc_'' @ ds @ '']'' @ r \<and> ds \<noteq> [] \<and>
     list_all is_digit ds \<and> n = 6 + length ds)"
proof
  assume "marker_len s = Some n"
  then have h: "HasPrefix s ''[doc_''" and
    d: "takeWhile is_digit (drop 5 s) \<noteq> []" "drop (5 + length (takeWhile is_digit (drop 5 s))) s \<noteq> []"
      "hd (drop (5 + length (takeWhile is_digit (drop 5 s))) s) = CHR '']''"
      "n = 6 + length (takeWhile is_digit (drop 5 s))"
    by (auto simp: marker_len_def Let_def split: if_splits)
  obtain t where t: "s = ''[doc_'' @ t" using h by (auto simp: HasPrefix_iff)
  have "drop (5 + length (takeWhile is_digit t)) s = dropWhile is_digit t"
    using t by (simp add: dropWhile_eq_drop numeral_eq_Suc)
  then obtain r where "dropWhile is_digit t = CHR '']'' # r"
    using d(2,3) t by (cases "dropWhile is_digit t") auto
  then have "t = takeWhile is_digit t @ '']'' @ r" by (metis append_Cons append_Nil takeWhile_dropWhile_id)
  moreover have "list_all is_digit (takeWhile is_digit t)"
    by (auto simp: list_all_iff dest: set_takeWhileD)
  ultimately show "\<exists>ds r. s = ''[doc_'' @ ds @ '']'' @ r \<and> ds \<noteq> [] \<and> list_all is_digit ds \<and> n = 6 + length ds"
    using t d(1,4) by (intro exI [of _ "takeWhile is_digit t"] exI [of _ r]) simp
next
  assume "\<exists>ds r. s = ''[doc_'' @ ds @ '']'' @ r \<and> ds \<noteq> [] \<and> list_all is_digit ds \<and> n = 6 + length ds"
  then obtain ds r where s: "s = ''[doc_'' @ ds @ '']'' @ r" "ds \<noteq> []" "list_all is_digit ds"
    "n = 6 + length ds" by blast
  have "\<not> is_digit (CHR '']'')" by (simp add: is_digit_def)
  then have "takeWhile is_digit (ds @ '']'' @ r) = ds"
    using s(3) by (simp add: list_all_iff takeWhile_append2)
  then show "marker_len s = Some n"
    using s by (simp add: marker_len_def numeral_eq_Suc)
qed

lemma has_marker_iff:
  "has_marker s \<longleftrightarrow> (\<exists>a ds r. s = a @ ''[doc_'' @ ds @ '']'' @ r \<and> ds \<noteq> [] \<and> list_all is_digit ds)"
proof (induction s)
  case (Cons c cs)
  show ?case
  proof
    assume "has_marker (c # cs)"
    then consider n where "marker_len (c # cs) = Some n" | "has_marker cs" by auto
    then show "\<exists>a ds r. c # cs = a @ ''[doc_'' @ ds @ '']'' @ r \<and> ds \<noteq> [] \<and> list_all is_digit ds"
    proof cases
      case 1
      then show ?thesis unfolding marker_len_Some by (metis append_Nil)
    next
      case 2
      then show ?thesis using Cons.IH by (metis append_Cons)
    qed
  next
    assume "\<exists>a ds r. c # cs = a @ ''[doc_'' @ ds @ '']'' @ r \<and> ds \<noteq> [] \<and> list_all is_digit ds"
    then obtain a ds r where e: "c # cs = a @ ''[doc_'' @ ds @ '']'' @ r" "ds \<noteq> []" "list_all is_digit ds"
      by blast
    show "has_marker (c # cs)"
    proof (cases a)
      case Nil
      then have "marker_len (c # cs) = Some (6 + length ds)" using e unfolding marker_len_Some by auto
      then show ?thesis by simp
    next
      case (Cons x xs)
      then show ?thesis using e Cons.IH by auto
    qed
  qed
qed simp

lemma no_marker_sub: "\<not> has_marker (a @ s @ b) \<Longrightarrow> \<not> has_marker s"
  unfolding has_marker_iff by (metis append_assoc)

lemma marker_chars:
  assumes "c \<in> set (''[doc_'' @ ds @ '']'')" "list_all is_digit ds"
  shows "\<not> is_end c"
  using assms by (auto simp: list_all_iff is_digit_def is_end_def)

text \<open>A sentence without markers passes the replacement unchanged.\<close>

lemma marker_len_sentence:
  assumes "\<not> has_marker (c # cs)" "is_end (last (c # cs))"
  shows "marker_len ((c # cs) @ v) = None"
proof (rule ccontr)
  assume "marker_len ((c # cs) @ v) \<noteq> None"
  then obtain n where "marker_len ((c # cs) @ v) = Some n" by blast
  then obtain ds r where e: "(c # cs) @ v = (''[doc_'' @ ds @ '']'') @ r" "ds \<noteq> []" "list_all is_digit ds"
    unfolding marker_len_Some by auto
  from e(1) consider us where "c # cs = (''[doc_'' @ ds @ '']'') @ us"
    | us where "''[doc_'' @ ds @ '']'' = (c # cs) @ us"
    unfolding append_eq_append_conv2 by metis
  then show False
  proof cases
    case 1
    then have "has_marker (c # cs)"
      unfolding has_marker_iff using e by (metis append.assoc append_Nil)
    with assms show False by simp
  next
    case 2
    then have "last (c # cs) \<in> set (''[doc_'' @ ds @ '']'')"
      by (metis UnI1 last_in_set list.discI set_append)
    with marker_chars e(3) assms(2) show False by blast
  qed
qed

lemma strip_sentence:
  "\<not> has_marker s \<Longrightarrow> s \<noteq> [] \<Longrightarrow> is_end (last s) \<Longrightarrow> strip_markers 0 (s @ v) = s @ strip_markers 0 v"
proof (induction s)
  case (Cons c cs)
  have m: "marker_len (c # cs @ v) = None"
    using marker_len_sentence [of c cs v] Cons.prems by simp
  show ?case
  proof (cases "cs = []")
    case False
    with Cons m show ?thesis by simp
  qed (use m in simp)
qed simp

lemma strip_drop: "strip_markers n (u @ v) = strip_markers 0 v" if "length u = n"
  using that by (induction u arbitrary: n) auto

lemma strip_marker:
  assumes "ds \<noteq> []" "list_all is_digit ds"
  shows "strip_markers 0 (''[doc_'' @ ds @ '']'' @ v) = strip_markers 0 v"
proof -
  have "marker_len (''[doc_'' @ ds @ '']'' @ v) = Some (6 + length ds)"
    unfolding marker_len_Some using assms by blast
  then show ?thesis
    using strip_drop [of "''doc_'' @ ds @ '']''" "5 + length ds" v] by simp
qed

lemma strip_space: "strip_markers 0 (CHR '' '' # v) = CHR '' '' # strip_markers 0 v"
  by (simp add: marker_len_def)

end
