(* ===== verification/Rag.thy ===== *)
theory Rag
  imports Sentences Json
begin

text \<open>
  Package \<open>internal/rag\<close>: the extractive provider and the prompt (\<open>rag.go\<close>), the
  faithfulness check (\<open>faithfulness.go\<close>), citation recovery (\<open>cite.go\<close>) and the LiteLLM
  provider and judge (\<open>litellm.go\<close>). The HTTP round trip to the proxy is an argument, a
  function from the chat request to the reply; the concrete syntax of the judge's JSON text
  is the argument \<open>parse\<close>. Structs are records; \<open>Provider\<close> is a datatype with one
  constructor per implementation, which is also the dynamic type the \<open>Judge\<close> assertion
  tests.
\<close>

record rag_source =
  sr_Marker :: string
  sr_DocID :: string
  sr_Origin :: string
  sr_Text :: string
  sr_Score :: real

record citation =
  ct_Marker :: string
  ct_DocID :: string
  ct_Source :: string
  ct_Score :: real

record answer =
  an_Text :: string
  an_Model :: string
  an_Citations :: "citation list"

subsection \<open>The extractive provider\<close>

record scoredSentence =
  ss_text :: string
  ss_marker :: string
  ss_docID :: string
  ss_origin :: string
  ss_score :: real

definition ExtractiveName :: string where "ExtractiveName = ''extractive-v1''"

text \<open>The candidates of one source: sentences sharing a content token with the query.\<close>

definition source_cands :: "string list \<Rightarrow> rag_source \<Rightarrow> scoredSentence list" where
  "source_cands q s =
     map (\<lambda>sent. \<lparr>ss_text = sent, ss_marker = sr_Marker s, ss_docID = sr_DocID s,
                   ss_origin = sr_Origin s, ss_score = real (overlap q (contentTokens sent))\<rparr>)
       (filter (\<lambda>sent. overlap q (contentTokens sent) \<noteq> 0) (splitSentences (sr_Text s)))"

definition cand_less :: "scoredSentence \<Rightarrow> scoredSentence \<Rightarrow> bool" where
  "cand_less a b =
     (if ss_score a = ss_score b then ss_marker a < ss_marker b else ss_score a > ss_score b)"

definition part_of :: "scoredSentence \<Rightarrow> string" where
  "part_of c = ss_text c @ '' ['' @ ss_marker c @ '']''"

definition cite_of :: "scoredSentence \<Rightarrow> citation" where
  "cite_of c = \<lparr>ct_Marker = ss_marker c, ct_DocID = ss_docID c, ct_Source = ss_origin c, ct_Score = 0\<rparr>"

definition add_cite :: "scoredSentence \<Rightarrow> (string \<times> citation) list \<Rightarrow> (string \<times> citation) list" where
  "add_cite c cites =
     (if ss_marker c \<in> set (map fst cites) then cites else cites @ [(ss_marker c, cite_of c)])"

text \<open>The loop over the ranked candidates: \<open>parts\<close>, \<open>seenCite\<close>, \<open>seenText\<close>.\<close>

fun pick_parts ::
  "scoredSentence list \<Rightarrow> string list \<Rightarrow> (string \<times> citation) list \<Rightarrow> string list \<Rightarrow>
   string list \<times> (string \<times> citation) list" where
  "pick_parts [] parts cites seenText = (parts, cites)"
| "pick_parts (c # cs) parts cites seenText =
     (if length parts \<ge> 3 then (parts, cites)
      else if ss_text c \<in> set seenText then pick_parts cs parts cites seenText
      else pick_parts cs (parts @ [part_of c]) (add_cite c cites) (ss_text c # seenText))"

definition cite_less :: "citation \<Rightarrow> citation \<Rightarrow> bool" where
  "cite_less a b \<longleftrightarrow> ct_Marker a < ct_Marker b"

definition extractive_cands :: "string \<Rightarrow> rag_source list \<Rightarrow> scoredSentence list" where
  "extractive_cands query sources = concat (map (source_cands (contentTokens query)) sources)"

definition ExtractiveGenerate :: "string \<Rightarrow> rag_source list \<Rightarrow> answer" where
  "ExtractiveGenerate query sources =
     (let cands = extractive_cands query sources
      in if cands = []
         then \<lparr>an_Text = ''Not found in sources.'', an_Model = ExtractiveName, an_Citations = []\<rparr>
         else (case pick_parts (SliceStable cand_less cands) [] [] [] of
                 (parts, cites) \<Rightarrow>
                   \<lparr>an_Text = Join parts '' '', an_Model = ExtractiveName,
                    an_Citations = SliceStable cite_less (map snd cites)\<rparr>))"

subsection \<open>The prompt\<close>

definition quote :: string where "quote = [CHR 0x22]"

definition newline :: string where "newline = [CHR 0x0A]"

definition BuildPrompt :: "string \<Rightarrow> rag_source list \<Rightarrow> string \<times> string" where
  "BuildPrompt query sources =
     (''Answer ONLY using the numbered sources. Cite each claim as [doc_N]. '' @
      ''If the sources do not contain the answer, reply '' @ quote @ ''Not found in sources.'' @
      quote @ '' Do not use outside knowledge. Do not guess.'',
      ''Sources:'' @ newline @
      concat (map (\<lambda>s. ''['' @ sr_Marker s @ ''] (source='' @ sr_Origin s @ '') '' @ sr_Text s @
        newline) sources) @
      ''Question: '' @ query)"

subsection \<open>Faithfulness\<close>

record faithfulness_result =
  fr_Score :: real
  fr_Unsupported :: "string list"

text \<open>The best fraction of a sentence's content tokens found in one source.\<close>

fun best_frac :: "string list \<Rightarrow> string list list \<Rightarrow> real \<Rightarrow> real" where
  "best_frac st [] best = best"
| "best_frac st (src # srcs) best =
     (let frac = real (overlap st src) / real (length st)
      in best_frac st srcs (if frac > best then frac else best))"

fun score_sentences ::
  "string list list \<Rightarrow> string list \<Rightarrow> nat \<Rightarrow> string list \<Rightarrow> nat \<times> string list" where
  "score_sentences srcToks [] supported unsupported = (supported, unsupported)"
| "score_sentences srcToks (sent # sents) supported unsupported =
     (let st = contentTokens sent
      in if st = [] then score_sentences srcToks sents (supported + 1) unsupported
         else if best_frac st srcToks 0 \<ge> 6 / 10
         then score_sentences srcToks sents (supported + 1) unsupported
         else score_sentences srcToks sents supported (unsupported @ [sent]))"

definition Faithfulness :: "string \<Rightarrow> rag_source list \<Rightarrow> faithfulness_result" where
  "Faithfulness ans sources =
     (let sentences = splitSentences (strip_markers 0 ans)
      in if sentences = [] then \<lparr>fr_Score = 1, fr_Unsupported = []\<rparr>
         else (case score_sentences (map (\<lambda>s. tokens (sr_Text s)) sources) sentences 0 [] of
                 (supported, unsupported) \<Rightarrow>
                   \<lparr>fr_Score = real supported / real (length sentences),
                    fr_Unsupported = unsupported\<rparr>))"

subsection \<open>Citations from free text\<close>

text \<open>The matches of \<open>doc_(\d+)\<close>; the number is how much of a match is left to skip.\<close>

fun find_markers :: "nat \<Rightarrow> string \<Rightarrow> string list" where
  "find_markers n [] = []"
| "find_markers (Suc n) (c # cs) = find_markers n cs"
| "find_markers 0 (c # cs) =
     (let ds = takeWhile is_digit (drop 4 (c # cs))
      in if HasPrefix (c # cs) ''doc_'' \<and> ds \<noteq> []
         then (''doc_'' @ ds) # find_markers (3 + length ds) cs
         else find_markers 0 cs)"

text \<open>\<open>byMarker\<close>: a later source with the same marker replaces an earlier one.\<close>

definition byMarker :: "rag_source list \<Rightarrow> string \<rightharpoonup> rag_source" where
  "byMarker sources = map_of (rev (map (\<lambda>s. (sr_Marker s, s)) sources))"

fun cite_loop ::
  "(string \<rightharpoonup> rag_source) \<Rightarrow> string list \<Rightarrow> string list \<Rightarrow> citation list \<Rightarrow> citation list" where
  "cite_loop bm [] seen cites = cites"
| "cite_loop bm (m # ms) seen cites =
     (if m \<in> set seen then cite_loop bm ms seen cites
      else cite_loop bm ms (m # seen)
        (case bm m of
           None \<Rightarrow> cites
         | Some s \<Rightarrow> cites @ [\<lparr>ct_Marker = m, ct_DocID = sr_DocID s, ct_Source = sr_Origin s,
                              ct_Score = sr_Score s\<rparr>]))"

definition citationsFromText :: "string \<Rightarrow> rag_source list \<Rightarrow> citation list" where
  "citationsFromText txt0 sources = cite_loop (byMarker sources) (find_markers 0 txt0) [] []"

subsection \<open>The LiteLLM provider\<close>

record litellm =
  ll_base :: string
  ll_apiKey :: string
  ll_model :: string

definition NewLiteLLM :: "string \<Rightarrow> string \<Rightarrow> string \<Rightarrow> litellm" where
  "NewLiteLLM base apiKey model =
     \<lparr>ll_base = base, ll_apiKey = apiKey,
      ll_model = (if model = [] then ''gemini-flash'' else model)\<rparr>"

definition LiteLLMName :: "litellm \<Rightarrow> string" where
  "LiteLLMName l = ''litellm:'' @ ll_model l"

text \<open>The request: URL, the Authorization header if one is set, the JSON body.\<close>

record chat_request =
  cq_url :: string
  cq_auth :: "string option"
  cq_body :: json

type_synonym chat_api = "chat_request \<Rightarrow> http_reply"

definition dec_message :: "string decoder" where
  "dec_message = dec_struct (\<lambda>k j x. if k = ''content'' then into dec_string x (\<lambda>s. s) j else Inr x)"

definition dec_choice :: "string decoder" where
  "dec_choice = dec_struct (\<lambda>k j x. if k = ''message'' then into dec_message x (\<lambda>s. s) j else Inr x)"

definition dec_choices :: "string list decoder" where
  "dec_choices =
     dec_struct (\<lambda>k j x. if k = ''choices'' then into (dec_slice [] dec_choice) x (\<lambda>s. s) j else Inr x)"

definition complete :: "chat_api \<Rightarrow> litellm \<Rightarrow> string \<Rightarrow> string \<Rightarrow> int \<Rightarrow> http_error + string" where
  "complete api l system user maxTokens =
     (case api \<lparr>cq_url = ll_base l @ ''/v1/chat/completions'',
                cq_auth = (if ll_apiKey l = [] then None else Some (''Bearer '' @ ll_apiKey l)),
                cq_body = JObj [(''model'', JStr (ll_model l)),
                  (''messages'', JArr [JObj [(''role'', JStr ''system''), (''content'', JStr system)],
                                       JObj [(''role'', JStr ''user''), (''content'', JStr user)]]),
                  (''max_tokens'', JInt maxTokens), (''temperature'', JInt 0)]\<rparr> of
        TransportError e \<Rightarrow> Inl (HttpTransport e)
      | Reply status body \<Rightarrow>
          (if status \<ge> 400 then Inl (HttpStatus status)
           else (case Unmarshal dec_choices [] body of
                   Inl e \<Rightarrow> Inl (HttpDecode e)
                 | Inr [] \<Rightarrow> Inr []
                 | Inr (c # cs) \<Rightarrow> Inr c)))"

definition LiteGenerate :: "chat_api \<Rightarrow> litellm \<Rightarrow> string \<Rightarrow> rag_source list \<Rightarrow> http_error + answer" where
  "LiteGenerate api l query sources =
     (case BuildPrompt query sources of
        (system, user) \<Rightarrow>
          (case complete api l system user 2048 of
             Inl e \<Rightarrow> Inl e
           | Inr t \<Rightarrow> Inr \<lparr>an_Text = t, an_Model = LiteLLMName l,
                           an_Citations = citationsFromText t sources\<rparr>))"

text \<open>\<open>text[i : j+1]\<close> from the first opening to the last closing brace, when in that order.\<close>

definition brace_span :: "string \<Rightarrow> string" where
  "brace_span t =
     (let i = length (takeWhile (\<lambda>c. c \<noteq> CHR ''{'') t);
          n = length (takeWhile (\<lambda>c. c \<noteq> CHR ''}'') (rev t))
      in if CHR ''{'' \<in> set t \<and> CHR ''}'' \<in> set t \<and> length t - n - 1 > i
         then take (length t - n - i) (drop i t) else t)"

definition dec_result :: "faithfulness_result decoder" where
  "dec_result = dec_struct (\<lambda>k j x.
     if k = ''score'' then into dec_float (fr_Score x) (\<lambda>v. x\<lparr>fr_Score := v\<rparr>) j
     else if k = ''unsupported''
     then into (dec_slice [] dec_string) (fr_Unsupported x) (\<lambda>v. x\<lparr>fr_Unsupported := v\<rparr>) j
     else Inr x)"

definition judge_system :: string where
  "judge_system =
     ''You are a strict faithfulness judge for a RAG system. Given SOURCES and an '' @
     ''ANSWER, decide what fraction of the answer'' @ [CHR 0x27] @
     ''s factual claims are directly supported by '' @
     ''the sources. Respond ONLY with compact JSON: {'' @ quote @ ''score'' @ quote @
     '': <0..1>, '' @ quote @ ''unsupported'' @ quote @ '': ['' @ quote @ ''<claim>'' @ quote @
     '', ...]}. '' @ ''No prose, no code fences.''"

definition JudgeFaithfulness ::
  "chat_api \<Rightarrow> (string \<Rightarrow> raw) \<Rightarrow> litellm \<Rightarrow> string \<Rightarrow> rag_source list \<Rightarrow>
   http_error + faithfulness_result" where
  "JudgeFaithfulness api parse l ans sources =
     (case complete api l judge_system
         (''SOURCES:'' @ newline @
          concat (map (\<lambda>s. ''['' @ sr_Marker s @ ''] '' @ sr_Text s @ newline) sources) @
          newline @ ''ANSWER:'' @ newline @ ans) 2048 of
        Inl e \<Rightarrow> Inl e
      | Inr t \<Rightarrow>
          (case Unmarshal dec_result \<lparr>fr_Score = 0, fr_Unsupported = []\<rparr> (parse (brace_span t)) of
             Inl e \<Rightarrow> Inl (HttpDecode e)
           | Inr parsed \<Rightarrow>
               Inr (if fr_Score parsed < 0 then parsed\<lparr>fr_Score := 0\<rparr>
                    else if fr_Score parsed > 1 then parsed\<lparr>fr_Score := 1\<rparr> else parsed)))"

subsection \<open>Providers\<close>

datatype provider = Extractive | LiteLLM litellm

definition NewProvider :: "(string \<Rightarrow> string) \<Rightarrow> provider" where
  "NewProvider getenv =
     (if ToLower (getenv ''LLM_PROVIDER'') = ''litellm'' \<and> getenv ''LITELLM_URL'' \<noteq> []
      then LiteLLM (NewLiteLLM (getenv ''LITELLM_URL'') (getenv ''LITELLM_API_KEY'') (getenv ''LLM_MODEL''))
      else Extractive)"

definition ProviderName :: "provider \<Rightarrow> string" where
  "ProviderName p = (case p of Extractive \<Rightarrow> ExtractiveName | LiteLLM l \<Rightarrow> LiteLLMName l)"

definition Generate :: "chat_api \<Rightarrow> provider \<Rightarrow> string \<Rightarrow> rag_source list \<Rightarrow> http_error + answer" where
  "Generate api p query sources =
     (case p of
        Extractive \<Rightarrow> Inr (ExtractiveGenerate query sources)
      | LiteLLM l \<Rightarrow> LiteGenerate api l query sources)"

definition ScoreFaithfulness ::
  "chat_api \<Rightarrow> (string \<Rightarrow> raw) \<Rightarrow> string \<Rightarrow> provider \<Rightarrow> string \<Rightarrow> rag_source list \<Rightarrow> faithfulness_result" where
  "ScoreFaithfulness api parse mode p ans sources =
     (if mode = ''llm''
      then (case p of
              Extractive \<Rightarrow> Faithfulness ans sources
            | LiteLLM l \<Rightarrow>
                (case JudgeFaithfulness api parse l ans sources of
                   Inr res \<Rightarrow> res
                 | Inl e \<Rightarrow> Faithfulness ans sources))
      else Faithfulness ans sources)"

subsection \<open>Specification\<close>

text \<open>The first \<open>n\<close> candidates with different texts.\<close>

fun chosen :: "nat \<Rightarrow> string list \<Rightarrow> scoredSentence list \<Rightarrow> scoredSentence list" where
  "chosen n seen [] = []"
| "chosen 0 seen (c # cs) = []"
| "chosen (Suc n) seen (c # cs) =
     (if ss_text c \<in> set seen then chosen (Suc n) seen cs
      else c # chosen n (ss_text c # seen) cs)"

text \<open>The rule a sentence is accepted by.\<close>

definition supported :: "rag_source list \<Rightarrow> string \<Rightarrow> bool" where
  "supported sources sent \<longleftrightarrow> contentTokens sent = [] \<or>
     list_ex (\<lambda>s. real (overlap (contentTokens sent) (tokens (sr_Text s))) \<ge>
       6 / 10 * real (length (contentTokens sent))) sources"

text \<open>What the query service builds: a marker of its own numbering, a text with a terminated
  sentence and no citation marker in it.\<close>

definition citable :: "rag_source \<Rightarrow> bool" where
  "citable s \<longleftrightarrow> (HasPrefix (sr_Marker s) ''doc_'' \<and> drop 4 (sr_Marker s) \<noteq> [] \<and>
     list_all is_digit (drop 4 (sr_Marker s))) \<and> terminated (sr_Text s) \<and> \<not> has_marker (sr_Text s)"

subsection \<open>Lemmas: the extractive provider\<close>

interpretation cand_order: strict_weak_order cand_less
  by unfold_locales (auto simp: cand_less_def split: if_splits)

interpretation cite_order: strict_weak_order cite_less
  by unfold_locales (auto simp: cite_less_def)

lemma pick_parts_chosen:
  "pick_parts cs parts cites seen =
     (parts @ map part_of (chosen (3 - length parts) seen cs),
      foldl (\<lambda>m c. add_cite c m) cites (chosen (3 - length parts) seen cs))"
proof (induction cs arbitrary: parts cites seen)
  case (Cons c cs)
  show ?case
  proof (cases "length parts \<ge> 3")
    case False
    then obtain k where k: "3 - length parts = Suc k" "3 - Suc (length parts) = k"
      by (metis Suc_diff_Suc not_le)
    then show ?thesis using Cons False by simp
  qed simp
qed simp

lemma chosen_subset: "set (chosen n seen cs) \<subseteq> set cs"
  by (induction n seen cs rule: chosen.induct) auto

lemma chosen_length: "length (chosen n seen cs) \<le> n"
  by (induction n seen cs rule: chosen.induct) auto

lemma chosen_fresh: "c \<in> set (chosen n seen cs) \<Longrightarrow> ss_text c \<notin> set seen"
  by (induction n seen cs rule: chosen.induct) (auto split: if_splits)

lemma chosen_distinct: "distinct (map ss_text (chosen n seen cs))"
  by (induction n seen cs rule: chosen.induct) (auto dest: chosen_fresh)

lemma chosen_sorted: "sorted_wrt P cs \<Longrightarrow> sorted_wrt P (chosen n seen cs)"
  by (induction n seen cs rule: chosen.induct) (use chosen_subset in \<open>force+\<close>)

text \<open>A candidate left out has the text of a chosen one or comes after all of them.\<close>

lemma chosen_best:
  assumes "sorted_wrt P cs" "c \<in> set cs" "ss_text c \<notin> set seen"
    "ss_text c \<notin> ss_text ` set (chosen n seen cs)" "d \<in> set (chosen n seen cs)"
  shows "P d c"
  using assms
proof (induction n seen cs rule: chosen.induct)
  case (3 n seen x xs)
  show ?case
  proof (cases "ss_text x \<in> set seen")
    case True
    then show ?thesis using 3 by auto
  next
    case False
    then have cx: "c \<in> set xs" "ss_text c \<noteq> ss_text x" using "3.prems" by auto
    show ?thesis
    proof (cases "d = x")
      case True
      then show ?thesis using cx "3.prems"(1) by simp
    next
      case d: False
      then show ?thesis using 3 False cx by auto
    qed
  qed
qed simp_all

lemma chosen_nonempty: "cs \<noteq> [] \<Longrightarrow> chosen (Suc n) [] cs \<noteq> []"
  by (cases cs) auto

definition add_cites :: "scoredSentence list \<Rightarrow> (string \<times> citation) list" where
  "add_cites cs = foldl (\<lambda>m c. add_cite c m) [] cs"

lemma add_cites_snoc: "add_cites (cs @ [c]) = add_cite c (add_cites cs)"
  by (simp add: add_cites_def)

lemma add_cites_keys: "set (map fst (add_cites cs)) = ss_marker ` set cs"
proof (induction cs rule: rev_induct)
  case (snoc c cs)
  then show ?case by (auto simp: add_cites_snoc add_cite_def)
qed (simp add: add_cites_def)

lemma add_cites_distinct: "distinct (map fst (add_cites cs))"
proof (induction cs rule: rev_induct)
  case (snoc c cs)
  then show ?case by (auto simp: add_cites_snoc add_cite_def)
qed (simp add: add_cites_def)

lemma add_cites_from: "p \<in> set (add_cites cs) \<Longrightarrow> \<exists>c\<in>set cs. p = (ss_marker c, cite_of c)"
proof (induction cs rule: rev_induct)
  case (snoc c cs)
  then show ?case by (fastforce simp: add_cites_snoc add_cite_def split: if_splits)
qed (simp add: add_cites_def)

lemma add_cites_markers: "map ct_Marker (map snd (add_cites cs)) = map fst (add_cites cs)"
  using add_cites_from by (fastforce simp: cite_of_def)

lemma extractive_cands_iff:
  "c \<in> set (extractive_cands q sources) \<longleftrightarrow>
   (\<exists>s\<in>set sources. \<exists>t\<in>set (splitSentences (sr_Text s)).
      overlap (contentTokens q) (contentTokens t) \<noteq> 0 \<and>
      c = \<lparr>ss_text = t, ss_marker = sr_Marker s, ss_docID = sr_DocID s, ss_origin = sr_Origin s,
           ss_score = real (overlap (contentTokens q) (contentTokens t))\<rparr>)"
  by (auto simp: extractive_cands_def source_cands_def)

text \<open>The sentences an answer is made of.\<close>

definition extracted :: "string \<Rightarrow> rag_source list \<Rightarrow> scoredSentence list" where
  "extracted q sources = chosen 3 [] (SliceStable cand_less (extractive_cands q sources))"

lemma ExtractiveGenerate_text:
  "extractive_cands q sources \<noteq> [] \<Longrightarrow>
   an_Text (ExtractiveGenerate q sources) = Join (map part_of (extracted q sources)) '' ''"
  by (simp add: ExtractiveGenerate_def pick_parts_chosen extracted_def Let_def)

lemma ExtractiveGenerate_cites:
  "extractive_cands q sources \<noteq> [] \<Longrightarrow>
   an_Citations (ExtractiveGenerate q sources) =
     SliceStable cite_less (map snd (add_cites (extracted q sources)))"
  by (simp add: ExtractiveGenerate_def pick_parts_chosen extracted_def add_cites_def Let_def)

lemma extracted_cands: "set (extracted q sources) \<subseteq> set (extractive_cands q sources)"
  using chosen_subset [of 3 "[]" "SliceStable cand_less (extractive_cands q sources)"]
  by (simp add: extracted_def)

lemma extracted_nonempty: "extractive_cands q sources \<noteq> [] \<Longrightarrow> extracted q sources \<noteq> []"
  using chosen_nonempty [of "SliceStable cand_less (extractive_cands q sources)" 2]
  by (simp add: extracted_def numeral_3_eq_3)

text \<open>Every extracted sentence comes from a source.\<close>

definition from_source :: "rag_source \<Rightarrow> scoredSentence \<Rightarrow> bool" where
  "from_source s c \<longleftrightarrow> ss_text c \<in> set (splitSentences (sr_Text s)) \<and>
     ss_marker c = sr_Marker s \<and> ss_docID c = sr_DocID s \<and> ss_origin c = sr_Origin s"

lemma extracted_source: "c \<in> set (extracted q sources) \<Longrightarrow> \<exists>s. from_source s c \<and> s \<in> set sources"
  using extracted_cands [of q sources] extractive_cands_iff [of c q sources]
  by (fastforce simp: from_source_def)

lemma extracted_best:
  assumes "s \<in> set sources" "t \<in> set (splitSentences (sr_Text s))"
    "t \<notin> ss_text ` set (extracted q sources)" "d \<in> set (extracted q sources)"
  shows "overlap (contentTokens q) (contentTokens t) \<le> overlap (contentTokens q) (contentTokens (ss_text d))"
proof (cases "overlap (contentTokens q) (contentTokens t) = 0")
  case False
  then obtain c where c: "c \<in> set (extractive_cands q sources)" "ss_text c = t"
    "ss_score c = real (overlap (contentTokens q) (contentTokens t))"
    using assms(1,2) extractive_cands_iff [of _ q sources] by fastforce
  have "\<not> cand_less c d"
    using chosen_best [OF cand_order.sorted_SliceStable, of c "extractive_cands q sources" "[]" 3 d]
      assms(3,4) c by (simp add: extracted_def)
  moreover have "ss_score d = real (overlap (contentTokens q) (contentTokens (ss_text d)))"
    using assms(4) extracted_cands [of q sources] extractive_cands_iff [of d q sources] by fastforce
  ultimately show ?thesis using c by (auto simp: cand_less_def split: if_splits)
qed simp

lemma extractive_cite_markers:
  assumes "extractive_cands q sources \<noteq> []"
  shows "ct_Marker ` set (an_Citations (ExtractiveGenerate q sources)) = ss_marker ` set (extracted q sources)"
proof -
  have "ct_Marker ` set (map snd (add_cites cs)) = ss_marker ` set cs" for cs
    using add_cites_markers [of cs] add_cites_keys [of cs] by (metis set_map)
  then show ?thesis by (simp add: ExtractiveGenerate_cites [OF assms])
qed

lemma extractive_cites_sorted:
  assumes "extractive_cands q sources \<noteq> []"
  shows "sorted_wrt (\<lambda>a b. ct_Marker a < ct_Marker b) (an_Citations (ExtractiveGenerate q sources))"
proof -
  let ?cs = "map snd (add_cites (extracted q sources))"
  have "distinct (map ct_Marker ?cs)"
    using add_cites_distinct add_cites_markers by metis
  then have "distinct (map ct_Marker (SliceStable cite_less ?cs))"
    by (simp only: distinct_map_SliceStable)
  then have "sorted_wrt (\<lambda>a b. ct_Marker a < ct_Marker b) (SliceStable cite_less ?cs)"
    using cite_order.sorted_SliceStable by (rule sorted_wrt_strict) (auto simp: cite_less_def)
  then show ?thesis by (simp add: ExtractiveGenerate_cites [OF assms])
qed

lemma extractive_cites_from:
  assumes "extractive_cands q sources \<noteq> []"
  shows "\<forall>c\<in>set (an_Citations (ExtractiveGenerate q sources)). \<exists>s\<in>set sources.
    c = \<lparr>ct_Marker = sr_Marker s, ct_DocID = sr_DocID s, ct_Source = sr_Origin s, ct_Score = 0\<rparr>"
proof
  fix c assume "c \<in> set (an_Citations (ExtractiveGenerate q sources))"
  then have "c \<in> snd ` set (add_cites (extracted q sources))"
    by (simp add: ExtractiveGenerate_cites [OF assms])
  then obtain e where "e \<in> set (extracted q sources)" "c = cite_of e"
    using add_cites_from by fastforce
  then show "\<exists>s\<in>set sources.
    c = \<lparr>ct_Marker = sr_Marker s, ct_DocID = sr_DocID s, ct_Source = sr_Origin s, ct_Score = 0\<rparr>"
    using extracted_source [of e q sources] by (auto simp: from_source_def cite_of_def)
qed

subsection \<open>Lemmas: faithfulness\<close>

lemma best_frac_ge: "best_frac st srcs best \<ge> x \<longleftrightarrow>
    best \<ge> x \<or> list_ex (\<lambda>src. real (overlap st src) / real (length st) \<ge> x) srcs"
proof (induction srcs arbitrary: best)
  case (Cons src srcs)
  show ?case
    using Cons.IH [of best] Cons.IH [of "real (overlap st src) / real (length st)"]
    by (cases "real (overlap st src) / real (length st) > best") (simp_all add: Let_def, linarith+)
qed simp

lemma supported_best:
  "contentTokens sent \<noteq> [] \<Longrightarrow>
   best_frac (contentTokens sent) (map (\<lambda>s. tokens (sr_Text s)) sources) 0 \<ge> 6 / 10 \<longleftrightarrow>
   supported sources sent"
  by (simp add: best_frac_ge supported_def list_ex_iff pos_le_divide_eq)

lemma score_sentences_filter:
  "score_sentences (map (\<lambda>s. tokens (sr_Text s)) sources) sents n us =
     (n + length (filter (supported sources) sents), us @ filter (\<lambda>s. \<not> supported sources s) sents)"
proof (induction sents arbitrary: n us)
  case (Cons x xs)
  then show ?case
    using supported_best [of x sources]
    by (cases "contentTokens x = []") (auto simp: Let_def supported_def [of sources x])
qed simp

lemma Faithfulness_eq:
  "Faithfulness ans sources =
     (let ss = splitSentences (strip_markers 0 ans)
      in \<lparr>fr_Score = (if ss = [] then 1 else real (length (filter (supported sources) ss)) / real (length ss)),
          fr_Unsupported = filter (\<lambda>s. \<not> supported sources s) ss\<rparr>)"
  by (simp add: Faithfulness_def Let_def score_sentences_filter)

lemma Faithfulness_bounds: "0 \<le> fr_Score (Faithfulness ans sources) \<and> fr_Score (Faithfulness ans sources) \<le> 1"
  by (simp add: Faithfulness_eq Let_def divide_le_eq)

text \<open>A sentence of a source is supported by that source.\<close>

lemma supported_verbatim:
  assumes "s \<in> set sources" "sentence t" "occurs_in t (sr_Text s)"
  shows "supported sources t"
proof -
  have "set (contentTokens t) \<subseteq> set (tokens (sr_Text s))"
    using tokens_occurs [OF assms(2,3)] by (auto simp: contentTokens_def)
  then show ?thesis
    using assms(1) by (auto simp: supported_def overlap_full list_ex_iff intro!: bexI [of _ s])
qed

text \<open>The answer text, stripped of its markers, splits back into the extracted sentences.\<close>

lemma split_answer:
  assumes "\<And>c. c \<in> set cs \<Longrightarrow> sentence (ss_text c) \<and> \<not> has_marker (ss_text c) \<and>
    (\<exists>ds. ss_marker c = ''doc_'' @ ds \<and> ds \<noteq> [] \<and> list_all is_digit ds)"
  shows "match_sentences skip [] (strip_markers 0 (Join (map part_of cs) '' '')) = map ss_text cs"
  using assms
proof (induction cs arbitrary: skip)
  case (Cons c cs)
  let ?s = "ss_text c"
  have sp: "re_space (CHR '' '')" by (simp add: re_space_def)
  obtain ds where ds: "ss_marker c = ''doc_'' @ ds" "ds \<noteq> []" "list_all is_digit ds"
    using Cons.prems [of c] by auto
  have s: "?s \<noteq> []" "is_end (last ?s)" "\<not> inner_end ?s" "\<not> re_space (hd ?s)" "\<not> has_marker ?s"
    using Cons.prems [of c] re_space_is_space by (auto simp: sentence_def)
  have head: "strip_markers 0 (part_of c @ v) = ?s @ '' '' @ strip_markers 0 v" for v
    using strip_sentence [OF s(5,1,2)] strip_marker [OF ds(2,3), of v] ds(1)
    by (simp add: part_of_def strip_space del: strip_markers.simps)
  have next_: "match_sentences skip [] (?s @ '' '' @ v) = ?s # match_sentences True [] v" for v
    using match_next [OF s(1-3), of skip "'' '' @ v" "[]"] s(4) sp by simp
  show ?case
  proof (cases "cs = []")
    case True
    then show ?thesis using head [of "[]"] next_ [of "[]"] by simp
  next
    case False
    then have "strip_markers 0 (Join (map part_of (c # cs)) '' '') =
        ?s @ '' '' @ '' '' @ strip_markers 0 (Join (map part_of cs) '' '')"
      using head [of "'' '' @ Join (map part_of cs) '' ''"] by (simp add: Join_Cons strip_space del: strip_markers.simps)
    then show ?thesis using next_ sp Cons.IH [of True] Cons.prems by simp
  qed
qed simp

lemma splitSentences_match:
  assumes "match_sentences False [] t = ss" "ss \<noteq> []" "\<And>s. s \<in> set ss \<Longrightarrow> sentence s"
  shows "splitSentences t = ss"
proof -
  have "map TrimSpace ss = ss"
    using assms(3) TrimSpace_sentence by (simp add: map_idI)
  moreover have "filter (\<lambda>s. s \<noteq> []) ss = ss"
    using assms(3) by (auto simp: filter_id_conv sentence_def)
  ultimately show ?thesis using assms by (simp add: splitSentences_def)
qed

lemma citable_markers:
  "citable s \<Longrightarrow> \<exists>ds. sr_Marker s = ''doc_'' @ ds \<and> ds \<noteq> [] \<and> list_all is_digit ds"
  by (auto simp: citable_def HasPrefix_iff)

lemma citable_sentence:
  assumes "citable s" "t \<in> set (splitSentences (sr_Text s))"
  shows "sentence t \<and> occurs_in t (sr_Text s) \<and> \<not> has_marker t"
proof -
  have "sentence t \<and> occurs_in t (sr_Text s)"
    using assms splitSentences_terminated [of "sr_Text s" t] by (simp add: citable_def)
  moreover from this have "\<not> has_marker t"
    using assms(1) no_marker_sub unfolding citable_def occurs_in_def by metis
  ultimately show ?thesis by simp
qed

text \<open>Extractive answers are supported sentence by sentence.\<close>

lemma extractive_answers_faithful:
  assumes "\<And>s. s \<in> set sources \<Longrightarrow> citable s"
    and "an_Citations (ExtractiveGenerate q sources) \<noteq> []"
  shows "Faithfulness (an_Text (ExtractiveGenerate q sources)) sources =
    \<lparr>fr_Score = 1, fr_Unsupported = []\<rparr>"
proof -
  let ?E = "extracted q sources"
  have ne: "extractive_cands q sources \<noteq> []" using assms(2) by (auto simp: ExtractiveGenerate_def)
  have E: "\<exists>s\<in>set sources. citable s \<and> ss_text c \<in> set (splitSentences (sr_Text s)) \<and> ss_marker c = sr_Marker s"
    if "c \<in> set ?E" for c
    using that extracted_cands [of q sources] extractive_cands_iff [of c q sources] assms(1) by fastforce
  have good: "sentence (ss_text c) \<and> \<not> has_marker (ss_text c) \<and>
      (\<exists>ds. ss_marker c = ''doc_'' @ ds \<and> ds \<noteq> [] \<and> list_all is_digit ds)" if "c \<in> set ?E" for c
    using E [OF that] citable_sentence citable_markers by metis
  have "match_sentences False [] (strip_markers 0 (Join (map part_of ?E) '' '')) = map ss_text ?E"
    using good by (intro split_answer)
  then have split: "splitSentences (strip_markers 0 (an_Text (ExtractiveGenerate q sources))) = map ss_text ?E"
    using good extracted_nonempty [OF ne] ExtractiveGenerate_text [OF ne]
    by (intro splitSentences_match) auto
  have sup: "supported sources (ss_text c)" if "c \<in> set ?E" for c
    using E [OF that] citable_sentence supported_verbatim by metis
  have "filter (supported sources) (map ss_text ?E) = map ss_text ?E"
    using sup by (auto simp: filter_id_conv)
  moreover have "filter (\<lambda>s. \<not> supported sources s) (map ss_text ?E) = []"
    using sup by (auto simp: filter_empty_conv)
  ultimately show ?thesis
    using split extracted_nonempty [OF ne] by (simp add: Faithfulness_eq)
qed

subsection \<open>Lemmas: citations\<close>

lemma byMarker_Some: "byMarker sources m = Some s \<Longrightarrow> s \<in> set sources \<and> sr_Marker s = m"
  unfolding byMarker_def by (auto dest: map_of_SomeD)

lemma byMarker_None: "byMarker sources m = None \<longleftrightarrow> m \<notin> sr_Marker ` set sources"
  unfolding byMarker_def by (force simp: map_of_eq_None_iff)

text \<open>The first occurrences of a list, in order.\<close>

fun firsts :: "string list \<Rightarrow> string list \<Rightarrow> string list" where
  "firsts seen [] = []"
| "firsts seen (m # ms) = (if m \<in> set seen then firsts seen ms else m # firsts (m # seen) ms)"

lemma firsts_set: "set (firsts seen ms) = set ms - set seen"
  by (induction ms arbitrary: seen) auto

lemma firsts_distinct: "distinct (firsts seen ms)"
  by (induction ms arbitrary: seen) (auto simp: firsts_set)

lemma cite_loop_eq:
  "cite_loop bm ms seen cites =
     cites @ List.map_filter (\<lambda>m. map_option (\<lambda>s. \<lparr>ct_Marker = m, ct_DocID = sr_DocID s,
       ct_Source = sr_Origin s, ct_Score = sr_Score s\<rparr>) (bm m)) (firsts seen ms)"
  by (induction ms arbitrary: seen cites) (auto simp: map_filter_simps split: option.splits)

lemma map_filter_markers:
  "map ct_Marker (List.map_filter (\<lambda>m. map_option (\<lambda>s. \<lparr>ct_Marker = m, ct_DocID = sr_DocID s,
       ct_Source = sr_Origin s, ct_Score = sr_Score s\<rparr>) (bm m)) ms) = filter (\<lambda>m. bm m \<noteq> None) ms"
  by (induction ms) (auto simp: map_filter_simps split: option.splits)

subsection \<open>Properties\<close>

text \<open>The source used in the examples.\<close>

definition ex_src :: rag_source where
  "ex_src = \<lparr>sr_Marker = ''doc_1'', sr_DocID = ''p:1'', sr_Origin = ''pg'',
     sr_Text = ''The WAL is read. It is a log'', sr_Score = 0\<rparr>"

text \<open>C21: The extractive answer is grounded: when a sentence of a source shares a content
  token with the query, the answer consists of one to three different sentences taken
  verbatim from the sources, each followed by the marker of its source; no sentence left
  out overlaps the query more than a chosen one; and the citations list exactly the
  markers used, once each in ascending order, with the document id and origin of the
  source.\<close>

theorem extractive_grounded:
  assumes "s0 \<in> set sources" "t0 \<in> set (splitSentences (sr_Text s0))"
    and "overlap (contentTokens q) (contentTokens t0) \<noteq> 0"
  shows "\<exists>ps. ps \<noteq> [] \<and> length ps \<le> 3 \<and> distinct (map snd ps) \<and>
    an_Text (ExtractiveGenerate q sources) =
      Join (map (\<lambda>(s, t). t @ '' ['' @ sr_Marker s @ '']'') ps) '' '' \<and>
    (\<forall>(s, t) \<in> set ps. s \<in> set sources \<and> t \<in> set (splitSentences (sr_Text s))) \<and>
    (\<forall>s\<in>set sources. \<forall>t\<in>set (splitSentences (sr_Text s)). t \<notin> snd ` set ps \<longrightarrow>
       (\<forall>(s', t')\<in>set ps. overlap (contentTokens q) (contentTokens t) \<le>
          overlap (contentTokens q) (contentTokens t'))) \<and>
    ct_Marker ` set (an_Citations (ExtractiveGenerate q sources)) = sr_Marker ` fst ` set ps \<and>
    sorted_wrt (\<lambda>a b. ct_Marker a < ct_Marker b) (an_Citations (ExtractiveGenerate q sources)) \<and>
    (\<forall>c\<in>set (an_Citations (ExtractiveGenerate q sources)). \<exists>s\<in>set sources.
       c = \<lparr>ct_Marker = sr_Marker s, ct_DocID = sr_DocID s, ct_Source = sr_Origin s, ct_Score = 0\<rparr>)"
proof -
  let ?E = "extracted q sources"
  have ne: "extractive_cands q sources \<noteq> []"
    using assms extractive_cands_iff [of _ q sources] by fastforce
  obtain src where src: "\<And>c. c \<in> set ?E \<Longrightarrow> from_source (src c) c \<and> src c \<in> set sources"
    using extracted_source [of _ q sources] by metis
  let ?ps = "map (\<lambda>c. (src c, ss_text c)) ?E"
  have "map (\<lambda>(s, t). t @ '' ['' @ sr_Marker s @ '']'') ?ps = map part_of ?E"
    using src by (simp add: part_of_def from_source_def)
  then have rend: "an_Text (ExtractiveGenerate q sources) =
      Join (map (\<lambda>(s, t). t @ '' ['' @ sr_Marker s @ '']'') ?ps) '' ''"
    using ExtractiveGenerate_text [OF ne] by (simp only:)
  have mk: "ct_Marker ` set (an_Citations (ExtractiveGenerate q sources)) = sr_Marker ` fst ` set ?ps"
    using src extractive_cite_markers [OF ne] by (simp add: from_source_def image_image)
  have "?ps \<noteq> []" "length ?ps \<le> 3" "distinct (map snd ?ps)"
    using extracted_nonempty [OF ne] chosen_length [of 3] chosen_distinct [of 3]
    by (auto simp: extracted_def comp_def)
  moreover have "\<forall>(s, t) \<in> set ?ps. s \<in> set sources \<and> t \<in> set (splitSentences (sr_Text s))"
    using src by (auto simp: from_source_def)
  moreover have "\<forall>s\<in>set sources. \<forall>t\<in>set (splitSentences (sr_Text s)). t \<notin> snd ` set ?ps \<longrightarrow>
       (\<forall>(s', t')\<in>set ?ps. overlap (contentTokens q) (contentTokens t) \<le>
          overlap (contentTokens q) (contentTokens t'))"
    using extracted_best [of _ sources _ q] by (auto simp: image_image)
  ultimately show ?thesis
    using rend mk extractive_cites_sorted [OF ne] extractive_cites_from [OF ne]
    by (intro exI [of _ ?ps] conjI)
qed

theorem extractive_grounded_witness:
  "an_Text (ExtractiveGenerate ''wal?'' [ex_src]) = ''The WAL is read. [doc_1]'' \<and>
   sorted_wrt (\<lambda>a b. ct_Marker a < ct_Marker b) (an_Citations (ExtractiveGenerate ''wal?'' [ex_src]))"
proof
  show "an_Text (ExtractiveGenerate ''wal?'' [ex_src]) = ''The WAL is read. [doc_1]''" by code_simp
  have "overlap (contentTokens ''wal?'') (contentTokens ''The WAL is read.'') \<noteq> 0"
    "''The WAL is read.'' \<in> set (splitSentences (sr_Text ex_src))" by code_simp+
  from extractive_grounded [where sources = "[ex_src]", OF list.set_intros(1) this(2,1)]
  show "sorted_wrt (\<lambda>a b. ct_Marker a < ct_Marker b)
      (an_Citations (ExtractiveGenerate ''wal?'' [ex_src]))"
    by (elim exE conjE)
qed

text \<open>Extractive answers are faithful by construction: over sources that carry the markers
  of the service, contain a terminated sentence and no citation marker of their own, an
  answer that cites anything gets the score 1 and no unsupported sentence.\<close>

theorem extractive_faithful:
  assumes "\<And>s. s \<in> set sources \<Longrightarrow> citable s"
    and "an_Citations (ExtractiveGenerate q sources) \<noteq> []"
  shows "Faithfulness (an_Text (ExtractiveGenerate q sources)) sources =
    \<lparr>fr_Score = 1, fr_Unsupported = []\<rparr>"
  by (rule extractive_answers_faithful [OF assms])

theorem extractive_faithful_witness:
  "an_Text (ExtractiveGenerate ''wal?'' [ex_src]) = ''The WAL is read. [doc_1]'' \<and>
   Faithfulness (an_Text (ExtractiveGenerate ''wal?'' [ex_src])) [ex_src] =
     \<lparr>fr_Score = 1, fr_Unsupported = []\<rparr>"
proof
  show "an_Text (ExtractiveGenerate ''wal?'' [ex_src]) = ''The WAL is read. [doc_1]''" by code_simp
  have "citable ex_src" by code_simp
  moreover have "an_Citations (ExtractiveGenerate ''wal?'' [ex_src]) \<noteq> []" by code_simp
  ultimately show "Faithfulness (an_Text (ExtractiveGenerate ''wal?'' [ex_src])) [ex_src] =
     \<lparr>fr_Score = 1, fr_Unsupported = []\<rparr>"
    by (intro extractive_faithful) auto
qed

text \<open>C24: \<open>Faithfulness\<close> implements its rule: the unsupported list holds the sentences (of
  the answer without its citation markers) that have content tokens and of which no single
  source contains 60 percent, in order; the score is the fraction of the other sentences,
  it lies between 0 and 1, and it is 1 exactly when nothing is unsupported.\<close>

theorem Faithfulness_correct:
  "fr_Unsupported (Faithfulness ans sources) =
     filter (\<lambda>t. \<not> supported sources t) (splitSentences (strip_markers 0 ans)) \<and>
   fr_Score (Faithfulness ans sources) * real (length (splitSentences (strip_markers 0 ans))) =
     real (length (filter (supported sources) (splitSentences (strip_markers 0 ans)))) \<and>
   0 \<le> fr_Score (Faithfulness ans sources) \<and> fr_Score (Faithfulness ans sources) \<le> 1 \<and>
   (fr_Score (Faithfulness ans sources) = 1 \<longleftrightarrow> fr_Unsupported (Faithfulness ans sources) = [])"
proof -
  define ss where "ss = splitSentences (strip_markers 0 ans)"
  have "length ss = length (filter (supported sources) ss) \<longleftrightarrow> filter (\<lambda>t. \<not> supported sources t) ss = []"
    using sum_length_filter_compl [of "supported sources" ss] unfolding length_0_conv [symmetric]
    by linarith
  moreover have "Faithfulness ans sources =
      \<lparr>fr_Score = (if ss = [] then 1 else real (length (filter (supported sources) ss)) / real (length ss)),
       fr_Unsupported = filter (\<lambda>s. \<not> supported sources s) ss\<rparr>"
    by (simp add: Faithfulness_eq ss_def Let_def)
  ultimately show ?thesis
    using Faithfulness_bounds [of ans sources]
    unfolding ss_def [symmetric] by (cases "ss = []") (simp_all add: divide_eq_1_iff)
qed

text \<open>The abstention \<open>Not found in sources.\<close> is not trivially faithful: it scores 0, with
  itself as unsupported sentence, unless some source happens to contain the two words
  \<open>found\<close> and \<open>sources\<close>.\<close>

theorem abstention_scores_zero:
  assumes "\<And>s. s \<in> set sources \<Longrightarrow> \<not> {''found'', ''sources''} \<subseteq> set (tokens (sr_Text s))"
    and "extractive_cands q sources = []"
  shows "Faithfulness (an_Text (ExtractiveGenerate q sources)) sources =
    \<lparr>fr_Score = 0, fr_Unsupported = [''Not found in sources.'']\<rparr>"
proof -
  have spl: "splitSentences (strip_markers 0 ''Not found in sources.'') = [''Not found in sources.'']"
    by code_simp
  have ct: "contentTokens ''Not found in sources.'' = [''found'', ''sources'']" by code_simp
  have "overlap [''found'', ''sources''] (tokens (sr_Text s)) \<le> 1" if "s \<in> set sources" for s
    using assms(1) [OF that] by (auto simp: overlap_def)
  then have "\<not> supported sources ''Not found in sources.''"
    by (fastforce simp: supported_def ct list_ex_iff)
  moreover have "an_Text (ExtractiveGenerate q sources) = ''Not found in sources.''"
    using assms(2) by (simp add: ExtractiveGenerate_def)
  ultimately show ?thesis by (simp add: Faithfulness_eq spl del: strip_markers.simps)
qed

theorem abstention_scores_zero_witness:
  "Faithfulness (an_Text (ExtractiveGenerate ''airspeed'' [ex_src])) [ex_src] =
     \<lparr>fr_Score = 0, fr_Unsupported = [''Not found in sources.'']\<rparr>"
proof (rule abstention_scores_zero)
  show "extractive_cands ''airspeed'' [ex_src] = []" by code_simp
  have "tokens (sr_Text ex_src) = [''the'', ''wal'', ''read'', ''it'', ''is'', ''a'', ''log'']" by code_simp
  then show "\<not> {''found'', ''sources''} \<subseteq> set (tokens (sr_Text s))" if "s \<in> set [ex_src]" for s
    using that by auto
qed

text \<open>\<open>citationsFromText\<close> never invents a citation: it cites, once each and in the order
  in which they first appear, exactly the markers of the text that belong to a retrieved
  source, with that source's document id, origin and score.\<close>

theorem citationsFromText_correct:
  "map ct_Marker (citationsFromText t sources) =
     filter (\<lambda>m. m \<in> sr_Marker ` set sources) (firsts [] (find_markers 0 t)) \<and>
   distinct (map ct_Marker (citationsFromText t sources)) \<and>
   set (citationsFromText t sources) \<subseteq>
     (\<lambda>s. \<lparr>ct_Marker = sr_Marker s, ct_DocID = sr_DocID s, ct_Source = sr_Origin s,
           ct_Score = sr_Score s\<rparr>) ` set sources"
proof -
  have m: "map ct_Marker (citationsFromText t sources) =
     filter (\<lambda>m. m \<in> sr_Marker ` set sources) (firsts [] (find_markers 0 t))"
    unfolding citationsFromText_def cite_loop_eq
    by (simp add: map_filter_markers byMarker_None)
  have "distinct (map ct_Marker (citationsFromText t sources))"
    unfolding m by (simp add: firsts_distinct)
  moreover have "set (citationsFromText t sources) \<subseteq>
     (\<lambda>s. \<lparr>ct_Marker = sr_Marker s, ct_DocID = sr_DocID s, ct_Source = sr_Origin s,
           ct_Score = sr_Score s\<rparr>) ` set sources"
    unfolding citationsFromText_def cite_loop_eq
    by (auto simp: set_map_filter dest!: byMarker_Some)
  ultimately show ?thesis using m by blast
qed

text \<open>Whatever the mode, the provider and the replies of the judge, the faithfulness
  score of an answer lies between 0 and 1, and outside mode \<open>llm\<close>, or when the provider is no
  judge or the judge fails, it is the lexical score.\<close>

theorem ScoreFaithfulness_correct:
  "0 \<le> fr_Score (ScoreFaithfulness api parse mode p ans sources) \<and>
   fr_Score (ScoreFaithfulness api parse mode p ans sources) \<le> 1 \<and>
   ((mode = ''llm'' \<and> (\<exists>l r. p = LiteLLM l \<and> JudgeFaithfulness api parse l ans sources = Inr r)) \<or>
    ScoreFaithfulness api parse mode p ans sources = Faithfulness ans sources)"
proof -
  have "0 \<le> fr_Score r \<and> fr_Score r \<le> 1" if "JudgeFaithfulness api parse l ans sources = Inr r" for l r
    using that by (auto simp: JudgeFaithfulness_def split: sum.splits if_splits)
  then show ?thesis
    using Faithfulness_bounds [of ans sources]
    by (auto simp: ScoreFaithfulness_def split: provider.splits sum.splits)
qed

end
