(* ===== verification/Semcache.thy ===== *)
theory Semcache
  imports Json Qdrant
begin

text \<open>
  Package \<open>internal/semcache\<close> (\<open>semcache.go\<close>): the semantic answer cache, a Qdrant collection
  of its own. The store is a parameter with state \<open>'v\<close>; \<open>sem_spec\<close> states the documented
  behaviour over a view of the collection as a list of entries: a query returns an entry
  whose payload meets every condition, with its similarity; an upsert under a fresh point
  id adds its entry. The \<open>answer_json\<close> text is represented by the JSON value it encodes; the
  empty text is \<open>NotJSON []\<close>.
\<close>

record sem_entry =
  se_Vector :: "real list"
  se_tenant :: string
  se_gen :: string
  se_answer :: raw

definition SemCollection :: string where "SemCollection = ''answer_cache''"

record semcache =
  sc_threshold :: real
  sc_enabled :: bool

text \<open>\<open>New\<close>: the result of \<open>NewClient\<close> matters only when the cache is enabled.\<close>

definition NewSem :: "(string \<Rightarrow> int \<Rightarrow> string option) \<Rightarrow> string \<Rightarrow> int \<Rightarrow> real \<Rightarrow> bool \<Rightarrow> string + semcache" where
  "NewSem connect host port threshold enabled =
     (if \<not> enabled then Inr \<lparr>sc_threshold = 0, sc_enabled = False\<rparr>
      else (case connect host port of
              Some e \<Rightarrow> Inl e
            | None \<Rightarrow> Inr \<lparr>sc_threshold = threshold, sc_enabled = True\<rparr>))"

definition Ensure :: "semcache \<Rightarrow> string + bool \<Rightarrow> (nat \<Rightarrow> string option) \<Rightarrow> int \<Rightarrow> qd_error option" where
  "Ensure c exists create dm =
     (if \<not> sc_enabled c then None
      else (case exists of
              Inl e \<Rightarrow> Some (ExistsErr e)
            | Inr True \<Rightarrow> None
            | Inr False \<Rightarrow> map_option CreateErr (create (to_uint64 dm))))"

definition scope :: "string \<Rightarrow> int \<Rightarrow> match_cond list" where
  "scope tenant gen =
     [(''gen'', Itoa gen)] @ (if tenant \<noteq> [] then [(''tenant_id'', tenant)] else [])"

text \<open>The store's calls: the query with limit 1 and the upsert of one point.\<close>

type_synonym 'v sem_query = "'v \<Rightarrow> real list \<Rightarrow> match_cond list \<Rightarrow> string + (sem_entry \<times> real) list"
type_synonym 'v sem_upsert = "'v \<Rightarrow> sem_entry \<Rightarrow> 'v"

text \<open>The returned triple (answer, score, hit).\<close>

definition Lookup ::
  "'v sem_query \<Rightarrow> semcache \<Rightarrow> 'v \<Rightarrow> real list \<Rightarrow> string \<Rightarrow> int \<Rightarrow> raw \<times> real \<times> bool" where
  "Lookup api c s vec tenant gen =
     (if \<not> sc_enabled c \<or> vec = [] then (NotJSON [], 0, False)
      else (case api s vec (scope tenant gen) of
              Inl e \<Rightarrow> (NotJSON [], 0, False)
            | Inr [] \<Rightarrow> (NotJSON [], 0, False)
            | Inr ((best, score) # rest) \<Rightarrow>
                (if score < sc_threshold c then (NotJSON [], score, False)
                 else if se_answer best = NotJSON [] then (NotJSON [], score, False)
                 else (se_answer best, score, True))))"

definition Store ::
  "'v sem_upsert \<Rightarrow> semcache \<Rightarrow> 'v \<Rightarrow> real list \<Rightarrow> string \<Rightarrow> int \<Rightarrow> raw \<Rightarrow> 'v" where
  "Store api c s vec tenant gen answerJSON =
     (if \<not> sc_enabled c \<or> vec = [] then s
      else api s \<lparr>se_Vector = vec, se_tenant = tenant, se_gen = Itoa gen, se_answer = answerJSON\<rparr>)"

subsection \<open>Documented behaviour of the store\<close>

text \<open>The payload of an entry and the conditions it meets.\<close>

definition entry_matches :: "match_cond \<Rightarrow> sem_entry \<Rightarrow> bool" where
  "entry_matches c e \<longleftrightarrow>
     (fst c = ''tenant_id'' \<and> snd c = se_tenant e) \<or> (fst c = ''gen'' \<and> snd c = se_gen e)"

definition sem_spec ::
  "'v sem_query \<Rightarrow> 'v sem_upsert \<Rightarrow> ('v \<Rightarrow> sem_entry list) \<Rightarrow> (real list \<Rightarrow> real list \<Rightarrow> real) \<Rightarrow> bool" where
  "sem_spec qapi uapi view sim \<longleftrightarrow>
     (\<forall>s v must res r. qapi s v must = Inr res \<and> r \<in> set res \<longrightarrow>
        fst r \<in> set (view s) \<and> list_all (\<lambda>c. entry_matches c (fst r)) must \<and>
        snd r = sim v (se_Vector (fst r))) \<and>
     (\<forall>s e. set (view (uapi s e)) \<subseteq> insert e (set (view s)))"

text \<open>A reference store: the best match of a list.\<close>

definition ref_sem_query :: "(real list \<Rightarrow> real list \<Rightarrow> real) \<Rightarrow> sem_entry list sem_query" where
  "ref_sem_query sim es v must =
     Inr (take 1 (SliceStable (\<lambda>a b. snd a > snd b)
       (map (\<lambda>e. (e, sim v (se_Vector e))) (filter (\<lambda>e. list_all (\<lambda>c. entry_matches c e) must) es))))"

definition ref_sem_upsert :: "sem_entry list sem_upsert" where
  "ref_sem_upsert es e = e # es"

subsection \<open>Lemmas\<close>

lemma sem_spec_ref: "sem_spec (ref_sem_query sim) ref_sem_upsert (\<lambda>es. es) sim"
proof -
  have "set (take 1 xs) \<subseteq> set xs" for xs :: "'a list" by (rule set_take_subset)
  then show ?thesis
    by (fastforce simp: sem_spec_def ref_sem_query_def ref_sem_upsert_def)
qed

lemma scope_gen: "(''gen'', Itoa gen) \<in> set (scope tenant gen)"
  by (simp add: scope_def)

lemma scope_tenant: "tenant \<noteq> [] \<Longrightarrow> (''tenant_id'', tenant) \<in> set (scope tenant gen)"
  by (simp add: scope_def)

text \<open>A hit is an entry of the collection in the scope, above the threshold.\<close>

lemma Lookup_hit:
  assumes "sem_spec qapi uapi view sim" "Lookup qapi c s vec tenant gen = (a, score, True)"
  shows "\<exists>e\<in>set (view s). se_gen e = Itoa gen \<and> (tenant \<noteq> [] \<longrightarrow> se_tenant e = tenant) \<and>
    se_answer e = a \<and> score = sim vec (se_Vector e) \<and> sc_threshold c \<le> score"
proof -
  obtain best rest where q: "qapi s vec (scope tenant gen) = Inr ((best, score) # rest)"
    and a: "se_answer best = a" "sc_threshold c \<le> score"
    using assms(2) by (auto simp: Lookup_def split: if_splits sum.splits list.splits)
  have best: "best \<in> set (view s)" "list_all (\<lambda>c. entry_matches c best) (scope tenant gen)"
    "score = sim vec (se_Vector best)"
    using assms(1) q unfolding sem_spec_def by (metis fst_conv snd_conv list.set_intros(1))+
  have "se_gen best = Itoa gen"
    using best(2) scope_gen [of gen tenant] by (auto simp: list_all_iff entry_matches_def)
  moreover have "tenant \<noteq> [] \<Longrightarrow> se_tenant best = tenant"
    using best(2) scope_tenant [of tenant gen] by (auto simp: list_all_iff entry_matches_def)
  ultimately show ?thesis using best a by blast
qed

subsection \<open>Properties\<close>

text \<open>A semantic-cache hit is in scope: under the documented behaviour of the store, it
  returns the answer of an entry stored for the same generation and, when the request has
  a tenant, for the same tenant, whose question is at least as similar as the threshold;
  so an entry of an older generation is never returned.\<close>

theorem Lookup_scoped:
  assumes "sem_spec qapi uapi view sim" "Lookup qapi c s vec tenant gen = (a, score, True)"
  shows "\<exists>e\<in>set (view s). se_answer e = a \<and> (\<forall>g. se_gen e = Itoa g \<longleftrightarrow> g = gen) \<and>
    (tenant \<noteq> [] \<longrightarrow> se_tenant e = tenant) \<and> sc_threshold c \<le> sim vec (se_Vector e)"
  using Lookup_hit [OF assms] by fastforce

theorem Lookup_scoped_witness:
  "Lookup (ref_sem_query (\<lambda>a b. 1)) \<lparr>sc_threshold = 0.95, sc_enabled = True\<rparr>
     [\<lparr>se_Vector = [1], se_tenant = ''t'', se_gen = Itoa 3, se_answer = JText JNull\<rparr>] [1] ''t'' 3 =
     (JText JNull, 1, True) \<and>
   (\<exists>e\<in>set [\<lparr>se_Vector = [1], se_tenant = ''t'', se_gen = Itoa 3, se_answer = JText JNull\<rparr>].
      se_tenant e = ''t'')"
proof
  show hit: "Lookup (ref_sem_query (\<lambda>a b. 1)) \<lparr>sc_threshold = 0.95, sc_enabled = True\<rparr>
     [\<lparr>se_Vector = [1], se_tenant = ''t'', se_gen = Itoa 3, se_answer = JText JNull\<rparr>] [1] ''t'' 3 =
     (JText JNull, 1, True)"
    by (simp add: Lookup_def ref_sem_query_def scope_def entry_matches_def)
  show "\<exists>e\<in>set [\<lparr>se_Vector = [1], se_tenant = ''t'', se_gen = Itoa 3, se_answer = JText JNull\<rparr>].
      se_tenant e = ''t''"
    using Lookup_scoped [OF sem_spec_ref hit] by blast
qed

end
