(* ===== verification/Config.thy ===== *)
theory Config
  imports Prelude
begin

text \<open>
  Package \<open>internal/config\<close> (\<open>config.go\<close>) and the helpers of \<open>internal/kafka\<close> (\<open>kafka.go\<close>).
  The environment is a function from name to value, the empty string when unset.
  \<open>strconv.ParseFloat\<close> and \<open>time.ParseDuration\<close> are modelled for decimal numbers; the
  spellings \<open>inf\<close>, \<open>nan\<close> and the hexadecimal floats are rejected here.
\<close>

subsection \<open>Numbers and durations of the standard library\<close>

text \<open>Digits with at most one decimal point: the digits before and after it.\<close>

definition split_decimal :: "string \<Rightarrow> (string \<times> string) option" where
  "split_decimal s =
     (let ip = takeWhile is_digit s; r = drop (length ip) s
      in if r = [] then (if ip = [] then None else Some (ip, []))
         else if hd r = CHR ''.'' \<and> list_all is_digit (tl r) \<and> (ip \<noteq> [] \<or> tl r \<noteq> [])
         then Some (ip, tl r) else None)"

definition decimal_value :: "string \<times> string \<Rightarrow> real" where
  "decimal_value p = real (dec_val (fst p @ snd p)) / 10 ^ length (snd p)"

definition unsigned :: "string \<Rightarrow> bool \<times> string" where
  "unsigned s =
     (if s \<noteq> [] \<and> hd s = CHR ''-'' then (True, tl s)
      else if s \<noteq> [] \<and> hd s = CHR ''+'' then (False, tl s) else (False, s))"

definition ParseFloat :: "string \<Rightarrow> real option" where
  "ParseFloat s =
     (case unsigned s of (neg, u) \<Rightarrow>
        let m = takeWhile (\<lambda>c. c \<noteq> CHR ''e'' \<and> c \<noteq> CHR ''E'') u; e = drop (length m) u
        in (case split_decimal m of
              None \<Rightarrow> None
            | Some p \<Rightarrow>
                let v = (if neg then - decimal_value p else decimal_value p)
                in if e = [] then Some v
                   else (case ParseInt64 (tl e) of
                           (n, False) \<Rightarrow> None
                         | (n, True) \<Rightarrow> Some (if n < 0 then v / 10 ^ nat (- n) else v * 10 ^ nat n))))"

definition dur_unit :: "string \<Rightarrow> int option" where
  "dur_unit u = map_of [(''ns'', 1), (''us'', 10 ^ 3), (''ms'', 10 ^ 6), (''s'', 10 ^ 9),
     (''m'', 60 * 10 ^ 9), (''h'', 3600 * 10 ^ 9)] u"

text \<open>The loop over the \<open>number unit\<close> groups; \<open>n\<close> bounds the groups by the length of the text.\<close>

fun dur_groups :: "nat \<Rightarrow> string \<Rightarrow> int \<Rightarrow> int option" where
  "dur_groups n [] d = Some d"
| "dur_groups 0 (c # cs) d = None"
| "dur_groups (Suc n) (c # cs) d =
     (let num = takeWhile (\<lambda>c. is_digit c \<or> c = CHR ''.'') (c # cs);
          r = drop (length num) (c # cs);
          u = takeWhile (\<lambda>c. \<not> is_digit c \<and> c \<noteq> CHR ''.'') r
      in (case (split_decimal num, dur_unit u) of
            (Some (ip, fp), Some unit) \<Rightarrow>
              (let d' = d + int (dec_val ip) * unit + (int (dec_val fp) * unit) div 10 ^ length fp
               in if d' > 2 ^ 63 then None else dur_groups n (drop (length u) r) d')
          | _ \<Rightarrow> None))"

definition ParseDuration :: "string \<Rightarrow> int option" where
  "ParseDuration s =
     (case unsigned s of (neg, u) \<Rightarrow>
        if u = ''0'' then Some 0
        else if u = [] then None
        else (case dur_groups (length u) u 0 of
                None \<Rightarrow> None
              | Some d \<Rightarrow> if neg then Some (- d) else if d > 2 ^ 63 - 1 then None else Some d))"

subsection \<open>Package config\<close>

definition Str :: "(string \<Rightarrow> string) \<Rightarrow> string \<Rightarrow> string \<Rightarrow> string" where
  "Str getenv key dflt = (if getenv key \<noteq> [] then getenv key else dflt)"

definition ConfigInt :: "(string \<Rightarrow> string) \<Rightarrow> string \<Rightarrow> int \<Rightarrow> int" where
  "ConfigInt getenv key dflt =
     (if getenv key \<noteq> [] then (case ParseInt64 (getenv key) of (n, True) \<Rightarrow> n | (n, False) \<Rightarrow> dflt)
      else dflt)"

text \<open>The product with \<open>time.Millisecond\<close> wraps around in \<open>int64\<close>.\<close>

definition wrap_int64 :: "int \<Rightarrow> int" where
  "wrap_int64 i = (i + 2 ^ 63) mod 2 ^ 64 - 2 ^ 63"

definition Dur :: "(string \<Rightarrow> string) \<Rightarrow> string \<Rightarrow> int \<Rightarrow> int" where
  "Dur getenv key dflt =
     (if getenv key \<noteq> [] then
        (case ParseDuration (getenv key) of
           Some d \<Rightarrow> d
         | None \<Rightarrow>
             (case ParseInt64 (getenv key) of
                (ms, True) \<Rightarrow> wrap_int64 (ms * 10 ^ 6)
              | (ms, False) \<Rightarrow> dflt))
      else dflt)"

definition Float :: "(string \<Rightarrow> string) \<Rightarrow> string \<Rightarrow> real \<Rightarrow> real" where
  "Float getenv key dflt =
     (if getenv key \<noteq> [] then (case ParseFloat (getenv key) of Some f \<Rightarrow> f | None \<Rightarrow> dflt) else dflt)"

subsection \<open>Package kafka\<close>

definition Brokers :: "string \<Rightarrow> string list" where
  "Brokers csv = filter (\<lambda>s. s \<noteq> []) (map TrimSpace (Split csv (CHR '','')))"

fun Contains :: "string \<Rightarrow> string \<Rightarrow> bool" where
  "Contains [] p = HasPrefix [] p"
| "Contains (c # cs) p = (HasPrefix (c # cs) p \<or> Contains cs p)"

text \<open>The loop over the responses (topic, error text if any).\<close>

fun first_topic_error :: "(string \<times> string option) list \<Rightarrow> (string \<times> string) option" where
  "first_topic_error [] = None"
| "first_topic_error ((t, None) # rs) = first_topic_error rs"
| "first_topic_error ((t, Some e) # rs) =
     (if Contains e ''already exists'' then first_topic_error rs else Some (t, e))"

datatype topics_error = TopicsClient string | TopicsCreate string | TopicFailed string string

definition EnsureTopics ::
  "string option \<Rightarrow> string + (string \<times> string option) list \<Rightarrow> topics_error option" where
  "EnsureTopics newClient resp =
     (case newClient of
        Some e \<Rightarrow> Some (TopicsClient e)
      | None \<Rightarrow>
          (case resp of
             Inl e \<Rightarrow> Some (TopicsCreate e)
           | Inr rs \<Rightarrow> map_option (\<lambda>(t, e). TopicFailed t e) (first_topic_error rs)))"

subsection \<open>Lemmas\<close>

lemma Contains_iff: "Contains s p \<longleftrightarrow> (\<exists>a b. s = a @ p @ b)"
proof (induction s)
  case Nil
  then show ?case by (cases p) auto
next
  case (Cons c cs)
  show ?case
  proof
    assume "Contains (c # cs) p"
    then consider b where "c # cs = p @ b" | a b where "cs = a @ p @ b"
      using Cons by (auto simp: HasPrefix_iff)
    then show "\<exists>a b. c # cs = a @ p @ b"
      by cases (metis append_Nil, metis append_Cons)
  next
    assume "\<exists>a b. c # cs = a @ p @ b"
    then obtain a b where "c # cs = a @ p @ b" by blast
    then consider "HasPrefix (c # cs) p" | "\<exists>a b. cs = a @ p @ b"
      by (cases a) (auto simp: HasPrefix_iff)
    then show "Contains (c # cs) p" using Cons by cases auto
  qed
qed

lemma wrap_int64_id: "in_int64 i \<Longrightarrow> wrap_int64 i = i"
  by (simp add: wrap_int64_def in_int64_def)

lemma TrimSpace_id:
  assumes "s \<noteq> []" "\<not> is_space (hd s)" "\<not> is_space (last s)"
  shows "TrimSpace s = s"
  using assms TrimSpace_keep_last [of s] by (cases s) simp_all

subsection \<open>Properties\<close>

text \<open>\<open>Brokers\<close> reads back a comma-separated broker list: non-empty addresses without
  commas and surrounding white space are returned as they are, in order, whatever white
  space is put around them.\<close>

theorem Brokers_Join:
  assumes "bs \<noteq> []" "\<And>b. b \<in> set bs \<Longrightarrow> b \<noteq> [] \<and> CHR '','' \<notin> set b \<and> \<not> is_space (hd b) \<and> \<not> is_space (last b)"
    and "list_all is_space w" "CHR '','' \<notin> set w"
  shows "Brokers (Join (map (\<lambda>b. w @ b) bs) '','') = bs"
proof -
  have "Split (Join (map (\<lambda>b. w @ b) bs) '','') (CHR '','') = map (\<lambda>b. w @ b) bs"
    using assms by (intro Split_Join) auto
  moreover have "TrimSpace (w @ b) = b" if "b \<in> set bs" for b
  proof -
    have "TrimSpace (w @ b) = dropWhile is_space (w @ b)"
      using assms(2) [OF that] by (intro TrimSpace_keep_last) auto
    also have "\<dots> = b"
      using assms(2) [OF that] assms(3) by (subst dropWhile_append2) (auto simp: list_all_iff, cases b, auto)
    finally show ?thesis .
  qed
  ultimately show ?thesis
    using assms(2) by (auto simp: Brokers_def filter_id_conv intro!: map_idI trans [OF filter_True])
qed

theorem Brokers_Join_witness: "Brokers ('' a:1, b:2'') = [''a:1'', ''b:2'']"
proof -
  have "Brokers (Join (map (\<lambda>b. '' '' @ b) [''a:1'', ''b:2'']) '','') = [''a:1'', ''b:2'']"
    by (rule Brokers_Join) (auto simp: is_space_def)
  then show ?thesis by simp
qed

end
