(* ===== verification/Query.thy ===== *)
theory Query
  imports RateLimit Fusion Rag Mlclient Semcache Cache Opensearch Config Obs
begin

text \<open>
  Command \<open>query\<close> (\<open>cmd/query/main.go\<close>): authentication and tenant scope, hybrid retrieval
  (\<open>retrieve\<close>), the handlers \<open>handleSearch\<close> and \<open>handleAsk\<close>, and their routing behind the
  rate limiter. The clients of this development are called with the stores' APIs, collected
  in the record \<open>qdeps\<close>; a deadline that expires is an error of the call it interrupts. The
  two retrieval goroutines write different variables and are joined before either is read,
  so they are evaluated one after the other here; \<open>Asking\<close> has them in either order. Log output, spans and latency histograms are left out; the
  observations of the hit and miss counters and of the faithfulness histogram are kept.
\<close>

record ('os, 'qd, 'r, 'v) qdeps =
  q_search :: "'os search_api"
  q_mget :: "'os mget_api"
  q_query :: "'qd query_api"
  q_http :: http_api
  q_redis :: "'r redis"
  q_semquery :: "'v sem_query"
  q_semupsert :: "'v sem_upsert"
  q_chat :: chat_api
  q_parse :: "string \<Rightarrow> raw"

record server =
  s_ml :: ml
  s_cache :: cache
  s_sem :: semcache
  s_llm :: provider
  s_rrfK :: int
  s_rerankN :: int
  s_topK :: int
  s_faithMin :: real
  s_faithMode :: string
  s_apiKey :: string
  s_reqTO :: int

text \<open>What the service reads and writes: both indexes, Redis, the semantic cache, the counters.\<close>

record ('os, 'qd, 'r, 'v) qstate =
  qs_os :: 'os
  qs_qd :: 'qd
  qs_rd :: 'r
  qs_sem :: 'v
  qs_metrics :: "metric list"

subsection \<open>Tenants\<close>

definition authTenant :: "server \<Rightarrow> request \<Rightarrow> string \<times> bool" where
  "authTenant s r =
     (if s_apiKey s \<noteq> [] then
        (let presented = (if rq_Header r ''X-API-Key'' = []
                          then TrimPrefix (rq_Header r ''Authorization'') ''Bearer ''
                          else rq_Header r ''X-API-Key'');
             tenant = TrimSpace (rq_Header r ''X-Tenant-ID'')
         in if presented \<noteq> s_apiKey s then ([], False)
            else if tenant = [] then ([], False) else (tenant, True))
      else (TrimSpace (rq_Header r ''X-Tenant-ID''), True))"

definition scopeFilters :: "(string \<times> string) list \<Rightarrow> string \<Rightarrow> (string \<times> string) list" where
  "scopeFilters filters tenant =
     (if tenant = [] then filters else AList.update ''tenant_id'' tenant filters)"

subsection \<open>Requests\<close>

record askReq =
  aq_Query :: string
  aq_Filters :: "(string \<times> string) list"
  aq_TopK :: int

definition dec_askReq :: "askReq decoder" where
  "dec_askReq = dec_struct (\<lambda>k j x.
     if k = ''query'' then into dec_string (aq_Query x) (\<lambda>v. x\<lparr>aq_Query := v\<rparr>) j
     else if k = ''filters'' then into dec_string_map (aq_Filters x) (\<lambda>v. x\<lparr>aq_Filters := v\<rparr>) j
     else if k = ''top_k'' then into dec_int64 (aq_TopK x) (\<lambda>v. x\<lparr>aq_TopK := v\<rparr>) j
     else Inr x)"

text \<open>The decoded body; \<^term>\<open>None\<close> when it does not decode or has no query.\<close>

definition read_request :: "request \<Rightarrow> askReq option" where
  "read_request r =
     (case Unmarshal dec_askReq \<lparr>aq_Query = [], aq_Filters = [], aq_TopK = 0\<rparr> (rq_Body r) of
        Inl e \<Rightarrow> None
      | Inr req \<Rightarrow> if aq_Query req = [] then None else Some req)"

subsection \<open>Retrieval\<close>

definition markerFor :: "int \<Rightarrow> string" where
  "markerFor n = ''doc_'' @ Itoa n"

text \<open>\<open>ml.Embed\<close> of one text: the first vector, if any.\<close>

definition embed_query :: "('os, 'qd, 'r, 'v) qdeps \<Rightarrow> server \<Rightarrow> string \<Rightarrow> real list option" where
  "embed_query x s query =
     (case Embed (q_http x) (s_ml s) [query] of
        Inl e \<Rightarrow> None
      | Inr (vecs, ver) \<Rightarrow> (case vecs of [] \<Rightarrow> None | v # vs \<Rightarrow> Some v))"

definition bm25_lane ::
  "('os, 'qd, 'r, 'v) qdeps \<Rightarrow> server \<Rightarrow> 'os \<Rightarrow> string \<Rightarrow> (string \<times> string) list \<Rightarrow> string list" where
  "bm25_lane x s os query filters =
     (case OsSearch (q_search x) os query filters (s_rerankN s) of
        Inl e \<Rightarrow> [] | Inr hits \<Rightarrow> map hit_DocID hits)"

definition vector_lane ::
  "('os, 'qd, 'r, 'v) qdeps \<Rightarrow> server \<Rightarrow> 'qd \<Rightarrow> string \<Rightarrow> (string \<times> string) list \<Rightarrow> real list option \<Rightarrow> string list" where
  "vector_lane x s qd query filters qvec =
     (case (case qvec of Some v \<Rightarrow> Some v | None \<Rightarrow> embed_query x s query) of
        None \<Rightarrow> []
      | Some v \<Rightarrow>
          (case QdSearch (q_query x) qd v filters (s_rerankN s) of
             Inl e \<Rightarrow> [] | Inr hits \<Rightarrow> map qhit_DocID hits))"

text \<open>The loop that collects ids: append, then stop at \<open>rerankN\<close>.\<close>

fun collect_ids :: "int \<Rightarrow> string list \<Rightarrow> string list \<Rightarrow> string list" where
  "collect_ids n ids [] = ids"
| "collect_ids n ids (f # fs) =
     (if int (length (ids @ [f])) \<ge> n then ids @ [f] else collect_ids n (ids @ [f]) fs)"

definition rerank_order ::
  "('os, 'qd, 'r, 'v) qdeps \<Rightarrow> server \<Rightarrow> string \<Rightarrow> string list \<Rightarrow> int list" where
  "rerank_order x s query texts =
     (case Rerank (q_http x) (s_ml s) query texts of
        Inl e \<Rightarrow> map int [0..<length texts]
      | Inr (scores, ord) \<Rightarrow>
          if length ord = length texts then ord else map int [0..<length texts])"

text \<open>\<open>docs[id]\<close> of a map without the key is the zero document.\<close>

definition doc_at :: "(string \<rightharpoonup> os_stored) \<Rightarrow> string \<Rightarrow> os_stored" where
  "doc_at docs i = (case docs i of Some d \<Rightarrow> d
     | None \<Rightarrow> \<lparr>st_DocID = [], st_Source = [], st_Title = [], st_Body = [], st_Category = []\<rparr>)"

definition source_of :: "int \<Rightarrow> os_stored \<Rightarrow> rag_source" where
  "source_of n d = \<lparr>sr_Marker = markerFor n, sr_DocID = st_DocID d, sr_Origin = st_Source d,
     sr_Text = st_Title d @ ''. '' @ st_Body d, sr_Score = 0\<rparr>"

text \<open>The loop over \<open>order\<close>; an index outside \<open>haveIDs\<close> panics.\<close>

fun build_sources ::
  "(string \<rightharpoonup> os_stored) \<Rightarrow> string list \<Rightarrow> int \<Rightarrow> int \<Rightarrow> int list \<Rightarrow> rag_source list \<Rightarrow>
   rag_source list outcome" where
  "build_sources docs haveIDs topK i [] sources = Returns sources"
| "build_sources docs haveIDs topK i (idx # order) sources =
     (if i \<ge> topK then Returns sources
      else if idx < 0 \<or> idx \<ge> int (length haveIDs) then Panics
      else build_sources docs haveIDs topK (i + 1) order
             (sources @ [source_of (int (length sources) + 1) (doc_at docs (haveIDs ! nat idx))]))"

definition retrieve ::
  "('os, 'qd, 'r, 'v) qdeps \<Rightarrow> server \<Rightarrow> ('os, 'qd, 'r, 'v) qstate \<Rightarrow> string \<Rightarrow> (string \<times> string) list \<Rightarrow>
   int \<Rightarrow> real list option \<Rightarrow> (os_error + rag_source list) outcome" where
  "retrieve x s st query filters topK qvec =
     (let bm25IDs = bm25_lane x s (qs_os st) query filters;
          vecIDs = vector_lane x s (qs_qd st) query filters qvec;
          fused = RRF [bm25IDs, vecIDs] (s_rrfK s)
      in if fused = [] then Returns (Inr [])
         else let ids = collect_ids (s_rerankN s) [] (map sc_DocID fused)
              in (case GetByIDs (q_mget x) (qs_os st) ids of
                    Inl e \<Rightarrow> Returns (Inl e)
                  | Inr docs \<Rightarrow>
                      (let haveIDs = filter (\<lambda>i. docs i \<noteq> None) ids;
                           texts = map (\<lambda>i. st_Title (doc_at docs i) @ '' '' @ st_Body (doc_at docs i)) haveIDs
                       in if haveIDs = [] then Returns (Inr [])
                          else (case build_sources docs haveIDs
                                  (if topK \<le> 0 then s_topK s else topK) 0
                                  (rerank_order x s query texts) [] of
                                  Panics \<Rightarrow> Panics
                                | Returns sources \<Rightarrow> Returns (Inr sources)))))"

subsection \<open>Handlers\<close>

text \<open>The JSON of the Go values; a nil slice is \<open>null\<close>.\<close>

definition source_json :: "rag_source \<Rightarrow> json" where
  "source_json s = JObj [(''Marker'', JStr (sr_Marker s)), (''DocID'', JStr (sr_DocID s)),
     (''Origin'', JStr (sr_Origin s)), (''Text'', JStr (sr_Text s)), (''Score'', JFrac (sr_Score s))]"

definition cite_json :: "citation \<Rightarrow> json" where
  "cite_json c = JObj [(''marker'', JStr (ct_Marker c)), (''doc_id'', JStr (ct_DocID c)),
     (''source'', JStr (ct_Source c)), (''score'', JFrac (ct_Score c))]"

definition slice_json :: "('a \<Rightarrow> json) \<Rightarrow> 'a list \<Rightarrow> json" where
  "slice_json f xs = (if xs = [] then JNull else JArr (map f xs))"

definition error_json :: "string \<Rightarrow> json" where
  "error_json m = JObj [(''error'', JStr m)]"

text \<open>The rest of \<open>retrieve\<close> once both goroutines have returned.\<close>

definition assemble ::
  "('os, 'qd, 'r, 'v) qdeps \<Rightarrow> server \<Rightarrow> 'os \<Rightarrow> string \<Rightarrow> int \<Rightarrow> string list \<Rightarrow> string list \<Rightarrow>
   (os_error + rag_source list) outcome" where
  "assemble x s os query topK bm25IDs vecIDs =
     (let fused = RRF [bm25IDs, vecIDs] (s_rrfK s)
      in if fused = [] then Returns (Inr [])
         else let ids = collect_ids (s_rerankN s) [] (map sc_DocID fused)
              in (case GetByIDs (q_mget x) os ids of
                    Inl e \<Rightarrow> Returns (Inl e)
                  | Inr docs \<Rightarrow>
                      (let haveIDs = filter (\<lambda>i. docs i \<noteq> None) ids;
                           texts = map (\<lambda>i. st_Title (doc_at docs i) @ '' '' @ st_Body (doc_at docs i)) haveIDs
                       in if haveIDs = [] then Returns (Inr [])
                          else (case build_sources docs haveIDs
                                  (if topK \<le> 0 then s_topK s else topK) 0
                                  (rerank_order x s query texts) [] of
                                  Panics \<Rightarrow> Panics
                                | Returns sources \<Rightarrow> Returns (Inr sources)))))"

text \<open>\<open>err.Error()\<close> of a retrieval error; the wrapped text of the client library is a parameter of it.\<close>

definition os_error_text :: "os_error \<Rightarrow> string" where
  "os_error_text e = (case e of MGetErr m \<Rightarrow> ''opensearch: mget: '' @ m | _ \<Rightarrow> [])"

definition handleSearch ::
  "('os, 'qd, 'r, 'v) qdeps \<Rightarrow> server \<Rightarrow> int \<Rightarrow> request \<Rightarrow> ('os, 'qd, 'r, 'v) qstate \<Rightarrow>
   response outcome \<times> ('os, 'qd, 'r, 'v) qstate" where
  "handleSearch x s ms r st =
     (case authTenant s r of
        (tenant, False) \<Rightarrow> (Returns (writeJSON [] 401 (error_json ''unauthorized'')), st)
      | (tenant, True) \<Rightarrow>
          (case read_request r of
             None \<Rightarrow> (Returns (writeJSON [] 400 (error_json ''query required'')), st)
           | Some req \<Rightarrow>
               (case retrieve x s st (aq_Query req) (scopeFilters (aq_Filters req) tenant) (aq_TopK req) None of
                  Panics \<Rightarrow> (Panics, st)
                | Returns (Inl e) \<Rightarrow> (Returns (writeJSON [] 502 (error_json (os_error_text e))), st)
                | Returns (Inr sources) \<Rightarrow>
                    (Returns (writeJSON [] 200 (JObj [(''latency_ms'', JInt ms), (''query'', JStr (aq_Query req)),
                       (''results'', slice_json source_json sources)])), st))))"

text \<open>The response \<open>handleAsk\<close> assembles from an answer.\<close>

definition ask_body :: "server \<Rightarrow> int \<Rightarrow> answer \<Rightarrow> faithfulness_result \<Rightarrow> (string \<times> json) list" where
  "ask_body s ms ans f =
     [(''answer'', JStr (an_Text ans)), (''citations'', slice_json cite_json (an_Citations ans)),
      (''faithfulness'', JFrac (fr_Score f)), (''unsupported'', slice_json JStr (fr_Unsupported f)),
      (''model'', JStr (an_Model ans)), (''latency_ms'', JInt ms)] @
     (if fr_Score f < s_faithMin s then [(''warning'', JStr ''faithfulness below threshold'')] else [])"

text \<open>Generation, scoring and the two cache writes, from the retrieved sources on.\<close>

definition ask_generate ::
  "('os, 'qd, 'r, 'v) qdeps \<Rightarrow> server \<Rightarrow> int \<Rightarrow> string \<Rightarrow> string \<Rightarrow> int \<Rightarrow> string \<Rightarrow> real list option \<Rightarrow>
   rag_source list \<Rightarrow> ('os, 'qd, 'r, 'v) qstate \<Rightarrow> response \<times> ('os, 'qd, 'r, 'v) qstate" where
  "ask_generate x s ms query tenant gen key qvec sources st =
     (case Generate (q_chat x) (s_llm s) query sources of
        Inl e \<Rightarrow> (writeJSON [] 200 (JObj [(''answer'', JStr []), (''degraded'', JStr ''llm_unavailable''),
                    (''results'', slice_json source_json sources)]), st)
      | Inr ans \<Rightarrow>
          (let f = ScoreFaithfulness (q_chat x) (q_parse x) (s_faithMode s) (s_llm s) (an_Text ans) sources;
               resp = ask_body s ms ans f;
               st1 = st\<lparr>qs_metrics := qs_metrics st @ [RagFaithfulness (fr_Score f)],
                        qs_rd := CacheSet (q_redis x) (s_cache s) (qs_rd st) key resp\<rparr>;
               st2 = (case qvec of None \<Rightarrow> st1
                      | Some v \<Rightarrow> st1\<lparr>qs_sem := Store (q_semupsert x) (s_sem s) (qs_sem st1) v tenant gen
                                                 (JText (JObj resp))\<rparr>)
           in (writeJSON [] 200 (JObj resp), st2)))"

text \<open>The part of \<open>handleAsk\<close> after both caches missed.\<close>

definition ask_miss ::
  "('os, 'qd, 'r, 'v) qdeps \<Rightarrow> server \<Rightarrow> int \<Rightarrow> askReq \<Rightarrow> (string \<times> string) list \<Rightarrow> string \<Rightarrow> int \<Rightarrow> string \<Rightarrow>
   real list option \<Rightarrow> ('os, 'qd, 'r, 'v) qstate \<Rightarrow> response outcome \<times> ('os, 'qd, 'r, 'v) qstate" where
  "ask_miss x s ms req filters tenant gen key qvec st =
     (case retrieve x s st (aq_Query req) filters (aq_TopK req) qvec of
        Panics \<Rightarrow> (Panics, st)
      | Returns (Inl e) \<Rightarrow> (Returns (writeJSON [] 502 (error_json (os_error_text e))), st)
      | Returns (Inr sources) \<Rightarrow>
          (if sources = [] then
             (Returns (writeJSON [] 200 (JObj [(''answer'', JStr ''Not found in sources.''),
                (''citations'', JArr []), (''faithfulness'', JFrac 1)])), st)
           else (case ask_generate x s ms (aq_Query req) tenant gen key qvec sources st of
                   (resp, st') \<Rightarrow> (Returns resp, st'))))"

text \<open>An assignment to an entry of a nil map panics.\<close>

definition handleAsk ::
  "('os, 'qd, 'r, 'v) qdeps \<Rightarrow> server \<Rightarrow> int \<Rightarrow> request \<Rightarrow> ('os, 'qd, 'r, 'v) qstate \<Rightarrow>
   response outcome \<times> ('os, 'qd, 'r, 'v) qstate" where
  "handleAsk x s ms r st =
     (case authTenant s r of
        (tenant, False) \<Rightarrow> (Returns (writeJSON [] 401 (error_json ''unauthorized'')), st)
      | (tenant, True) \<Rightarrow>
          (case read_request r of
             None \<Rightarrow> (Returns (writeJSON [] 400 (error_json ''query required'')), st)
           | Some req \<Rightarrow>
               (let filters = scopeFilters (aq_Filters req) tenant;
                    gen = Generation (q_redis x) (s_cache s) (qs_rd st) tenant;
                    key = Key (aq_Query req) filters gen
                in case CacheGet (q_redis x) (s_cache s) (qs_rd st) key of
                     Some None \<Rightarrow> (Panics, st\<lparr>qs_metrics := qs_metrics st @ [CacheHits]\<rparr>)
                   | Some (Some cached) \<Rightarrow>
                       (Returns (writeJSON [] 200 (JObj (AList.update ''cached'' (JBool True) cached))),
                        st\<lparr>qs_metrics := qs_metrics st @ [CacheHits]\<rparr>)
                   | None \<Rightarrow>
                       (let st1 = st\<lparr>qs_metrics := qs_metrics st @ [CacheMisses]\<rparr>;
                            qvec = embed_query x s (aq_Query req)
                        in case (case qvec of None \<Rightarrow> (NotJSON [], 0, False)
                                 | Some v \<Rightarrow> Lookup (q_semquery x) (s_sem s) (qs_sem st1) v tenant gen) of
                             (aj, score, False) \<Rightarrow> ask_miss x s ms req filters tenant gen key qvec st1
                           | (aj, score, True) \<Rightarrow>
                               (let st2 = st1\<lparr>qs_metrics := qs_metrics st1 @ [CacheHits]\<rparr>
                                in case aj of
                                     JText (JObj kvs) \<Rightarrow>
                                       (Returns (writeJSON [] 200 (JObj
                                          (AList.update ''semantic_score'' (JFrac score)
                                            (AList.update ''semantic'' (JBool True)
                                              (AList.update ''cached'' (JBool True) kvs))))), st2)
                                   | JText JNull \<Rightarrow> (Panics, st2)
                                   | _ \<Rightarrow> ask_miss x s ms req filters tenant gen key qvec st2)))))"

text \<open>The routes of \<open>main\<close>: both handlers behind the limiter and the body limit.\<close>

definition serve ::
  "('os, 'qd, 'r, 'v) qdeps \<Rightarrow> server \<Rightarrow> int \<Rightarrow> int \<Rightarrow> string \<Rightarrow> request \<Rightarrow>
   rateLimiter \<times> ('os, 'qd, 'r, 'v) qstate \<Rightarrow> response outcome \<times> rateLimiter \<times> ('os, 'qd, 'r, 'v) qstate" where
  "serve x s now ms path r st =
     (if path = ''/search'' then middleware clientKey (limitBody (handleSearch x s ms)) now r st
      else if path = ''/ask'' then middleware clientKey (limitBody (handleAsk x s ms)) now r st
      else if path = ''/health'' then (Returns (writeJSON [] 200 (JObj [(''status'', JStr ''ok'')])), st)
      else (Returns (writeJSON [] 404 JNull), st))"

subsection \<open>Startup\<close>

definition probeDim :: "http_api \<Rightarrow> ml \<Rightarrow> int" where
  "probeDim api m =
     (case Embed api m [''probe''] of
        Inl e \<Rightarrow> 768
      | Inr (vecs, ver) \<Rightarrow> (case vecs of [] \<Rightarrow> 768 | v # vs \<Rightarrow> int (length v)))"

text \<open>The URL \<open>runHealthcheck\<close> probes and its exit code.\<close>

definition healthcheck_url :: "string \<Rightarrow> string" where
  "healthcheck_url addr =
     ''http://'' @ (if HasPrefix addr '':'' then ''127.0.0.1'' @ addr else addr) @ ''/health''"

definition runHealthcheck :: "http_api \<Rightarrow> string \<Rightarrow> int" where
  "runHealthcheck api addr =
     (case api \<lparr>hq_URL = healthcheck_url addr, hq_Body = None\<rparr> of
        TransportError e \<Rightarrow> 1
      | Reply status body \<Rightarrow> if status \<noteq> 200 then 1 else 0)"

text \<open>The server \<open>main\<close> configures from the environment.\<close>

definition new_server :: "(string \<Rightarrow> string) \<Rightarrow> semcache \<Rightarrow> server" where
  "new_server getenv sem =
     \<lparr>s_ml = FromEnv getenv (Str getenv ''ML_SERVICE_ADDR'' ''http://localhost:8000''),
      s_cache = NewCache (Str getenv ''REDIS_ADDR'' []) (Dur getenv ''CACHE_TTL'' (5 * 60 * 10 ^ 9)),
      s_sem = sem, s_llm = NewProvider getenv,
      s_rrfK = ConfigInt getenv ''RRF_K'' 60, s_rerankN = ConfigInt getenv ''RERANK_TOP_N'' 50,
      s_topK = ConfigInt getenv ''RAG_TOP_K'' 6,
      s_faithMin = Float getenv ''FAITHFULNESS_THRESHOLD'' 0.9,
      s_faithMode = Str getenv ''FAITHFULNESS_MODE'' ''lexical'',
      s_apiKey = Str getenv ''QUERY_API_KEY'' [],
      s_reqTO = Dur getenv ''REQUEST_TIMEOUT'' (5 * 10 ^ 9)\<rparr>"

subsection \<open>Specification\<close>

text \<open>
  Documented behaviour of the cluster. A search is near real time: it sees the documents as of
  the last refresh, a view of its own; a hit names a document of that view that meets
  every term filter on a keyword field. \<open>_mget\<close> is real time: it reads the live documents. The
  two are predicates on separate views, which agree when the index has been refreshed.
\<close>

definition keyword_field :: "os_doc \<Rightarrow> string \<Rightarrow> string option" where
  "keyword_field d k = map_of [(''doc_id'', os_DocID d), (''source'', os_Source d),
     (''tenant_id'', os_TenantID d), (''category'', os_Category d)] k"

definition search_spec :: "'os search_api \<Rightarrow> ('os \<Rightarrow> string \<rightharpoonup> os_doc) \<Rightarrow> bool" where
  "search_spec api view \<longleftrightarrow>
     (\<forall>s q fs n hits h. api s q fs n = Inr hits \<and> h \<in> set hits \<longrightarrow>
        (\<exists>i d. fst h = Some i \<and> view s i = Some d \<and> os_DocID d = i \<and>
           (\<forall>(k, v) \<in> set fs. \<forall>w. keyword_field d k = Some w \<longrightarrow> w = v)))"

definition mget_spec :: "'os mget_api \<Rightarrow> ('os \<Rightarrow> string \<rightharpoonup> os_doc) \<Rightarrow> bool" where
  "mget_spec api view \<longleftrightarrow>
     (\<forall>s ids items it. api s ids = Inr items \<and> it \<in> set items \<and> mg_Found it \<longrightarrow>
        view s (mg_ID it) = Some (mg_Source it))"

text \<open>The indexer writes the tenant of a point as an integer.\<close>

definition int_tenants :: "(string \<rightharpoonup> point) \<Rightarrow> bool" where
  "int_tenants m \<longleftrightarrow> (\<forall>p \<in> ran m. \<exists>n. map_of (pt_Payload p) ''tenant_id'' = Some (PInt n))"

text \<open>Reference services over a list of documents, used to show that the hypotheses can hold.\<close>

definition ref_view :: "os_doc list \<Rightarrow> string \<rightharpoonup> os_doc" where
  "ref_view ds = map_of (map (\<lambda>d. (os_DocID d, d)) ds)"

definition ref_search :: "os_doc list search_api" where
  "ref_search ds q fs n =
     Inr (map (\<lambda>d. (Some (os_DocID d), 1)) (filter (\<lambda>d. ref_view ds (os_DocID d) = Some d \<and>
       list_all (\<lambda>(k, v). keyword_field d k = Some v) fs) ds))"

definition ref_mget :: "os_doc list mget_api" where
  "ref_mget ds ids =
     Inr (List.map_filter (\<lambda>i. map_option (\<lambda>d. \<lparr>mg_ID = i, mg_Found = True, mg_Source = d\<rparr>) (ref_view ds i)) ids)"

definition ref_qdeps :: "(os_doc list, unit, string \<rightharpoonup> rvalue, sem_entry list) qdeps" where
  "ref_qdeps = \<lparr>q_search = ref_search, q_mget = ref_mget, q_query = (\<lambda>s v fs n. Inr []),
     q_http = (\<lambda>r. TransportError ''down''), q_redis = ref_redis,
     q_semquery = ref_sem_query (\<lambda>a b. 1), q_semupsert = ref_sem_upsert,
     q_chat = (\<lambda>r. TransportError ''down''), q_parse = NotJSON\<rparr>"

definition ref_server :: server where
  "ref_server = \<lparr>s_ml = Python ''ml'', s_cache = \<lparr>has_rdb = True, ttl = 0\<rparr>,
     s_sem = \<lparr>sc_threshold = 1, sc_enabled = True\<rparr>, s_llm = Extractive, s_rrfK = 60, s_rerankN = 50,
     s_topK = 6, s_faithMin = 9 / 10, s_faithMode = ''lexical'', s_apiKey = ''key'', s_reqTO = 0\<rparr>"

definition ex_os_doc :: "string \<Rightarrow> string \<Rightarrow> os_doc" where
  "ex_os_doc i tenant = \<lparr>os_DocID = i, os_Source = ''pg'', os_TenantID = tenant, os_Title = ''The WAL'',
     os_Body = ''It is read.'', os_Category = [], os_Version = 1, os_CommitTS = 0\<rparr>"

definition ref_qstate :: "(os_doc list, unit, string \<rightharpoonup> rvalue, sem_entry list) qstate" where
  "ref_qstate = \<lparr>qs_os = [ex_os_doc ''a'' ''7'', ex_os_doc ''b'' ''8''], qs_qd = (),
     qs_rd = Map.empty, qs_sem = [], qs_metrics = []\<rparr>"

definition ex_request :: "(string \<times> json) list \<Rightarrow> request" where
  "ex_request extra = \<lparr>rq_Header = (\<lambda>h. if h = ''X-API-Key'' then ''key'' else if h = ''X-Tenant-ID'' then ''7'' else []),
     rq_RemoteAddr = ''10.0.0.1:80'', rq_Body = JText (JObj ((''query'', JStr ''wal'') # extra)), rq_BodyBytes = 20\<rparr>"

definition vector_hit_deps :: "(os_doc list, unit, string \<rightharpoonup> rvalue, sem_entry list) qdeps" where
  "vector_hit_deps = ref_qdeps\<lparr>q_search := (\<lambda>c q fs n. Inl ''down''), q_mget := (\<lambda>c ids. Inl ''down''),
     q_query := (\<lambda>q v fs n. Inr [([(''doc_id'', PStr ''a'')], 1)])\<rparr>"

subsection \<open>Lemmas: retrieval\<close>

lemma collect_ids_take:
  "collect_ids n ids fs = ids @ take (if n \<le> int (length ids) then 1 else nat n - length ids) fs"
proof (induction fs arbitrary: ids)
  case (Cons f fs)
  show ?case
  proof (cases "int (length (ids @ [f])) \<ge> n")
    case True
    then have "\<not> n \<le> int (length ids) \<Longrightarrow> nat n - length ids = 1" by simp
    with True show ?thesis by auto
  next
    case False
    then have "nat n - length ids = Suc (nat n - length (ids @ [f]))" by simp
    with False Cons [of "ids @ [f]"] show ?thesis by simp
  qed
qed simp

lemma collect_ids_sub: "set (collect_ids n [] fs) \<subseteq> set fs"
  using collect_ids_take [of n "[]" fs] by (auto dest: in_set_takeD)

lemma fused_ids: "set (map sc_DocID (RRF [a, b] k)) = set a \<union> set b"
  by (simp add: RRF_set image_image)

lemma build_sound:
  assumes "build_sources docs haveIDs k i order acc = Returns ss"
  shows "\<exists>xs. ss = acc @ xs \<and> int (length xs) \<le> max 0 (k - i) \<and>
    (\<forall>j < length xs. \<exists>h \<in> set haveIDs. xs ! j = source_of (int (length acc + j) + 1) (doc_at docs h))"
  using assms
proof (induction order arbitrary: i acc)
  case (Cons idx order)
  show ?case
  proof (cases "i \<ge> k")
    case False
    let ?s = "source_of (int (length acc) + 1) (doc_at docs (haveIDs ! nat idx))"
    have r: "0 \<le> idx" "idx < int (length haveIDs)"
      "build_sources docs haveIDs k (i + 1) order (acc @ [?s]) = Returns ss"
      using Cons.prems False by (auto split: if_splits)
    obtain xs where xs: "ss = (acc @ [?s]) @ xs" "int (length xs) \<le> max 0 (k - (i + 1))"
      "\<And>j. j < length xs \<Longrightarrow> \<exists>h \<in> set haveIDs. xs ! j = source_of (int (length (acc @ [?s]) + j) + 1) (doc_at docs h)"
      using Cons.IH [OF r(3)] by blast
    have "\<exists>h \<in> set haveIDs. (?s # xs) ! j = source_of (int (length acc + j) + 1) (doc_at docs h)"
      if "j < length (?s # xs)" for j
    proof (cases j)
      case 0
      have "haveIDs ! nat idx \<in> set haveIDs" using r by (simp add: nat_less_iff)
      then show ?thesis using 0 by auto
    next
      case (Suc j')
      then show ?thesis using xs(3) [of j'] that by (simp add: algebra_simps)
    qed
    then show ?thesis using xs(1,2) False by (intro exI [of _ "?s # xs"]) auto
  qed (use Cons.prems in simp)
qed simp

lemma build_total:
  assumes "\<And>idx. idx \<in> set order \<Longrightarrow> 0 \<le> idx \<and> idx < int (length haveIDs)"
  shows "build_sources docs haveIDs k i order acc =
    Returns (acc @ map (\<lambda>(n, idx). source_of (int n + 1) (doc_at docs (haveIDs ! nat idx)))
      (enumerate (length acc) (take (nat (k - i)) order)))"
  using assms
proof (induction order arbitrary: i acc)
  case (Cons idx order)
  show ?case
  proof (cases "i \<ge> k")
    case False
    then have "nat (k - i) = Suc (nat (k - (i + 1)))" by simp
    moreover have "\<not> idx < 0" "\<not> int (length haveIDs) \<le> idx" using Cons.prems [of idx] by auto
    moreover have "build_sources docs haveIDs k (i + 1) order acc =
      Returns (acc @ map (\<lambda>(n, idx). source_of (int n + 1) (doc_at docs (haveIDs ! nat idx)))
        (enumerate (length acc) (take (nat (k - (i + 1))) order)))" for acc
      using Cons.IH Cons.prems by simp
    ultimately show ?thesis using False by simp
  qed simp
qed simp

lemma retrieve_assemble:
  "retrieve x s st query filters topK qvec =
     assemble x s (qs_os st) query topK (bm25_lane x s (qs_os st) query filters)
       (vector_lane x s (qs_qd st) query filters qvec)"
  by (simp add: retrieve_def assemble_def Let_def)

text \<open>Where the sources come from.\<close>

lemma assemble_sound:
  assumes "assemble x s os query topK bm25IDs vecIDs = Returns (Inr ss)"
  shows "int (length ss) \<le> max 0 (if topK \<le> 0 then s_topK s else topK)"
    and "j < length ss \<Longrightarrow> \<exists>ids docs i d. GetByIDs (q_mget x) os ids = Inr docs \<and>
      i \<in> set bm25IDs \<union> set vecIDs \<and> docs i = Some d \<and> ss ! j = source_of (int j + 1) d"
proof -
  let ?ids = "collect_ids (s_rerankN s) [] (map sc_DocID (RRF [bm25IDs, vecIDs] (s_rrfK s)))"
  let ?k = "if topK \<le> 0 then s_topK s else topK"
  consider "ss = []" | docs haveIDs order where "GetByIDs (q_mget x) os ?ids = Inr docs"
    "haveIDs = filter (\<lambda>i. docs i \<noteq> None) ?ids" "build_sources docs haveIDs ?k 0 order [] = Returns ss"
    using assms by (auto simp: assemble_def Let_def split: if_splits sum.splits outcome.splits)
  then have "int (length ss) \<le> max 0 ?k \<and> (j < length ss \<longrightarrow> (\<exists>ids docs i d.
      GetByIDs (q_mget x) os ids = Inr docs \<and> i \<in> set bm25IDs \<union> set vecIDs \<and>
      docs i = Some d \<and> ss ! j = source_of (int j + 1) d))"
  proof cases
    case 2
    have sub: "set ?ids \<subseteq> set bm25IDs \<union> set vecIDs"
      using collect_ids_sub [of "s_rerankN s" "map sc_DocID (RRF [bm25IDs, vecIDs] (s_rrfK s))"] fused_ids by metis
    obtain xs where "ss = xs" "int (length xs) \<le> max 0 ?k"
      "\<And>j. j < length xs \<Longrightarrow> \<exists>h \<in> set haveIDs. xs ! j = source_of (int j + 1) (doc_at docs h)"
      using build_sound [OF 2(3)] by auto
    moreover have "\<exists>d. docs h = Some d \<and> doc_at docs h = d \<and> h \<in> set bm25IDs \<union> set vecIDs" if "h \<in> set haveIDs" for h
      using that 2(2) sub by (auto simp: doc_at_def)
    ultimately show ?thesis using 2(1) by metis
  qed simp
  then show "int (length ss) \<le> max 0 ?k"
    and "j < length ss \<Longrightarrow> \<exists>ids docs i d. GetByIDs (q_mget x) os ids = Inr docs \<and>
      i \<in> set bm25IDs \<union> set vecIDs \<and> docs i = Some d \<and> ss ! j = source_of (int j + 1) d"
    by blast+
qed

lemma retrieve_sound:
  assumes "retrieve x s st query filters topK qvec = Returns (Inr ss)"
  shows "int (length ss) \<le> max 0 (if topK \<le> 0 then s_topK s else topK)"
    and "j < length ss \<Longrightarrow> \<exists>ids docs i d. GetByIDs (q_mget x) (qs_os st) ids = Inr docs \<and>
      i \<in> set (bm25_lane x s (qs_os st) query filters) \<union> set (vector_lane x s (qs_qd st) query filters qvec) \<and>
      docs i = Some d \<and> ss ! j = source_of (int j + 1) d"
  using assemble_sound [OF assms [unfolded retrieve_assemble]] by blast+

lemma retrieve_source_of:
  "retrieve x s st query filters topK qvec = Returns (Inr ss) \<Longrightarrow> j < length ss \<Longrightarrow>
   \<exists>d. ss ! j = source_of (int j + 1) d"
  using retrieve_sound(2) by (elim exE conjE meta_allE) blast

lemma mget_collect_sound:
  "mget_collect items out i = Some d \<Longrightarrow>
   out i = Some d \<or> (\<exists>it\<in>set items. mg_Found it \<and> mg_ID it = i \<and> d = stored_of (mg_Source it))"
  by (induction items out rule: mget_collect.induct) (auto split: if_splits)

lemma GetByIDs_view:
  assumes "mget_spec api view" "GetByIDs api s ids = Inr docs" "docs i = Some d"
  shows "\<exists>e. view s i = Some e \<and> d = stored_of e"
proof -
  obtain items where items: "api s ids = Inr items" "docs = mget_collect items Map.empty"
    using assms(2,3) by (auto simp: GetByIDs_def split: if_splits sum.splits)
  obtain it where "it \<in> set items" "mg_Found it" "mg_ID it = i" "d = stored_of (mg_Source it)"
    using mget_collect_sound [of items Map.empty i d] assms(3) items(2) by auto
  then show ?thesis using assms(1) items(1) unfolding mget_spec_def by blast
qed

text \<open>The fields a term filter can compare are the keyword fields of the mapping.\<close>

lemma keyword_field_mapping:
  "keyword_field d k \<noteq> None \<longleftrightarrow> map_of index_mapping k = Some ''keyword''"
  by (auto simp: keyword_field_def index_mapping_def)

lemma scoped_filter: "tenant \<noteq> [] \<Longrightarrow> (''tenant_id'', tenant) \<in> set (scopeFilters fs tenant)"
  using map_of_SomeD [of "scopeFilters fs tenant" "''tenant_id''" tenant]
  by (simp add: scopeFilters_def AList.update_conv')

lemma bm25_view:
  assumes "search_spec (q_search x) view" "i \<in> set (bm25_lane x s os query fs)"
  shows "\<exists>d. view os i = Some d \<and> os_DocID d = i \<and>
    (\<forall>(k, v) \<in> set fs. \<forall>w. keyword_field d k = Some w \<longrightarrow> w = v)"
proof -
  obtain hits h where h: "q_search x os query fs (s_rerankN s) = Inr hits" "h \<in> set hits"
    "i = (case fst h of None \<Rightarrow> [] | Some j \<Rightarrow> j)"
    using assms(2) by (auto simp: bm25_lane_def OsSearch_def split: sum.splits)
  obtain j d where "fst h = Some j" "view os j = Some d" "os_DocID d = j"
    "\<forall>(k, v) \<in> set fs. \<forall>w. keyword_field d k = Some w \<longrightarrow> w = v"
    using assms(1) h(1,2) unfolding search_spec_def by blast
  then show ?thesis using h(3) by simp
qed

text \<open>A keyword condition never matches an integer payload.\<close>

lemma vector_lane_tenant:
  assumes "query_spec (q_query x) view" "int_tenants (view qd)" "tenant \<noteq> []"
  shows "vector_lane x s qd query (scopeFilters fs tenant) qvec = []"
proof -
  have none: "res = []" if q: "q_query x qd v (scopeFilters fs tenant) n = Inr res" for v n res
  proof (rule ccontr)
    assume "res \<noteq> []"
    then obtain r where r: "r \<in> set res" by (meson last_in_set)
    obtain p where p: "p \<in> ran (view qd)" "list_all (\<lambda>c. matches c p) (scopeFilters fs tenant)"
      using assms(1) q r unfolding query_spec_def by blast
    have "matches (''tenant_id'', tenant) p"
      using p(2) scoped_filter [OF assms(3)] by (auto simp: list_all_iff)
    then show False using assms(2) p(1) by (fastforce simp: int_tenants_def matches_def)
  qed
  then show ?thesis
    by (auto simp: vector_lane_def QdSearch_def split: option.splits sum.splits)
qed

text \<open>What the search returned for a tenant's query is read by id: the source shows the live document.\<close>

lemma retrieve_tenant:
  assumes "search_spec (q_search x) seen" "mget_spec (q_mget x) vos"
    and "query_spec (q_query x) vqd" "int_tenants (vqd (qs_qd st))" "tenant \<noteq> []"
    and "retrieve x s st query (scopeFilters fs tenant) topK qvec = Returns (Inr ss)" "src \<in> set ss"
  shows "\<exists>i d e n. seen (qs_os st) i = Some d \<and> os_DocID d = i \<and> os_TenantID d = tenant \<and>
    vos (qs_os st) i = Some e \<and> src = source_of n (stored_of e)"
proof -
  obtain j where j: "j < length ss" "src = ss ! j" using assms(7) by (metis in_set_conv_nth)
  obtain ids docs i d where r: "GetByIDs (q_mget x) (qs_os st) ids = Inr docs"
    "i \<in> set (bm25_lane x s (qs_os st) query (scopeFilters fs tenant))" "docs i = Some d"
    "src = source_of (int j + 1) d"
    using retrieve_sound(2) [OF assms(6) j(1)] j(2) vector_lane_tenant [OF assms(3-5)] by auto
  obtain c where c: "seen (qs_os st) i = Some c" "os_DocID c = i"
    "\<forall>(k, v) \<in> set (scopeFilters fs tenant). \<forall>w. keyword_field c k = Some w \<longrightarrow> w = v"
    using bm25_view [OF assms(1) r(2)] by blast
  obtain e where "vos (qs_os st) i = Some e" "d = stored_of e" using GetByIDs_view [OF assms(2) r(1,3)] by blast
  moreover have "os_TenantID c = tenant"
    using c(3) scoped_filter [OF assms(5)] by (fastforce simp: keyword_field_def)
  ultimately show ?thesis using r(4) c(1,2) by blast
qed

lemma search_spec_ref: "search_spec ref_search ref_view"
  by (fastforce simp: search_spec_def ref_search_def list_all_iff)

lemma mget_spec_ref: "mget_spec ref_mget ref_view"
  by (fastforce simp: mget_spec_def ref_mget_def set_map_filter)

lemma query_spec_none: "query_spec (\<lambda>s v fs n. Inr []) view"
  by (simp add: query_spec_def)

subsection \<open>Lemmas: the contract of a reranker\<close>

text \<open>
  \<open>retrieve\<close> indexes \<open>haveIDs\<close> with what \<open>Rerank\<close> returns. It relies on the indices being in
  range; an ML client that promises so makes it free of panics.
\<close>

locale ranker =
  fixes rank :: "string \<Rightarrow> string list \<Rightarrow> 'e + 'sc \<times> int list"
  assumes in_range: "rank q docs = Inr (scores, ord) \<Longrightarrow> i \<in> set ord \<Longrightarrow> 0 \<le> i \<and> i < int (length docs)"
begin

definition safe_order :: "string \<Rightarrow> string list \<Rightarrow> int list" where
  "safe_order q docs =
     (case rank q docs of
        Inl e \<Rightarrow> map int [0..<length docs]
      | Inr (scores, ord) \<Rightarrow> if length ord = length docs then ord else map int [0..<length docs])"

lemma safe_order_range: "i \<in> set (safe_order q docs) \<Longrightarrow> 0 \<le> i \<and> i < int (length docs)"
  using in_range by (auto simp: safe_order_def split: sum.splits if_splits)

lemma length_safe_order: "length (safe_order q docs) = length docs"
  by (auto simp: safe_order_def split: sum.splits)

end

interpretation tei: ranker "Rerank api (TEI e r)" for api e r
  by unfold_locales (rule Rerank_TEI_range)

lemma rerank_order_tei: "s_ml s = TEI e r \<Longrightarrow> rerank_order x s q docs = tei.safe_order (q_http x) e r q docs"
  by (simp add: rerank_order_def tei.safe_order_def)

lemma rerank_order_down:
  "q_http x = (\<lambda>_. TransportError m) \<Longrightarrow> rerank_order x s q docs = map int [0..<length docs]"
  by (cases "s_ml s")
     (simp_all add: rerank_order_def Rerank_def ClientRerank_def TEIRerank_def ml_post_def TEIPost_def)

lemma embed_query_down: "q_http x = (\<lambda>_. TransportError m) \<Longrightarrow> embed_query x s q = None"
  by (cases "s_ml s") (simp_all add: embed_query_def Embed_def ClientEmbed_def TEIEmbed_def ml_post_def TEIPost_def)

text \<open>Fusing one ranking with nothing keeps it.\<close>

lemma RRF_single:
  assumes "distinct l"
  shows "map sc_DocID (RRF [l, []] k) = l"
proof -
  let ?k = "rrf_k k"
  have k: "0 < ?k" by (simp add: rrf_k_def)
  define out where "out = map (\<lambda>r. \<lparr>sc_DocID = l ! r, sc_Score = 1 / real_of_int (?k + int r + 1)\<rparr>) [0..<length l]"
  have score: "rrf_score ?k [l, []] (l ! r) = 1 / real_of_int (?k + int r + 1)" if "r < length l" for r
    using list_score_distinct [OF assms that, of ?k] list_score_absent [of "l ! r" "[]" ?k]
    by (simp add: rrf_score_def)
  have "set (RRF [l, []] k) = (\<lambda>r. \<lparr>sc_DocID = l ! r, sc_Score = rrf_score ?k [l, []] (l ! r)\<rparr>) ` {..<length l}"
    by (force simp: RRF_set in_set_conv_nth)
  also have "\<dots> = set out" using score by (auto simp: out_def)
  finally have s: "set (RRF [l, []] k) = set out" .
  have m: "map sc_DocID out = l" by (simp add: out_def comp_def map_nth)
  then have d: "distinct out" using assms by (metis distinct_map)
  have so: "sorted_wrt scored_less out"
    unfolding out_def sorted_wrt_map sorted_wrt_iff_nth_less scored_less_def
    using k by (auto simp: divide_strict_left_mono frac_eq_eq)
  have "distinct (RRF [l, []] k)" using RRF_distinct [of "[l, []]" k] by (simp add: distinct_map)
  with d s have "mset (RRF [l, []] k) = mset out" by (simp add: set_eq_iff_mset_eq_distinct)
  then have "RRF [l, []] k = out"
    by (rule sorted_wrt_unique [OF RRF_sorted so]) (meson scored_order.irrefl scored_order.trans)
  then show ?thesis using m by simp
qed

lemma terminated_middle: "match_sentences skip cur (a @ CHR ''.'' # CHR '' '' # b) \<noteq> []"
proof (induction a arbitrary: skip cur)
  case Nil
  then show ?case by (simp add: re_space_def is_end_def)
qed auto

lemma markerFor_digits: "0 \<le> n \<Longrightarrow> \<exists>ds. markerFor n = ''doc_'' @ ds \<and> ds \<noteq> [] \<and> list_all is_digit ds"
  using dec_digits_digits [of "nat n"] by (auto simp: markerFor_def Itoa_def)

lemma source_of_citable: "0 \<le> n \<Longrightarrow> \<not> has_marker (sr_Text (source_of n d)) \<Longrightarrow> citable (source_of n d)"
  using markerFor_digits [of n] terminated_middle [of False "[]" "st_Title d" "st_Body d"]
  by (auto simp: citable_def source_of_def terminated_def)

subsection \<open>Properties\<close>

text \<open>With an API key configured, a request is authorized exactly when it presents the
  key (in \<open>X-API-Key\<close>, or else in \<open>Authorization\<close>, with or without the Bearer prefix) and a
  tenant; otherwise both handlers answer 401 and touch neither store nor cache.\<close>

theorem auth_required:
  assumes "s_apiKey s \<noteq> []"
  shows "(snd (authTenant s r) \<longleftrightarrow>
      (if rq_Header r ''X-API-Key'' = [] then TrimPrefix (rq_Header r ''Authorization'') ''Bearer ''
       else rq_Header r ''X-API-Key'') = s_apiKey s \<and> TrimSpace (rq_Header r ''X-Tenant-ID'') \<noteq> []) \<and>
    (snd (authTenant s r) \<longrightarrow> fst (authTenant s r) = TrimSpace (rq_Header r ''X-Tenant-ID'')) \<and>
    (\<not> snd (authTenant s r) \<longrightarrow>
      handleSearch x s ms r st = (Returns (writeJSON [] 401 (error_json ''unauthorized'')), st) \<and>
      handleAsk x s ms r st = (Returns (writeJSON [] 401 (error_json ''unauthorized'')), st))"
  using assms by (auto simp: authTenant_def handleSearch_def handleAsk_def Let_def split: prod.splits bool.splits)

theorem auth_required_witness:
  "\<not> snd (authTenant ref_server (ex_request []\<lparr>rq_Header := (\<lambda>h. [])\<rparr>)) \<and>
   fst (handleAsk ref_qdeps ref_server 0 (ex_request []\<lparr>rq_Header := (\<lambda>h. [])\<rparr>) ref_qstate) =
     Returns (writeJSON [] 401 (error_json ''unauthorized''))"
proof -
  have a: "\<not> snd (authTenant ref_server (ex_request []\<lparr>rq_Header := (\<lambda>h. [])\<rparr>))"
    by (simp add: authTenant_def ref_server_def TrimPrefix_def)
  moreover have "s_apiKey ref_server \<noteq> []" by (simp add: ref_server_def)
  ultimately show ?thesis
    using auth_required [of ref_server "ex_request []\<lparr>rq_Header := (\<lambda>h. [])\<rparr>" ref_qdeps 0 ref_qstate] by simp
qed

text \<open>C5: Tenant isolation of search: with an API key configured, whatever filters the client
  sends, every source of a successful search stands for a document that belonged to the tenant
  named in the trusted header in what the search saw (\<open>seen\<close>, the index as of its last
  refresh), and shows the live document of that id (\<open>vos\<close>, which \<open>_mget\<close> reads): a document of the
  tenant, unless it was moved to another tenant since that refresh. The cluster is assumed
  to honour term filters, and the points to carry integer tenants.\<close>

theorem search_tenant_isolation:
  assumes "s_apiKey s \<noteq> []" "search_spec (q_search x) seen" "mget_spec (q_mget x) vos"
    and "query_spec (q_query x) vqd" "int_tenants (vqd (qs_qd st))"
    and "handleSearch x s ms r st = (Returns resp, st')" "rs_Status resp = 200"
    and "tenant = TrimSpace (rq_Header r ''X-Tenant-ID'')"
  shows "\<exists>q sources. rs_Body resp = JObj [(''latency_ms'', JInt ms), (''query'', JStr q),
      (''results'', slice_json source_json sources)] \<and>
    (\<forall>src \<in> set sources. \<exists>i d e n.
      seen (qs_os st) i = Some d \<and> os_DocID d = i \<and> os_TenantID d = tenant \<and>
      vos (qs_os st) i = Some e \<and> src = source_of n (stored_of e))"
proof -
  have t: "authTenant s r = (tenant, True)"
    using assms(1,6-8) by (auto simp: handleSearch_def writeJSON_def authTenant_def Let_def split: if_splits)
  then have te: "tenant \<noteq> []"
    using assms(1) by (auto simp: authTenant_def Let_def split: if_splits)
  obtain req sources where "read_request r = Some req"
    "retrieve x s st (aq_Query req) (scopeFilters (aq_Filters req) tenant) (aq_TopK req) None = Returns (Inr sources)"
    "resp = writeJSON [] 200 (JObj [(''latency_ms'', JInt ms), (''query'', JStr (aq_Query req)),
       (''results'', slice_json source_json sources)])"
    using assms(6,7) t
    by (auto simp: handleSearch_def writeJSON_def split: option.splits outcome.splits sum.splits)
  then show ?thesis
    using retrieve_tenant [OF assms(2-5) te] by (auto simp: writeJSON_def)
qed

theorem search_tenant_isolation_witness:
  "\<exists>resp q sources. fst (handleSearch ref_qdeps ref_server 0 (ex_request [(''filters'', JObj [(''tenant_id'', JStr ''8'')])]) ref_qstate) = Returns resp \<and>
    rs_Body resp = JObj [(''latency_ms'', JInt 0), (''query'', JStr q), (''results'', slice_json source_json sources)] \<and>
    (\<forall>src \<in> set sources. \<exists>i d. ref_view (qs_os ref_qstate) i = Some d \<and> os_TenantID d = ''7'' \<and> sr_DocID src = os_DocID d)"
proof -
  let ?r = "ex_request [(''filters'', JObj [(''tenant_id'', JStr ''8'')])]"
  have "case fst (handleSearch ref_qdeps ref_server 0 ?r ref_qstate) of
      Returns resp \<Rightarrow> rs_Status resp = 200 | Panics \<Rightarrow> False" by code_simp
  then obtain resp st' where h: "handleSearch ref_qdeps ref_server 0 ?r ref_qstate = (Returns resp, st')" "rs_Status resp = 200"
    by (cases "handleSearch ref_qdeps ref_server 0 ?r ref_qstate") (auto split: outcome.splits)
  have "s_apiKey ref_server \<noteq> []" "''7'' = TrimSpace (rq_Header ?r ''X-Tenant-ID'')"
    by (simp_all add: ref_server_def ex_request_def TrimSpace_def is_space_def)
  moreover have "search_spec (q_search ref_qdeps) ref_view" "mget_spec (q_mget ref_qdeps) ref_view"
    "query_spec (q_query ref_qdeps) (\<lambda>_. Map.empty)" "int_tenants Map.empty"
    using search_spec_ref mget_spec_ref query_spec_none by (auto simp: ref_qdeps_def int_tenants_def)
  ultimately obtain q sources where "rs_Body resp = JObj [(''latency_ms'', JInt 0), (''query'', JStr q), (''results'', slice_json source_json sources)]"
    "\<forall>src \<in> set sources. \<exists>i d e n. ref_view (qs_os ref_qstate) i = Some d \<and> os_DocID d = i \<and> os_TenantID d = ''7'' \<and>
      ref_view (qs_os ref_qstate) i = Some e \<and> src = source_of n (stored_of e)"
    using search_tenant_isolation [of ref_server ref_qdeps ref_view ref_view "\<lambda>_. Map.empty", OF _ _ _ _ _ h] by blast
  then show ?thesis
    using h by (fastforce simp: source_of_def stored_of_def)
qed


text \<open>The sources of a retrieval are at most \<open>top_k\<close> (the configured number when the
  request gives none), numbered \<open>doc_1\<close>, \<open>doc_2\<close>, ... in order, and each text contains a
  terminated sentence (its title).\<close>

theorem retrieve_sources:
  assumes "retrieve x s st query filters topK qvec = Returns (Inr ss)"
  shows "int (length ss) \<le> max 0 (if topK \<le> 0 then s_topK s else topK) \<and>
    (\<forall>j < length ss. sr_Marker (ss ! j) = ''doc_'' @ Itoa (int j + 1) \<and> terminated (sr_Text (ss ! j)))"
proof -
  have "sr_Marker (ss ! j) = ''doc_'' @ Itoa (int j + 1) \<and> terminated (sr_Text (ss ! j))" if "j < length ss" for j
    using retrieve_source_of [OF assms that] terminated_middle
    by (auto simp: source_of_def markerFor_def terminated_def)
  then show ?thesis using retrieve_sound(1) [OF assms] by blast
qed

theorem retrieve_sources_witness:
  "\<exists>ss. retrieve ref_qdeps ref_server ref_qstate ''wal'' [] 1 None = Returns (Inr ss) \<and>
     length ss = 1 \<and> int (length ss) \<le> max 0 1"
proof -
  have "case retrieve ref_qdeps ref_server ref_qstate ''wal'' [] 1 None of
      Returns (Inr ss) \<Rightarrow> length ss = 1 | _ \<Rightarrow> False" by code_simp
  then obtain ss where "retrieve ref_qdeps ref_server ref_qstate ''wal'' [] 1 None = Returns (Inr ss)" "length ss = 1"
    by (auto split: outcome.splits sum.splits)
  then show ?thesis using retrieve_sources [of ref_qdeps ref_server ref_qstate "''wal''" "[]" 1 None ss] by auto
qed

text \<open>With the TEI backend retrieval never panics, whatever the inference server
  replies: indices out of range are dropped by the client and a short or failed ranking
  falls back to the fused order.\<close>

theorem retrieve_no_panic_tei:
  assumes "s_ml s = TEI e r"
  shows "retrieve x s st query filters topK qvec \<noteq> Panics"
proof -
  have "build_sources docs haveIDs k 0 (rerank_order x s query texts) [] \<noteq> Panics"
    if "length texts = length haveIDs" for docs haveIDs k texts
    using build_total [of "rerank_order x s query texts" haveIDs docs k 0 "[]"] that
      tei.safe_order_range [of _ "q_http x" e r query texts]
    by (simp add: rerank_order_tei [OF assms])
  then show ?thesis
    by (auto simp: retrieve_def Let_def split: sum.splits outcome.splits)
qed

theorem retrieve_no_panic_tei_witness:
  "retrieve (ref_qdeps\<lparr>q_http := (\<lambda>r. Reply 200 (JText (JArr [JObj [(''index'', JInt 9)]])))\<rparr>)
     (ref_server\<lparr>s_ml := TEI ''e'' ''r''\<rparr>) ref_qstate ''wal'' [] 1 None \<noteq> Panics"
  by (rule retrieve_no_panic_tei) simp

text \<open>Retrieval degrades to BM25: with the ML service and the vector store down, the
  documents the cluster ranks are returned in its order, up to \<open>top_k\<close>.\<close>

theorem retrieve_degrades_to_bm25:
  assumes "q_http x = (\<lambda>_. TransportError m)" "\<And>q v fs n. q_query x q v fs n = Inl e"
    and "bm25_lane x s (qs_os st) query fs = ids" "distinct ids" "ids \<noteq> []" "int (length ids) \<le> s_rerankN s"
    and "GetByIDs (q_mget x) (qs_os st) ids = Inr docs" "\<And>i. i \<in> set ids \<Longrightarrow> \<exists>d. docs i = Some d \<and> st_DocID d = i"
    and "0 < topK"
  shows "\<exists>ss. retrieve x s st query fs topK None = Returns (Inr ss) \<and> map sr_DocID ss = take (nat topK) ids"
proof -
  have v: "vector_lane x s (qs_qd st) query fs None = []"
    using assms(1) by (simp add: vector_lane_def embed_query_down)
  have fused: "map sc_DocID (RRF [ids, []] (s_rrfK s)) = ids" using RRF_single [OF assms(4)] .
  then have ne: "RRF [ids, []] (s_rrfK s) \<noteq> []" using assms(5) by auto
  have col: "collect_ids (s_rerankN s) [] ids = ids"
    using assms(5,6) by (cases ids) (auto simp: collect_ids_take)
  have have_all: "filter (\<lambda>i. docs i \<noteq> None) ids = ids" using assms(8) by (auto simp: filter_id_conv)
  let ?ord = "map int [0..<length ids]"
  let ?ss = "map (\<lambda>(n, idx). source_of (int n + 1) (doc_at docs (ids ! nat idx))) (enumerate 0 (take (nat topK) ?ord))"
  have b: "build_sources docs ids topK 0 ?ord [] = Returns ?ss"
    by (subst build_total) auto
  have "retrieve x s st query fs topK None = Returns (Inr ?ss)"
    using assms(3,5,7,9) v fused ne col have_all b rerank_order_down [OF assms(1)]
    by (simp add: retrieve_def Let_def)
  moreover have "map sr_DocID ?ss = take (nat topK) ids"
  proof (rule nth_equalityI)
    fix j assume "j < length (map sr_DocID ?ss)"
    then show "map sr_DocID ?ss ! j = take (nat topK) ids ! j"
      using assms(8) [of "ids ! j"] by (auto simp: nth_enumerate_eq source_of_def doc_at_def)
  qed simp
  ultimately show ?thesis by blast
qed

theorem retrieve_degrades_to_bm25_witness:
  "\<exists>ss. retrieve (ref_qdeps\<lparr>q_query := (\<lambda>q v fs n. Inl ''down'')\<rparr>) ref_server ref_qstate ''wal'' [] 1 None = Returns (Inr ss) \<and>
     map sr_DocID ss = take (nat 1) [''a'', ''b'']"
proof (rule retrieve_degrades_to_bm25)
  let ?x = "ref_qdeps\<lparr>q_query := (\<lambda>q v fs n. Inl ''down'')\<rparr>"
  show "q_http ?x = (\<lambda>_. TransportError ''down'')" by (simp add: ref_qdeps_def)
  show "bm25_lane ?x ref_server (qs_os ref_qstate) ''wal'' [] = [''a'', ''b'']" by code_simp
  show "GetByIDs (q_mget ?x) (qs_os ref_qstate) [''a'', ''b''] =
      Inr [''a'' \<mapsto> stored_of (ex_os_doc ''a'' ''7''), ''b'' \<mapsto> stored_of (ex_os_doc ''b'' ''8'')]"
    by (simp add: GetByIDs_def ref_qdeps_def ref_mget_def ref_view_def ref_qstate_def ex_os_doc_def map_filter_simps)
qed (auto simp: stored_of_def ex_os_doc_def ref_server_def)

text \<open>There is no vector-only mode: with OpenSearch down, a retrieval either finds nothing
  or fails with the error of the content fetch; it never returns a source, even when the
  vector lane has hits.\<close>

theorem retrieve_without_opensearch:
  assumes "\<And>c q fs n. q_search x c q fs n = Inl e" "\<And>c ids. q_mget x c ids = Inl e"
  shows "retrieve x s st query fs topK qvec =
    (if vector_lane x s (qs_qd st) query fs qvec = [] then Returns (Inr []) else Returns (Inl (MGetErr e)))"
proof -
  let ?v = "vector_lane x s (qs_qd st) query fs qvec"
  have b: "bm25_lane x s (qs_os st) query fs = []" by (simp add: bm25_lane_def OsSearch_def assms(1))
  have set: "set (map sc_DocID (RRF [[], ?v] (s_rrfK s))) = set ?v" by (simp only: fused_ids) simp
  then have emp: "RRF [[], ?v] (s_rrfK s) = [] \<longleftrightarrow> ?v = []" by (metis list.map_disc_iff set_empty)
  have "collect_ids n [] l \<noteq> []" if "l \<noteq> []" for n and l :: "string list"
    using that by (cases l) (auto simp: collect_ids_take)
  then show ?thesis
    using emp by (simp add: retrieve_def b Let_def GetByIDs_def assms(2))
qed


theorem retrieve_without_opensearch_witness:
  "retrieve vector_hit_deps ref_server ref_qstate ''wal'' [] 1 (Some [1]) = Returns (Inl (MGetErr ''down''))"
proof -
  have "vector_lane vector_hit_deps ref_server (qs_qd ref_qstate) ''wal'' [] (Some [1]) \<noteq> []" by code_simp
  moreover have "retrieve vector_hit_deps ref_server ref_qstate ''wal'' [] 1 (Some [1]) =
    (if vector_lane vector_hit_deps ref_server (qs_qd ref_qstate) ''wal'' [] (Some [1]) = [] then Returns (Inr [])
     else Returns (Inl (MGetErr ''down'')))"
    by (rule retrieve_without_opensearch) (simp_all add: vector_hit_deps_def)
  ultimately show ?thesis by simp
qed

text \<open>C12: \<open>/ask\<close> with the extractive provider is faithful end to end. For an authenticated, well-formed
  request that neither cache answers: if no retrieved source carries a citation marker in
  its text, the answer generated from them cites at least one of them, and the configured minimum is at
  most 1, then the response is 200 with that answer, its citations, faithfulness 1, no
  unsupported sentence and no warning. (An answer without a citation, the abstention, scores 0.)\<close>

theorem service_extractive_faithful:
  assumes "authTenant s r = (tenant, True)" "read_request r = Some req"
    and "gen = Generation (q_redis x) (s_cache s) (qs_rd st) tenant"
    and "CacheGet (q_redis x) (s_cache s) (qs_rd st) (Key (aq_Query req) (scopeFilters (aq_Filters req) tenant) gen) = None"
    and "\<And>v. embed_query x s (aq_Query req) = Some v \<Longrightarrow> \<not> snd (snd (Lookup (q_semquery x) (s_sem s) (qs_sem st) v tenant gen))"
    and "retrieve x s st (aq_Query req) (scopeFilters (aq_Filters req) tenant) (aq_TopK req)
      (embed_query x s (aq_Query req)) = Returns (Inr ss)"
    and "\<And>src. src \<in> set ss \<Longrightarrow> \<not> has_marker (sr_Text src)"
    and "s_llm s = Extractive" "s_faithMin s \<le> 1"
    and "ans = ExtractiveGenerate (aq_Query req) ss" "an_Citations ans \<noteq> []"
  shows "fst (handleAsk x s ms r st) = Returns (writeJSON [] 200 (JObj
    [(''answer'', JStr (an_Text ans)), (''citations'', slice_json cite_json (an_Citations ans)),
     (''faithfulness'', JFrac 1), (''unsupported'', JNull), (''model'', JStr (an_Model ans)), (''latency_ms'', JInt ms)]))"
proof -
  have "citable src" if m: "src \<in> set ss" for src
  proof -
    obtain j where j: "j < length ss" "src = ss ! j" using m unfolding in_set_conv_nth by blast
    obtain d where "src = source_of (int j + 1) d"
      using retrieve_source_of [OF assms(6) j(1)] j(2) by blast
    then show ?thesis using assms(7) [OF m] source_of_citable [of "int j + 1" d] by simp
  qed
  then have "Faithfulness (an_Text ans) ss = \<lparr>fr_Score = 1, fr_Unsupported = []\<rparr>"
    using extractive_answers_faithful [of ss "aq_Query req"] assms(10,11) by simp
  moreover have "ss \<noteq> []" using assms(10,11) by (auto simp: ExtractiveGenerate_def extractive_cands_def)
  moreover have "Generate (q_chat x) (s_llm s) (aq_Query req) ss = Inr ans"
    using assms(8,10) by (simp add: Generate_def)
  ultimately have g: "fst (ask_generate x s ms (aq_Query req) tenant gen key qvec ss st1) = writeJSON [] 200 (JObj
    [(''answer'', JStr (an_Text ans)), (''citations'', slice_json cite_json (an_Citations ans)),
     (''faithfulness'', JFrac 1), (''unsupported'', JNull), (''model'', JStr (an_Model ans)), (''latency_ms'', JInt ms)])"
    for key qvec st1
    using assms(8,9) by (simp add: ask_generate_def ScoreFaithfulness_def ask_body_def slice_json_def Let_def)
  let ?st1 = "st\<lparr>qs_metrics := qs_metrics st @ [CacheMisses]\<rparr>"
  let ?fs = "scopeFilters (aq_Filters req) tenant"
  have "retrieve x s ?st1 (aq_Query req) ?fs (aq_TopK req) (embed_query x s (aq_Query req)) = Returns (Inr ss)"
    using assms(6) by (simp add: retrieve_assemble)
  then have m: "fst (ask_miss x s ms req ?fs tenant gen key (embed_query x s (aq_Query req)) ?st1) = Returns (writeJSON [] 200 (JObj
    [(''answer'', JStr (an_Text ans)), (''citations'', slice_json cite_json (an_Citations ans)),
     (''faithfulness'', JFrac 1), (''unsupported'', JNull), (''model'', JStr (an_Model ans)), (''latency_ms'', JInt ms)]))"
    for key
    using g [of key "embed_query x s (aq_Query req)" ?st1] \<open>ss \<noteq> []\<close> by (simp add: ask_miss_def split_def)
  show ?thesis
  proof (cases "embed_query x s (aq_Query req)")
    case None
    then show ?thesis using assms(1-4) m by (simp add: handleAsk_def Let_def)
  next
    case (Some v)
    obtain aj score where "Lookup (q_semquery x) (s_sem s) (qs_sem st) v tenant gen = (aj, score, False)"
      using assms(5) [OF Some] by (metis prod.collapse)
    then show ?thesis using assms(1-4) m Some by (simp add: handleAsk_def Let_def)
  qed
qed

theorem service_extractive_faithful_witness:
  "\<exists>cites model. fst (handleAsk ref_qdeps ref_server 0 (ex_request []) ref_qstate) = Returns (writeJSON [] 200 (JObj
    [(''answer'', JStr ''The WAL. [doc_1]''), (''citations'', slice_json cite_json cites),
     (''faithfulness'', JFrac 1), (''unsupported'', JNull), (''model'', JStr model), (''latency_ms'', JInt 0)]))"
proof -
  let ?gen = "Generation (q_redis ref_qdeps) (s_cache ref_server) (qs_rd ref_qstate) ''7''"
  have "case retrieve ref_qdeps ref_server ref_qstate ''wal'' (scopeFilters [] ''7'') 0 None of
      Returns (Inr ss) \<Rightarrow> list_all (\<lambda>src. \<not> has_marker (sr_Text src)) ss \<and>
        (let ans = ExtractiveGenerate ''wal'' ss in an_Citations ans \<noteq> [] \<and> an_Text ans = ''The WAL. [doc_1]'')
    | _ \<Rightarrow> False" by code_simp
  then obtain ss where ss: "retrieve ref_qdeps ref_server ref_qstate ''wal'' (scopeFilters [] ''7'') 0 None = Returns (Inr ss)"
    "\<And>src. src \<in> set ss \<Longrightarrow> \<not> has_marker (sr_Text src)"
    "an_Citations (ExtractiveGenerate ''wal'' ss) \<noteq> []" "an_Text (ExtractiveGenerate ''wal'' ss) = ''The WAL. [doc_1]''"
    by (auto simp: Let_def list_all_iff split: outcome.splits sum.splits)
  have a: "authTenant ref_server (ex_request []) = (''7'', True)" by code_simp
  have r: "read_request (ex_request []) = Some \<lparr>aq_Query = ''wal'', aq_Filters = [], aq_TopK = 0\<rparr>" by code_simp
  have e: "embed_query ref_qdeps ref_server ''wal'' = None" by code_simp
  have "s_llm ref_server = Extractive" "s_faithMin ref_server \<le> 1" by (simp_all add: ref_server_def)
  moreover have "CacheGet (q_redis ref_qdeps) (s_cache ref_server) (qs_rd ref_qstate) k = None" for k
    by (simp add: CacheGet_def ref_qdeps_def ref_server_def ref_qstate_def ref_redis_def)
  ultimately show ?thesis
    using service_extractive_faithful [OF a r refl, of ref_qdeps ref_qstate ss _ 0] ss e by auto
qed

lemma genKey_not_Key: "genKey t \<noteq> Key q fs g"
  by (simp add: genKey_def Key_def)

lemma Generation_after_set:
  assumes "redis_spec api"
  shows "Generation api c (CacheSet api c rd (Key q fs g) v) t = Generation api c rd t"
  using redis_specD(2) [OF assms, of "genKey t" "Key q fs g"] genKey_not_Key [of t q fs g]
  by (simp add: Generation_def CacheSet_def)



text \<open>C40: The semantic cache ignores the filters and \<open>top_k\<close> of a request: two requests of one
  tenant with the same question but different filters that both miss the exact cache get
  the same stored answer as soon as one entry matches the question.\<close>

theorem semantic_hit_ignores_filters:
  assumes "authTenant s r1 = (tenant, True)" "authTenant s r2 = (tenant, True)"
    and "read_request r1 = Some \<lparr>aq_Query = q, aq_Filters = f1, aq_TopK = k1\<rparr>"
    and "read_request r2 = Some \<lparr>aq_Query = q, aq_Filters = f2, aq_TopK = k2\<rparr>"
    and "gen = Generation (q_redis x) (s_cache s) (qs_rd st) tenant"
    and "CacheGet (q_redis x) (s_cache s) (qs_rd st) (Key q (scopeFilters f1 tenant) gen) = None"
    and "CacheGet (q_redis x) (s_cache s) (qs_rd st) (Key q (scopeFilters f2 tenant) gen) = None"
    and "embed_query x s q = Some v"
    and "Lookup (q_semquery x) (s_sem s) (qs_sem st) v tenant gen = (JText (JObj kvs), score, True)"
  shows "handleAsk x s ms r1 st = handleAsk x s ms r2 st \<and>
    fst (handleAsk x s ms r1 st) = Returns (writeJSON [] 200 (JObj
      (AList.update ''semantic_score'' (JFrac score) (AList.update ''semantic'' (JBool True)
        (AList.update ''cached'' (JBool True) kvs)))))"
  using assms by (simp add: handleAsk_def Let_def)


theorem semantic_hit_ignores_filters_witness:
  "fst (handleAsk (ref_qdeps\<lparr>q_http := (\<lambda>r. Reply 200 (JText (JObj [(''vectors'', JArr [JArr [JInt 1]])])))\<rparr>) ref_server 0
      (ex_request [(''filters'', JObj [(''category'', JStr ''x'')])])
      (ref_qstate\<lparr>qs_sem := [\<lparr>se_Vector = [1], se_tenant = ''7'', se_gen = Itoa 0, se_answer = JText (JObj [])\<rparr>]\<rparr>)) =
   Returns (writeJSON [] 200 (JObj [(''cached'', JBool True), (''semantic'', JBool True), (''semantic_score'', JFrac 1)]))"
proof -
  let ?x = "ref_qdeps\<lparr>q_http := (\<lambda>r. Reply 200 (JText (JObj [(''vectors'', JArr [JArr [JInt 1]])])))\<rparr>"
  let ?r1 = "ex_request [(''filters'', JObj [(''category'', JStr ''x'')])]" and ?r2 = "ex_request []"
  let ?st = "ref_qstate\<lparr>qs_sem := [\<lparr>se_Vector = [1], se_tenant = ''7'', se_gen = Itoa 0, se_answer = JText (JObj [])\<rparr>]\<rparr>"
  have a: "authTenant ref_server ?r1 = (''7'', True)" "authTenant ref_server ?r2 = (''7'', True)" by code_simp+
  have r: "read_request ?r1 = Some \<lparr>aq_Query = ''wal'', aq_Filters = [(''category'', ''x'')], aq_TopK = 0\<rparr>"
    "read_request ?r2 = Some \<lparr>aq_Query = ''wal'', aq_Filters = [], aq_TopK = 0\<rparr>" by code_simp+
  have g: "0 = Generation (q_redis ?x) (s_cache ref_server) (qs_rd ?st) ''7''"
    by (simp add: Generation_def ref_qdeps_def ref_redis_def ref_qstate_def)
  have c: "CacheGet (q_redis ?x) (s_cache ref_server) (qs_rd ?st) k = None" for k
    by (simp add: CacheGet_def ref_qdeps_def ref_redis_def ref_qstate_def)
  have e: "embed_query ?x ref_server ''wal'' = Some [1]"
    by (simp add: embed_query_def ref_server_def Embed_def ClientEmbed_def ml_post_def TEIPost_def Unmarshal_def
        dec_embedResp_def dec_struct_def ToLower_def lower_char_def dec_vectors_def dec_slice_def dec_float_def into_def)
  have l: "Lookup (q_semquery ?x) (s_sem ref_server) (qs_sem ?st) [1] ''7'' 0 = (JText (JObj []), 1, True)"
    by (simp add: Lookup_def ref_qdeps_def ref_server_def ref_sem_query_def scope_def entry_matches_def)
  from conjunct2 [OF semantic_hit_ignores_filters [OF a r g c c e l, of 0]] show ?thesis by simp
qed

text \<open>A body that does not decode.\<close>

lemma read_unreadable: "read_request (r\<lparr>rq_Body := NotJSON []\<rparr>) = None"
  by (simp add: read_request_def Unmarshal_def)

lemma authTenant_body: "authTenant s (r\<lparr>rq_Body := b\<rparr>) = authTenant s r"
  by (simp add: authTenant_def)

lemma handleSearch_unreadable:
  "authTenant s r = (tenant, ok) \<Longrightarrow> handleSearch x s ms (r\<lparr>rq_Body := NotJSON []\<rparr>) st =
     (Returns (if ok then writeJSON [] 400 (error_json ''query required'')
       else writeJSON [] 401 (error_json ''unauthorized'')), st)"
  unfolding handleSearch_def authTenant_body read_unreadable by (cases ok) simp_all

lemma handleAsk_unreadable:
  "authTenant s r = (tenant, ok) \<Longrightarrow> handleAsk x s ms (r\<lparr>rq_Body := NotJSON []\<rparr>) st =
     (Returns (if ok then writeJSON [] 400 (error_json ''query required'')
       else writeJSON [] 401 (error_json ''unauthorized'')), st)"
  unfolding handleAsk_def authTenant_body read_unreadable by (cases ok) simp_all

lemma writeJSON_status [simp]: "rs_Status (writeJSON h n v) = n"
  by (simp add: writeJSON_def)

text \<open>C28: At the edge, a request over the rate gets 429 and one whose JSON body does not fit
  into 64 KiB gets 400 (or 401); neither reaches the stores or the caches.\<close>

theorem serve_protects:
  assumes "path = ''/search'' \<or> path = ''/ask''"
    and "\<not> fst (allow rl now (clientKey r)) \<or> rq_BodyBytes r > maxBodyBytes"
  shows "\<exists>resp. serve x s now ms path r (rl, qs) = (Returns resp, snd (allow rl now (clientKey r)), qs) \<and>
    rs_Status resp = (if \<not> fst (allow rl now (clientKey r)) then 429
      else if snd (authTenant s r) then 400 else 401)"
proof -
  obtain ok rl' where a: "allow rl now (clientKey r) = (ok, rl')" by fastforce
  obtain tenant auth where t: "authTenant s r = (tenant, auth)" by fastforce
  have search: "limitBody (handleSearch x s ms) r qs = (Returns (if auth then writeJSON [] 400 (error_json ''query required'')
       else writeJSON [] 401 (error_json ''unauthorized'')), qs)"
    and ask: "limitBody (handleAsk x s ms) r qs = (Returns (if auth then writeJSON [] 400 (error_json ''query required'')
       else writeJSON [] 401 (error_json ''unauthorized'')), qs)" if "rq_BodyBytes r > maxBodyBytes"
    using that by (simp_all add: limitBody_def handleSearch_unreadable [OF t] handleAsk_unreadable [OF t])
  show ?thesis
  proof (cases ok)
    case True
    with assms a have "rq_BodyBytes r > maxBodyBytes" by simp
    note s = search [OF this] and k = ask [OF this]
    from assms(1) show ?thesis
      by (elim disjE) (simp_all add: serve_def middleware_def a t True s k)
  next
    case False
    from assms(1) show ?thesis
      by (elim disjE) (simp_all add: serve_def middleware_def a False)
  qed
qed

theorem serve_protects_witness:
  "\<exists>resp. serve ref_qdeps ref_server 0 0 ''/ask'' (ex_request []\<lparr>rq_BodyBytes := 70000\<rparr>) (newRateLimiter 0 0, ref_qstate) =
     (Returns resp, newRateLimiter 0 0, ref_qstate) \<and> rs_Status resp = 400"
proof -
  have "snd (authTenant ref_server (ex_request []\<lparr>rq_BodyBytes := 70000\<rparr>))"
    by (simp add: authTenant_def ref_server_def ex_request_def TrimSpace_def is_space_def)
  moreover have "allow (newRateLimiter 0 0) n k = (True, newRateLimiter 0 0)" for n k
    by (simp add: allow_def newRateLimiter_def)
  ultimately show ?thesis
    using serve_protects [of "''/ask''" "newRateLimiter 0 0" 0 "ex_request []\<lparr>rq_BodyBytes := 70000\<rparr>" ref_qdeps ref_server 0 ref_qstate]
    by (simp add: maxBodyBytes_def)
qed

end
