(* ===== verification/Asking.thy ===== *)
theory Asking
  imports Query
begin

text \<open>
  Requests run at the same time, with each other and with the indexer. This theory cuts
  \<open>handleAsk\<close> (\<open>cmd/query/main.go\<close>) into its accesses to shared state: the generation and the entry
  of the exact cache in Redis, the lookup in the semantic cache, the two retrieval goroutines, the
  read of the documents, and the two writes. \<open>ask_step\<close> is one of them together with the local
  computation around it; the argument \<open>b\<close> is the scheduler's choice between the two goroutines.
\<close>

subsection \<open>The phases of a request\<close>

text \<open>What the handler has computed when it first looks into the cache.\<close>

record ask_key =
  ak_tenant :: string
  ak_req :: askReq
  ak_filters :: "(string \<times> string) list"
  ak_gen :: int

definition ak_key :: "ask_key \<Rightarrow> string" where
  "ak_key k = Key (aq_Query (ak_req k)) (ak_filters k) (ak_gen k)"

text \<open>
  New; before the exact cache; before the semantic cache; with the results of the two goroutines,
  as far as they are there; with the sources; before the write to the semantic cache; answered.
\<close>

datatype ask_phase =
    AskNew request
  | AskKeyed ask_key
  | AskMissed ask_key
  | AskSearching ask_key "real list option" "string list option" "string list option"
  | AskGenerating ask_key "real list option" "rag_source list"
  | AskStoring ask_key "real list option" "(string \<times> json) list"
  | AskDone "response outcome"

subsection \<open>One access\<close>

definition begin_ask ::
  "('os, 'qd, 'r, 'v) qdeps \<Rightarrow> server \<Rightarrow> request \<Rightarrow> ('os, 'qd, 'r, 'v) qstate \<Rightarrow> ask_phase" where
  "begin_ask x s r st =
     (case authTenant s r of
        (tenant, False) \<Rightarrow> AskDone (Returns (writeJSON [] 401 (error_json ''unauthorized'')))
      | (tenant, True) \<Rightarrow>
          (case read_request r of
             None \<Rightarrow> AskDone (Returns (writeJSON [] 400 (error_json ''query required'')))
           | Some req \<Rightarrow>
               AskKeyed \<lparr>ak_tenant = tenant, ak_req = req, ak_filters = scopeFilters (aq_Filters req) tenant,
                 ak_gen = Generation (q_redis x) (s_cache s) (qs_rd st) tenant\<rparr>))"

definition exact_lookup ::
  "('os, 'qd, 'r, 'v) qdeps \<Rightarrow> server \<Rightarrow> ask_key \<Rightarrow> ('os, 'qd, 'r, 'v) qstate \<Rightarrow>
   ask_phase \<times> ('os, 'qd, 'r, 'v) qstate" where
  "exact_lookup x s k st =
     (case CacheGet (q_redis x) (s_cache s) (qs_rd st) (ak_key k) of
        Some None \<Rightarrow> (AskDone Panics, st\<lparr>qs_metrics := qs_metrics st @ [CacheHits]\<rparr>)
      | Some (Some cached) \<Rightarrow>
          (AskDone (Returns (writeJSON [] 200 (JObj (AList.update ''cached'' (JBool True) cached)))),
           st\<lparr>qs_metrics := qs_metrics st @ [CacheHits]\<rparr>)
      | None \<Rightarrow> (AskMissed k, st\<lparr>qs_metrics := qs_metrics st @ [CacheMisses]\<rparr>))"

definition semantic_lookup ::
  "('os, 'qd, 'r, 'v) qdeps \<Rightarrow> server \<Rightarrow> ask_key \<Rightarrow> ('os, 'qd, 'r, 'v) qstate \<Rightarrow>
   ask_phase \<times> ('os, 'qd, 'r, 'v) qstate" where
  "semantic_lookup x s k st =
     (let qvec = embed_query x s (aq_Query (ak_req k))
      in case (case qvec of None \<Rightarrow> (NotJSON [], 0, False)
               | Some v \<Rightarrow> Lookup (q_semquery x) (s_sem s) (qs_sem st) v (ak_tenant k) (ak_gen k)) of
           (aj, score, False) \<Rightarrow> (AskSearching k qvec None None, st)
         | (aj, score, True) \<Rightarrow>
             (let st2 = st\<lparr>qs_metrics := qs_metrics st @ [CacheHits]\<rparr>
              in case aj of
                   JText (JObj kvs) \<Rightarrow>
                     (AskDone (Returns (writeJSON [] 200 (JObj
                        (AList.update ''semantic_score'' (JFrac score)
                          (AList.update ''semantic'' (JBool True)
                            (AList.update ''cached'' (JBool True) kvs)))))), st2)
                 | JText JNull \<Rightarrow> (AskDone Panics, st2)
                 | _ \<Rightarrow> (AskSearching k qvec None None, st2)))"

definition read_documents ::
  "('os, 'qd, 'r, 'v) qdeps \<Rightarrow> server \<Rightarrow> ask_key \<Rightarrow> real list option \<Rightarrow> string list \<Rightarrow> string list \<Rightarrow>
   ('os, 'qd, 'r, 'v) qstate \<Rightarrow> ask_phase" where
  "read_documents x s k qvec bm25IDs vecIDs st =
     (case assemble x s (qs_os st) (aq_Query (ak_req k)) (aq_TopK (ak_req k)) bm25IDs vecIDs of
        Panics \<Rightarrow> AskDone Panics
      | Returns (Inl e) \<Rightarrow> AskDone (Returns (writeJSON [] 502 (error_json (os_error_text e))))
      | Returns (Inr sources) \<Rightarrow>
          (if sources = [] then
             AskDone (Returns (writeJSON [] 200 (JObj [(''answer'', JStr ''Not found in sources.''),
                (''citations'', JArr []), (''faithfulness'', JFrac 1)])))
           else AskGenerating k qvec sources))"

definition generate_answer ::
  "('os, 'qd, 'r, 'v) qdeps \<Rightarrow> server \<Rightarrow> int \<Rightarrow> ask_key \<Rightarrow> real list option \<Rightarrow> rag_source list \<Rightarrow>
   ('os, 'qd, 'r, 'v) qstate \<Rightarrow> ask_phase \<times> ('os, 'qd, 'r, 'v) qstate" where
  "generate_answer x s ms k qvec sources st =
     (case Generate (q_chat x) (s_llm s) (aq_Query (ak_req k)) sources of
        Inl e \<Rightarrow> (AskDone (Returns (writeJSON [] 200 (JObj [(''answer'', JStr []),
                    (''degraded'', JStr ''llm_unavailable''), (''results'', slice_json source_json sources)]))), st)
      | Inr ans \<Rightarrow>
          (let f = ScoreFaithfulness (q_chat x) (q_parse x) (s_faithMode s) (s_llm s) (an_Text ans) sources;
               resp = ask_body s ms ans f
           in (AskStoring k qvec resp,
               st\<lparr>qs_metrics := qs_metrics st @ [RagFaithfulness (fr_Score f)],
                  qs_rd := CacheSet (q_redis x) (s_cache s) (qs_rd st) (ak_key k) resp\<rparr>)))"

definition store_semantic ::
  "('os, 'qd, 'r, 'v) qdeps \<Rightarrow> server \<Rightarrow> ask_key \<Rightarrow> real list option \<Rightarrow> (string \<times> json) list \<Rightarrow>
   ('os, 'qd, 'r, 'v) qstate \<Rightarrow> ('os, 'qd, 'r, 'v) qstate" where
  "store_semantic x s k qvec resp st =
     (case qvec of None \<Rightarrow> st
      | Some v \<Rightarrow> st\<lparr>qs_sem := Store (q_semupsert x) (s_sem s) (qs_sem st) v (ak_tenant k) (ak_gen k)
                                (JText (JObj resp))\<rparr>)"

fun ask_step ::
  "('os, 'qd, 'r, 'v) qdeps \<Rightarrow> server \<Rightarrow> int \<Rightarrow> bool \<Rightarrow> ask_phase \<times> ('os, 'qd, 'r, 'v) qstate \<Rightarrow>
   ask_phase \<times> ('os, 'qd, 'r, 'v) qstate" where
  "ask_step x s ms b (AskNew r, st) = (begin_ask x s r st, st)"
| "ask_step x s ms b (AskKeyed k, st) = exact_lookup x s k st"
| "ask_step x s ms b (AskMissed k, st) = semantic_lookup x s k st"
| "ask_step x s ms b (AskSearching k qvec (Some bm) (Some vec), st) = (read_documents x s k qvec bm vec st, st)"
| "ask_step x s ms b (AskSearching k qvec bm vec, st) =
     (if vec = None \<and> (bm \<noteq> None \<or> b) then
        (AskSearching k qvec bm (Some (vector_lane x s (qs_qd st) (aq_Query (ak_req k)) (ak_filters k) qvec)), st)
      else (AskSearching k qvec (Some (bm25_lane x s (qs_os st) (aq_Query (ak_req k)) (ak_filters k))) vec, st))"
| "ask_step x s ms b (AskGenerating k qvec sources, st) = generate_answer x s ms k qvec sources st"
| "ask_step x s ms b (AskStoring k qvec resp, st) =
     (AskDone (Returns (writeJSON [] 200 (JObj resp))), store_semantic x s k qvec resp st)"
| "ask_step x s ms b (AskDone out, st) = (AskDone out, st)"

fun ask_steps ::
  "('os, 'qd, 'r, 'v) qdeps \<Rightarrow> server \<Rightarrow> int \<Rightarrow> bool list \<Rightarrow> ask_phase \<times> ('os, 'qd, 'r, 'v) qstate \<Rightarrow>
   ask_phase \<times> ('os, 'qd, 'r, 'v) qstate" where
  "ask_steps x s ms [] a = a"
| "ask_steps x s ms (b # bs) a = ask_steps x s ms bs (ask_step x s ms b a)"

subsection \<open>Lemmas\<close>

lemma ask_steps_done [simp]: "ask_steps x s ms bs (AskDone out, st) = (AskDone out, st)"
  by (induction bs) simp_all

text \<open>The result of a handler, as a phase and a state.\<close>

definition done_of :: "response outcome \<times> 'a \<Rightarrow> ask_phase \<times> 'a" where
  "done_of p = (AskDone (fst p), snd p)"

lemma three_steps:
  assumes "n + 3 \<le> length bs"
  obtains b1 b2 b3 bs' where "bs = b1 # b2 # b3 # bs'" "n \<le> length bs'"
proof -
  have "Suc (Suc (Suc n)) \<le> length bs" using assms by simp
  then show ?thesis using that by (auto simp: Suc_le_length_iff)
qed

lemma storing_alone:
  assumes "1 \<le> length bs"
  shows "ask_steps x s ms bs (AskStoring k qvec resp, st) =
    (AskDone (Returns (writeJSON [] 200 (JObj resp))), store_semantic x s k qvec resp st)"
  using assms by (cases bs) simp_all

lemma generating_alone:
  assumes "2 \<le> length bs"
  shows "ask_steps x s ms bs (AskGenerating k qvec sources, st) =
    (case ask_generate x s ms (aq_Query (ak_req k)) (ak_tenant k) (ak_gen k) (ak_key k) qvec sources st of
       (resp, st') \<Rightarrow> (AskDone (Returns resp), st'))"
proof -
  obtain b bs' where bs: "bs = b # bs'" "1 \<le> length bs'" using assms by (cases bs) auto
  show ?thesis
    using storing_alone [OF bs(2), of x s ms k qvec] bs(1)
    by (cases "Generate (q_chat x) (s_llm s) (aq_Query (ak_req k)) sources")
      (simp_all add: generate_answer_def ask_generate_def store_semantic_def Let_def split: option.splits)
qed

lemma searching_alone:
  assumes "5 \<le> length bs"
  shows "ask_steps x s ms bs (AskSearching k qvec None None, st) =
    done_of (ask_miss x s ms (ak_req k) (ak_filters k) (ak_tenant k) (ak_gen k) (ak_key k) qvec st)"
proof -
  obtain b1 b2 b3 bs' where bs: "bs = b1 # b2 # b3 # bs'" "2 \<le> length bs'"
    by (rule three_steps [of 2 bs]) (use assms in simp_all)
  let ?bm = "bm25_lane x s (qs_os st) (aq_Query (ak_req k)) (ak_filters k)"
  let ?vec = "vector_lane x s (qs_qd st) (aq_Query (ak_req k)) (ak_filters k) qvec"
  have "ask_steps x s ms bs (AskSearching k qvec None None, st) =
      ask_steps x s ms bs' (read_documents x s k qvec ?bm ?vec st, st)"
    using bs(1) by (cases b1) simp_all
  also have "\<dots> = done_of (ask_miss x s ms (ak_req k) (ak_filters k) (ak_tenant k) (ak_gen k) (ak_key k) qvec st)"
    using generating_alone [OF bs(2), of x s ms k qvec]
    by (simp add: read_documents_def ask_miss_def retrieve_assemble done_of_def split: outcome.splits sum.splits prod.splits)
  finally show ?thesis .
qed

lemma handle_ask_alone:
  assumes "8 \<le> length bs"
  shows "ask_steps x s ms bs (AskNew r, st) = done_of (handleAsk x s ms r st)"
proof -
  obtain b1 b2 b3 bs' where bs: "bs = b1 # b2 # b3 # bs'" "5 \<le> length bs'"
    by (rule three_steps [of 5 bs]) (use assms in simp_all)
  note miss = searching_alone [OF bs(2), of x s ms]
  obtain tenant ok where a: "authTenant s r = (tenant, ok)" by fastforce
  show ?thesis
  proof (cases "ok \<and> read_request r \<noteq> None")
    case False
    then show ?thesis using a bs(1)
      by (cases ok) (auto simp: begin_ask_def handleAsk_def done_of_def)
  next
    case True
    then obtain req where r: "read_request r = Some req" and ok by blast
    let ?k = "\<lparr>ak_tenant = tenant, ak_req = req, ak_filters = scopeFilters (aq_Filters req) tenant,
       ak_gen = Generation (q_redis x) (s_cache s) (qs_rd st) tenant\<rparr>"
    let ?st1 = "st\<lparr>qs_metrics := qs_metrics st @ [CacheMisses]\<rparr>"
    have b: "begin_ask x s r st = AskKeyed ?k" using a r \<open>ok\<close> by (simp add: begin_ask_def)
    have "ask_steps x s ms bs (AskNew r, st) = ask_steps x s ms (b3 # bs') (exact_lookup x s ?k st)"
      using bs(1) b by simp
    also have "\<dots> = done_of (handleAsk x s ms r st)"
      using a r \<open>ok\<close> miss [of ?k]
      by (simp add: exact_lookup_def semantic_lookup_def handleAsk_def ak_key_def Let_def done_of_def
          split: option.splits prod.splits bool.splits raw.splits json.splits)
    finally show ?thesis .
  qed
qed

text \<open>
  The counters of a valid request: an exact hit is one hit; otherwise there is a miss, which a
  semantic hit counts as a hit too, and a score if an answer was generated.
\<close>

lemma ask_counters:
  assumes "authTenant s r = (tenant, True)" "read_request r = Some req"
    and "gen = Generation (q_redis x) (s_cache s) (qs_rd st) tenant"
    and "exact = CacheGet (q_redis x) (s_cache s) (qs_rd st) (Key (aq_Query req) (scopeFilters (aq_Filters req) tenant) gen)"
    and "semantic = (case embed_query x s (aq_Query req) of None \<Rightarrow> False
       | Some v \<Rightarrow> snd (snd (Lookup (q_semquery x) (s_sem s) (qs_sem st) v tenant gen)))"
  shows "\<exists>scores. qs_metrics (snd (handleAsk x s ms r st)) = qs_metrics st @
    (if exact \<noteq> None then [CacheHits] else [CacheMisses] @ (if semantic then [CacheHits] else []) @ map RagFaithfulness scores)"
proof -
  have miss: "\<exists>scores. qs_metrics (snd (ask_miss x s ms req fs tenant gen key qvec st')) = qs_metrics st' @ map RagFaithfulness scores"
    for fs key qvec st'
    by (auto simp: ask_miss_def ask_generate_def Let_def split: outcome.splits sum.splits option.splits
        intro: exI [of _ "[]"] exI [of _ "[_]"])
  obtain aj score where look: "(case embed_query x s (aq_Query req) of None \<Rightarrow> (NotJSON [], 0, False)
     | Some v \<Rightarrow> Lookup (q_semquery x) (s_sem s) (qs_sem st) v tenant gen) = (aj, score, semantic)"
    using assms(5) by (cases "case embed_query x s (aq_Query req) of None \<Rightarrow> (NotJSON [], 0, False)
     | Some v \<Rightarrow> Lookup (q_semquery x) (s_sem s) (qs_sem st) v tenant gen") (auto split: option.splits)
  show ?thesis
  proof (cases exact)
    case None
    have "qs_metrics (snd (handleAsk x s ms r st)) = qs_metrics st @ [CacheMisses] @ (if semantic then [CacheHits] else []) \<or>
        (\<exists>st' fs key qvec. handleAsk x s ms r st = ask_miss x s ms req fs tenant gen key qvec st' \<and>
           qs_metrics st' = qs_metrics st @ [CacheMisses] @ (if semantic then [CacheHits] else []))"
    proof (cases "embed_query x s (aq_Query req)")
      case no: None
      then have "\<not> semantic" using look by simp
      then show ?thesis using assms(1,2) None no unfolding handleAsk_def Let_def by (simp flip: assms(3,4)) fastforce
    next
      case (Some v)
      then show ?thesis using assms(1,2) None look unfolding handleAsk_def Let_def
        by (cases semantic) (simp_all flip: assms(3,4) split: raw.splits json.splits, fastforce+)
    qed
    then show ?thesis
    proof (elim disjE exE conjE)
      assume "qs_metrics (snd (handleAsk x s ms r st)) = qs_metrics st @ [CacheMisses] @ (if semantic then [CacheHits] else [])"
      then show ?thesis using None by (intro exI [of _ "[]"]) simp
    next
      fix st' fs key qvec assume "handleAsk x s ms r st = ask_miss x s ms req fs tenant gen key qvec st'"
        and "qs_metrics st' = qs_metrics st @ [CacheMisses] @ (if semantic then [CacheHits] else [])"
      then show ?thesis using miss [of fs key qvec st'] None by auto
    qed
  next
    case (Some c)
    then show ?thesis using assms(1,2) unfolding handleAsk_def Let_def
      by (auto simp flip: assms(3,4) split: option.splits)
  qed
qed

subsection \<open>Properties\<close>

text \<open>
  C17: cutting \<open>handleAsk\<close> into its accesses to shared state is faithful: whatever order its two
  retrieval goroutines run in, a request that is not interleaved with others is answered after
  at most eight accesses, with the response and the state of the handler.
\<close>

theorem ask_steps_alone:
  assumes "8 \<le> length bs"
  shows "ask_steps x s ms bs (AskNew r, st) = (AskDone (fst (handleAsk x s ms r st)), snd (handleAsk x s ms r st))"
  using handle_ask_alone [OF assms] by (simp add: done_of_def)

theorem ask_steps_alone_witness:
  "fst (ask_steps (ref_qdeps\<lparr>q_search := (\<lambda>c q fs n. Inr [])\<rparr>) ref_server 0
      [True, False, True, False, True, False, True, False] (AskNew (ex_request []), ref_qstate)) =
    AskDone (Returns (writeJSON [] 200 (JObj [(''answer'', JStr ''Not found in sources.''), (''citations'', JArr []),
      (''faithfulness'', JFrac 1)])))"
proof -
  let ?x = "ref_qdeps\<lparr>q_search := (\<lambda>c q fs n. Inr [])\<rparr>" and ?r = "ex_request []"
  have a: "authTenant ref_server ?r = (''7'', True)"
    and r: "read_request ?r = Some \<lparr>aq_Query = ''wal'', aq_Filters = [], aq_TopK = 0\<rparr>" by code_simp+
  have c: "CacheGet (q_redis ref_qdeps) (s_cache ref_server) (qs_rd ref_qstate) (Key q fs g) = None" for q fs g
    by (simp add: CacheGet_def ref_qdeps_def ref_redis_def ref_qstate_def)
  have e: "embed_query ?x ref_server q = None" for q by (rule embed_query_down [of _ "''down''"]) (simp add: ref_qdeps_def)
  have "RRF [[], []] k = []" for k using fused_ids [of "[]" "[]" k] by simp
  then have "retrieve ?x ref_server st ''wal'' fs 0 None = Returns (Inr [])" for st fs
    by (simp add: retrieve_assemble assemble_def bm25_lane_def OsSearch_def vector_lane_def e)
  then have "fst (handleAsk ?x ref_server 0 ?r ref_qstate) = Returns (writeJSON [] 200 (JObj [(''answer'', JStr ''Not found in sources.''),
      (''citations'', JArr []), (''faithfulness'', JFrac 1)]))"
    by (simp add: handleAsk_def Let_def a r c e ask_miss_def)
  then show ?thesis
    using ask_steps_alone [of "[True, False, True, False, True, False, True, False]" ?x ref_server 0 ?r ref_qstate] by simp
qed

end
