(* ===== verification/Freshness.thy ===== *)
theory Freshness
  imports Races Asking
begin

text \<open>
  Writers and readers together: any number of indexing goroutines (\<open>Interleave\<close>), any number of
  requests to \<open>/ask\<close> (\<open>Asking\<close>), and the expiry of cached answers, interleaved access by access over
  the same OpenSearch, Qdrant, Redis and semantic cache. The question is what a cached answer may
  miss. The comments of \<open>internal/cache/cache.go\<close> and \<open>cmd/query/main.go\<close> call the caching freshness-safe,
  because \<open>apply\<close> bumps the generation of a tenant after its writes and a request reads the
  generation before anything else.
\<close>

subsection \<open>The composed system\<close>

text \<open>
  A request being served. For the specification it carries what was known when it read its
  generation (\<open>ah_known\<close>, the documents whose bump had happened) and the contents of OpenSearch at
  each of its reads.
\<close>

record ask =
  ah_request :: request
  ah_phase :: ask_phase
  ah_known :: "canonical_doc list"
  ah_reads :: "vstore list"

text \<open>A generated answer that was stored, with the contents of OpenSearch and the sources it
  was computed from.\<close>

record stored_answer =
  rc_key :: ask_key
  rc_body :: "(string \<times> json) list"
  rc_reads :: "vstore list"
  rc_sources :: "rag_source list"

text \<open>
  The shared state is that of the goroutines and the semantic cache. For the specification:
  the documents of every batch whose \<open>apply\<close> has bumped the generation of their tenant, with the
  new generation; the keys requests looked up; the answers stored.
\<close>

record ('os, 'qd, 'r, 'v) system =
  sy_conc :: "('os, 'qd, 'r) conc"
  sy_sem :: 'v
  sy_metrics :: "metric list"
  sy_asks :: "ask list"
  sy_covered :: "(canonical_doc \<times> int) list"
  sy_keys :: "ask_key list"
  sy_log :: "stored_answer list"

definition query_view :: "('os, 'qd, 'r, 'v) system \<Rightarrow> ('os, 'qd, 'r, 'v) qstate" where
  "query_view y =
     (let w = cc_world (sy_conc y)
      in \<lparr>qs_os = w_os w, qs_qd = w_qd w, qs_rd = w_rd w, qs_sem = sy_sem y, qs_metrics = sy_metrics y\<rparr>)"

definition set_redis :: "'r \<Rightarrow> ('os, 'qd, 'r) conc \<Rightarrow> ('os, 'qd, 'r) conc" where
  "set_redis rd c = c\<lparr>cc_world := (cc_world c)\<lparr>w_rd := rd\<rparr>\<rparr>"

text \<open>The documents an action covers: those of the batch for the tenant whose generation it bumps.\<close>

definition covers ::
  "'r redis \<Rightarrow> cache \<Rightarrow> ('os, 'qd, 'r) conc \<Rightarrow> event \<Rightarrow> ('os, 'qd, 'r) conc \<Rightarrow> (canonical_doc \<times> int) list" where
  "covers api c before ev after =
     (case ev of
        Advance i \<Rightarrow>
          (case th_phase (cc_threads before ! i) of
             Bumping (t # ts) \<Rightarrow>
               map (\<lambda>d. (d, Generation api c (w_rd (cc_world after)) t))
                 (filter (\<lambda>d. Itoa (TenantID d) = t) (th_docs (cc_threads before ! i)))
           | _ \<Rightarrow> [])
      | _ \<Rightarrow> [])"

definition indexed ::
  "'r redis \<Rightarrow> cache \<Rightarrow> event \<Rightarrow> ('os, 'qd, 'r) conc \<Rightarrow> ('os, 'qd, 'r, 'v) system \<Rightarrow> ('os, 'qd, 'r, 'v) system" where
  "indexed api c ev after y =
     y\<lparr>sy_conc := after, sy_covered := sy_covered y @ covers api c (sy_conc y) ev after\<rparr>"

definition asked :: "request \<Rightarrow> ('os, 'qd, 'r, 'v) system \<Rightarrow> ('os, 'qd, 'r, 'v) system" where
  "asked r y = y\<lparr>sy_asks := sy_asks y @ [\<lparr>ah_request = r, ah_phase = AskNew r, ah_known = [], ah_reads = []\<rparr>]\<rparr>"

definition answer_step ::
  "('os \<Rightarrow> vstore) \<Rightarrow> ('os, 'qd, 'r, 'v) qdeps \<Rightarrow> server \<Rightarrow> int \<Rightarrow> bool \<Rightarrow> nat \<Rightarrow>
   ('os, 'qd, 'r, 'v) system \<Rightarrow> ('os, 'qd, 'r, 'v) system" where
  "answer_step vos z s ms b j y =
     (let h = sy_asks y ! j; (p, st) = ask_step z s ms b (ah_phase h, query_view y)
      in y\<lparr>sy_conc := set_redis (qs_rd st) (sy_conc y), sy_sem := qs_sem st, sy_metrics := qs_metrics st,
           sy_asks := (sy_asks y)[j := h\<lparr>ah_phase := p,
             ah_known := (case ah_phase h of AskNew r \<Rightarrow> map fst (sy_covered y) | _ \<Rightarrow> ah_known h),
             ah_reads := ah_reads h @ (case ah_phase h of
               AskSearching k qvec bm vec \<Rightarrow> [vos (w_os (cc_world (sy_conc y)))] | _ \<Rightarrow> [])\<rparr>],
           sy_keys := sy_keys y @ (case p of AskKeyed k \<Rightarrow> [k] | _ \<Rightarrow> []),
           sy_log := sy_log y @ (case p of
             AskStoring k qvec resp \<Rightarrow> [\<lparr>rc_key = k, rc_body = resp, rc_reads = ah_reads h,
               rc_sources = (case ah_phase h of AskGenerating k qvec sources \<Rightarrow> sources | _ \<Rightarrow> [])\<rparr>] | _ \<Rightarrow> [])\<rparr>)"

text \<open>The services: OpenSearch as in \<open>cluster_ok\<close>, one Redis that answers, the semantic store.\<close>

definition writer_ok ::
  "('os \<Rightarrow> vstore) \<Rightarrow> ('qd \<Rightarrow> string \<rightharpoonup> point) \<Rightarrow> 'r redis \<Rightarrow> cache \<Rightarrow> ('os, 'qd, 'r) deps \<Rightarrow> bool" where
  "writer_ok vos vqd api c x \<longleftrightarrow> cluster_ok vos vqd x \<and> d_redis x = api \<and> d_cache x = c"

definition reader_ok ::
  "'r redis \<Rightarrow> ('v \<Rightarrow> sem_entry list) \<Rightarrow> (real list \<Rightarrow> real list \<Rightarrow> real) \<Rightarrow> ('os, 'qd, 'r, 'v) qdeps \<Rightarrow> bool" where
  "reader_ok api view sim z \<longleftrightarrow> q_redis z = api \<and> sem_spec (q_semquery z) (q_semupsert z) view sim"

text \<open>
  A step: an action of an indexing goroutine whose services meet \<open>wo\<close>, a new request, an access of a
  request whose services meet \<open>ro\<close>, or cached answers expiring.
\<close>

inductive sys_step ::
  "('os \<Rightarrow> vstore) \<Rightarrow> (('os, 'qd, 'r) deps \<Rightarrow> bool) \<Rightarrow> (('os, 'qd, 'r, 'v) qdeps \<Rightarrow> bool) \<Rightarrow> 'r redis \<Rightarrow> cache \<Rightarrow>
   server \<Rightarrow> ('os, 'qd, 'r, 'v) system \<Rightarrow> ('os, 'qd, 'r, 'v) system \<Rightarrow> bool"
  for vos wo ro api c s where
  Indexed: "conc_step wo (sy_conc y) ev after \<Longrightarrow>
     sys_step vos wo ro api c s y (indexed api c ev after y)"
| Asked: "sys_step vos wo ro api c s y (asked r y)"
| Answered: "ro z \<Longrightarrow> j < length (sy_asks y) \<Longrightarrow>
     sys_step vos wo ro api c s y (answer_step vos z s ms b j y)"
| Expired: "(\<And>k. r_get api rd k = r_get api (w_rd (cc_world (sy_conc y))) k \<or> (r_get api rd k = None \<and> k \<notin> range genKey)) \<Longrightarrow>
     sys_step vos wo ro api c s y (y\<lparr>sy_conc := set_redis rd (sy_conc y)\<rparr>)"

inductive sys_run ::
  "('os \<Rightarrow> vstore) \<Rightarrow> (('os, 'qd, 'r) deps \<Rightarrow> bool) \<Rightarrow> (('os, 'qd, 'r, 'v) qdeps \<Rightarrow> bool) \<Rightarrow> 'r redis \<Rightarrow> cache \<Rightarrow>
   server \<Rightarrow> ('os, 'qd, 'r, 'v) system \<Rightarrow> nat \<Rightarrow> ('os, 'qd, 'r, 'v) system \<Rightarrow> bool"
  for vos wo ro api c s y where
  SysStart: "sys_run vos wo ro api c s y 0 y"
| SysStep: "sys_run vos wo ro api c s y n u \<Longrightarrow> sys_step vos wo ro api c s u v \<Longrightarrow>
     sys_run vos wo ro api c s y (Suc n) v"

definition sys_init :: "nat \<Rightarrow> ('os, 'qd, 'r) world \<Rightarrow> 'v \<Rightarrow> ('os, 'qd, 'r, 'v) system" where
  "sys_init n w v = \<lparr>sy_conc = conc_init n w, sy_sem = v, sy_metrics = [], sy_asks = [], sy_covered = [],
     sy_keys = [], sy_log = []\<rparr>"

subsection \<open>Specification\<close>

text \<open>Caches without answers.\<close>

definition no_answers :: "'r redis \<Rightarrow> 'r \<Rightarrow> bool" where
  "no_answers api rd \<longleftrightarrow> (\<forall>k j. r_get api rd k \<noteq> Some (Stored j))"

text \<open>
  The requests looked up do not contain the separators of the key text, and SHA-1 does not confuse
  the key texts that occur.
\<close>

definition key_text :: "ask_key \<Rightarrow> string" where
  "key_text k = key_material (aq_Query (ak_req k)) (ak_filters k) (ak_gen k)"

definition no_collision :: "ask_key list \<Rightarrow> bool" where
  "no_collision ks \<longleftrightarrow> inj_on sha1_hex (key_text ` set ks) \<and>
     (\<forall>k \<in> set ks. clean_request (aq_Query (ak_req k)) (ak_filters k))"

text \<open>
  A reply that was taken from a stored answer, from the exact or from the semantic cache; a reply
  that gives an answer, its own or one of these (no other reply carries the mark of the
  caches or the name of a model).
\<close>

definition served_from :: "stored_answer \<Rightarrow> (string \<times> json) list \<Rightarrow> bool" where
  "served_from a kvs \<longleftrightarrow>
     kvs = AList.update ''cached'' (JBool True) (rc_body a) \<or>
     (\<exists>score. kvs = AList.update ''semantic_score'' (JFrac score) (AList.update ''semantic'' (JBool True)
        (AList.update ''cached'' (JBool True) (rc_body a))))"

definition gives_answer :: "(string \<times> json) list \<Rightarrow> bool" where
  "gives_answer kvs \<longleftrightarrow> map_of kvs ''cached'' = Some (JBool True) \<or> map_of kvs ''model'' \<noteq> None"

definition answers_with :: "stored_answer \<Rightarrow> (string \<times> json) list \<Rightarrow> bool" where
  "answers_with a kvs \<longleftrightarrow> kvs = rc_body a \<or> served_from a kvs"

definition knows :: "vstore list \<Rightarrow> canonical_doc \<Rightarrow> bool" where
  "knows ms d \<longleftrightarrow> (\<forall>m \<in> set ms. superseded m d)"

subsection \<open>The invariant\<close>

definition phase_key :: "ask_phase \<Rightarrow> ask_key option" where
  "phase_key p =
     (case p of
        AskNew r \<Rightarrow> None
      | AskKeyed k \<Rightarrow> Some k
      | AskMissed k \<Rightarrow> Some k
      | AskSearching k qvec bm vec \<Rightarrow> Some k
      | AskGenerating k qvec sources \<Rightarrow> Some k
      | AskStoring k qvec resp \<Rightarrow> Some k
      | AskDone out \<Rightarrow> None)"

text \<open>What was read under a generation knows every document covered up to that generation.\<close>

definition reads_ok :: "(canonical_doc \<times> int) list \<Rightarrow> string \<Rightarrow> int \<Rightarrow> vstore list \<Rightarrow> bool" where
  "reads_ok cov t g ms \<longleftrightarrow> (\<forall>(d, g') \<in> set cov. Itoa (TenantID d) = t \<and> g' \<le> g \<longrightarrow> knows ms d)"

definition key_inv :: "server \<Rightarrow> ask_key list \<Rightarrow> (canonical_doc \<times> int) list \<Rightarrow> string \<Rightarrow> int \<Rightarrow> ask \<Rightarrow> ask_key \<Rightarrow> bool" where
  "key_inv s ks cov t n h k \<longleftrightarrow>
     k \<in> set ks \<and> authTenant s (ah_request h) = (ak_tenant k, True) \<and>
     (ak_tenant k = t \<longrightarrow> ak_gen k \<le> n \<and> reads_ok cov t (ak_gen k) (ah_reads h) \<and>
        (\<forall>d \<in> set (ah_known h). Itoa (TenantID d) = t \<longrightarrow> (\<exists>g \<le> ak_gen k. (d, g) \<in> set cov)))"

definition fresh_reply :: "server \<Rightarrow> stored_answer list \<Rightarrow> string \<Rightarrow> ask \<Rightarrow> response \<Rightarrow> bool" where
  "fresh_reply s lg t h resp \<longleftrightarrow>
     (\<forall>kvs. authTenant s (ah_request h) = (t, True) \<and> rs_Body resp = JObj kvs \<and> gives_answer kvs \<longrightarrow>
        (\<exists>a \<in> set lg. answers_with a kvs \<and> ak_tenant (rc_key a) = t \<and>
           (\<forall>d \<in> set (ah_known h). Itoa (TenantID d) = t \<longrightarrow> knows (rc_reads a) d)))"

definition ask_inv ::
  "server \<Rightarrow> ask_key list \<Rightarrow> stored_answer list \<Rightarrow> (canonical_doc \<times> int) list \<Rightarrow> string \<Rightarrow> int \<Rightarrow> ask \<Rightarrow> bool" where
  "ask_inv s ks lg cov t n h \<longleftrightarrow>
     (\<forall>k. phase_key (ah_phase h) = Some k \<longrightarrow> key_inv s ks cov t n h k) \<and>
     (\<forall>r. ah_phase h = AskNew r \<longrightarrow> r = ah_request h \<and> ah_reads h = []) \<and>
     (\<forall>k qvec resp. ah_phase h = AskStoring k qvec resp \<longrightarrow> (\<exists>a \<in> set lg. rc_key a = k \<and> rc_body a = resp)) \<and>
     (\<forall>resp. ah_phase h = AskDone (Returns resp) \<longrightarrow> fresh_reply s lg t h resp)"

definition keys_inv :: "ask_key list \<Rightarrow> bool" where
  "keys_inv ks \<longleftrightarrow> (\<forall>k \<in> set ks. ak_tenant k \<noteq> [] \<and> map_of (ak_filters k) ''tenant_id'' = Some (ak_tenant k))"

definition log_inv :: "ask_key list \<Rightarrow> (canonical_doc \<times> int) list \<Rightarrow> string \<Rightarrow> int \<Rightarrow> stored_answer list \<Rightarrow> bool" where
  "log_inv ks cov t n lg \<longleftrightarrow>
     (\<forall>a \<in> set lg. rc_key a \<in> set ks \<and> (ak_tenant (rc_key a) = t \<longrightarrow>
        ak_gen (rc_key a) \<le> n \<and> reads_ok cov t (ak_gen (rc_key a)) (rc_reads a)))"

definition redis_inv :: "'r redis \<Rightarrow> stored_answer list \<Rightarrow> 'r \<Rightarrow> bool" where
  "redis_inv api lg rd \<longleftrightarrow>
     (\<forall>q fs g kvs. r_get api rd (Key q fs g) = Some (Stored (JObj kvs)) \<longrightarrow>
        (\<exists>a \<in> set lg. ak_key (rc_key a) = Key q fs g \<and> rc_body a = kvs))"

definition sem_inv :: "stored_answer list \<Rightarrow> sem_entry list \<Rightarrow> bool" where
  "sem_inv lg es \<longleftrightarrow>
     (\<forall>e \<in> set es. \<exists>a \<in> set lg. se_tenant e = ak_tenant (rc_key a) \<and> se_gen e = Itoa (ak_gen (rc_key a)) \<and>
        se_answer e = JText (JObj (rc_body a)))"

definition cover_inv :: "(canonical_doc \<times> int) list \<Rightarrow> string \<Rightarrow> int \<Rightarrow> vstore \<Rightarrow> bool" where
  "cover_inv cov t n m \<longleftrightarrow> (\<forall>(d, g) \<in> set cov. superseded m d \<and> (Itoa (TenantID d) = t \<longrightarrow> g \<le> n))"

definition sys_inv ::
  "('os \<Rightarrow> vstore) \<Rightarrow> vstore \<Rightarrow> 'r redis \<Rightarrow> ('v \<Rightarrow> sem_entry list) \<Rightarrow> server \<Rightarrow> string \<Rightarrow> int \<Rightarrow>
   ('os, 'qd, 'r, 'v) system \<Rightarrow> bool" where
  "sys_inv vos m0 api view s t n y \<longleftrightarrow>
     (let w = cc_world (sy_conc y)
      in conc_inv vos m0 (sy_conc y) \<and>
         counter_value (r_get api (w_rd w) (genKey t)) = Some n \<and>
         cover_inv (sy_covered y) t n (vos (w_os w)) \<and>
         (\<forall>h \<in> set (sy_asks y). ask_inv s (sy_keys y) (sy_log y) (sy_covered y) t n h) \<and>
         keys_inv (sy_keys y) \<and> log_inv (sy_keys y) (sy_covered y) t n (sy_log y) \<and>
         redis_inv api (sy_log y) (w_rd w) \<and> sem_inv (sy_log y) (view (sy_sem y)))"

subsection \<open>Lemmas: the parts of the invariant grow\<close>

lemma reads_ok_cover:
  assumes "reads_ok cov t g ms" "g \<le> n" "\<forall>(d, g') \<in> set cov'. Itoa (TenantID d) = t \<longrightarrow> n < g'"
  shows "reads_ok (cov @ cov') t g ms"
  using assms unfolding reads_ok_def by fastforce

lemma key_inv_cover:
  assumes "key_inv s ks cov t n h k" "n \<le> n'" "\<forall>(d, g) \<in> set cov'. Itoa (TenantID d) = t \<longrightarrow> n < g"
  shows "key_inv s ks (cov @ cov') t n' h k"
  using assms reads_ok_cover [of cov t "ak_gen k" "ah_reads h" n cov'] unfolding key_inv_def by fastforce

lemma ask_inv_cover:
  assumes "ask_inv s ks lg cov t n h" "n \<le> n'" "\<forall>(d, g) \<in> set cov'. Itoa (TenantID d) = t \<longrightarrow> n < g"
  shows "ask_inv s ks lg (cov @ cov') t n' h"
  using assms(1) key_inv_cover [OF _ assms(2,3)] unfolding ask_inv_def by blast

lemma log_inv_cover:
  assumes "log_inv ks cov t n lg" "n \<le> n'" "\<forall>(d, g) \<in> set cov'. Itoa (TenantID d) = t \<longrightarrow> n < g"
  shows "log_inv ks (cov @ cov') t n' lg"
  using assms(1,2) reads_ok_cover [OF _ _ assms(3)] unfolding log_inv_def by fastforce

lemma key_inv_keys: "key_inv s ks cov t n h k \<Longrightarrow> set ks \<subseteq> set ks' \<Longrightarrow> key_inv s ks' cov t n h k"
  unfolding key_inv_def by blast

lemma log_inv_keys: "log_inv ks cov t n lg \<Longrightarrow> set ks \<subseteq> set ks' \<Longrightarrow> log_inv ks' cov t n lg"
  unfolding log_inv_def by blast

lemma fresh_reply_log: "fresh_reply s lg t h resp \<Longrightarrow> set lg \<subseteq> set lg' \<Longrightarrow> fresh_reply s lg' t h resp"
  unfolding fresh_reply_def by blast

lemma ask_inv_grows:
  assumes "ask_inv s ks lg cov t n h" "set ks \<subseteq> set ks'" "set lg \<subseteq> set lg'"
  shows "ask_inv s ks' lg' cov t n h"
  unfolding ask_inv_def
proof (intro conjI allI impI)
  note I = assms(1) [unfolded ask_inv_def]
  show "key_inv s ks' cov t n h k" if "phase_key (ah_phase h) = Some k" for k
    using I that key_inv_keys [OF _ assms(2)] by blast
  show "r = ah_request h" "ah_reads h = []" if "ah_phase h = AskNew r" for r using I that by blast+
  show "\<exists>a \<in> set lg'. rc_key a = k \<and> rc_body a = resp"
    if "ah_phase h = AskStoring k qvec resp" for k qvec resp using I that assms(3) by blast+
  show "fresh_reply s lg' t h resp" if "ah_phase h = AskDone (Returns resp)" for resp
    using I that fresh_reply_log [OF _ assms(3)] by blast
qed

lemma redis_inv_log: "redis_inv api lg rd \<Longrightarrow> set lg \<subseteq> set lg' \<Longrightarrow> redis_inv api lg' rd"
  unfolding redis_inv_def by blast

lemma sem_inv_log: "sem_inv lg es \<Longrightarrow> set lg \<subseteq> set lg' \<Longrightarrow> set es' \<subseteq> set es \<Longrightarrow> sem_inv lg' es'"
  unfolding sem_inv_def by blast

subsection \<open>Lemmas: the indexing goroutines\<close>

lemma conc_inv_redis [simp]: "conc_inv vos m0 (set_redis rd c) = conc_inv vos m0 c"
  by (simp add: conc_inv_def set_redis_def)

lemma set_redis_simps [simp]:
  "w_rd (cc_world (set_redis rd c)) = rd" "w_os (cc_world (set_redis rd c)) = w_os (cc_world c)"
  "w_qd (cc_world (set_redis rd c)) = w_qd (cc_world c)"
  by (simp_all add: set_redis_def)

lemma conc_step_mono: "conc_step ok s ev t \<Longrightarrow> (\<And>x. ok x \<Longrightarrow> ok' x) \<Longrightarrow> conc_step ok' s ev t"
  by (erule conc_step.cases) (auto intro: conc_step.intros)

lemma apply_step_redis:
  "apply_step x (p, w) = (p', w') \<Longrightarrow>
   w_rd w' = (case p of Bumping (t # ts) \<Rightarrow> BumpGeneration (d_redis x) (d_cache x) (w_rd w) t | _ \<Rightarrow> w_rd w)"
  by (cases "(x, p, w)" rule: apply_step.cases)
    (auto simp: Let_def add_metric_def split: if_splits sum.splits prod.splits option.splits)

lemma genKey_Itoa_iff: "genKey u = genKey (Itoa i) \<longleftrightarrow> u = Itoa i"
  using Itoa_not_global [of i] Itoa_not_global [of i, symmetric] Itoa_ne [of i] Itoa_ne [of i, symmetric]
  by (auto simp: genKey_def split: if_splits)

text \<open>A bump: the counter of the tenant goes up by one, every other counter and answer stays.\<close>

lemma bump_counter:
  assumes "redis_spec api" "has_rdb c" "counter_value (r_get api rd (genKey (Itoa i))) = Some n" "in_int64 (n + 1)"
  shows "counter_value (r_get api (BumpGeneration api c rd u) (genKey (Itoa i))) = Some (if u = Itoa i then n + 1 else n)"
    and "Generation api c (BumpGeneration api c rd (Itoa i)) (Itoa i) = n + 1"
    and "r_get api (BumpGeneration api c rd u) (Key q fs g) = r_get api rd (Key q fs g)"
proof -
  have b: "r_get api (BumpGeneration api c rd (Itoa i)) (genKey (Itoa i)) = Some (Plain (Itoa (n + 1)))"
    using redis_specD(3) [OF assms(1,3,4)] assms(2) by (simp add: BumpGeneration_def)
  have o: "u \<noteq> Itoa i \<Longrightarrow> r_get api (BumpGeneration api c rd u) (genKey (Itoa i)) = r_get api rd (genKey (Itoa i))"
    using redis_specD(4) [OF assms(1), of "genKey (Itoa i)" "genKey u" rd] genKey_Itoa_iff [of u i] assms(2)
    by (simp add: BumpGeneration_def)
  have cv: "counter_value (Some (Plain (Itoa (n + 1)))) = Some (n + 1)"
    using assms(4) by (simp add: counter_value_def)
  show "counter_value (r_get api (BumpGeneration api c rd u) (genKey (Itoa i))) = Some (if u = Itoa i then n + 1 else n)"
    using b o assms(3) cv by (cases "u = Itoa i") simp_all
  show "Generation api c (BumpGeneration api c rd (Itoa i)) (Itoa i) = n + 1"
    by (rule Generation_counter [OF assms(2)]) (use b cv in simp)
  show "r_get api (BumpGeneration api c rd u) (Key q fs g) = r_get api rd (Key q fs g)"
    using redis_specD(4) [OF assms(1), of "Key q fs g" "genKey u" rd] genKey_not_Key [of u q fs g]
    by (simp add: BumpGeneration_def)
qed

text \<open>A step of an indexing goroutine, a delivery or a crash.\<close>

lemma conc_step_redis:
  assumes "conc_step (writer_ok vos vqd api c) s ev s'"
  shows "(covers api c s ev s' = [] \<and> w_rd (cc_world s') = w_rd (cc_world s)) \<or>
    (\<exists>i u us. i < length (cc_threads s) \<and> ev = Advance i \<and> th_phase (cc_threads s ! i) = Bumping (u # us) \<and>
       w_rd (cc_world s') = BumpGeneration api c (w_rd (cc_world s)) u \<and> w_os (cc_world s') = w_os (cc_world s))"
  using assms
proof (cases rule: conc_step.cases)
  case (Advanced x i)
  obtain p w where st: "apply_step x (th_phase (cc_threads s ! i), cc_world s) = (p, w)" by fastforce
  then have w: "cc_world s' = w" using Advanced by (simp add: advance_def Let_def)
  show ?thesis
  proof (cases "\<exists>u us. th_phase (cc_threads s ! i) = Bumping (u # us)")
    case True
    then obtain u us where b: "th_phase (cc_threads s ! i) = Bumping (u # us)" by blast
    then have "w = (cc_world s)\<lparr>w_rd := BumpGeneration (d_redis x) (d_cache x) (w_rd (cc_world s)) u\<rparr>"
      using st by auto
    then show ?thesis using b w Advanced by (simp add: writer_ok_def)
  next
    case False
    then have "w_rd w = w_rd (cc_world s)" "covers api c s ev s' = []"
      using apply_step_redis [OF st] Advanced
      by (auto simp: covers_def split: phase.splits list.splits)
    then show ?thesis using w by simp
  qed
qed (auto simp: covers_def deliver_def crash_def)

lemma bumping_superseded:
  "conc_inv vos m0 s \<Longrightarrow> i < length (cc_threads s) \<Longrightarrow> th_phase (cc_threads s ! i) = Bumping ts \<Longrightarrow>
   d \<in> set (th_docs (cc_threads s ! i)) \<Longrightarrow> superseded (vos (w_os (cc_world s))) d"
proof -
  assume "conc_inv vos m0 s" "i < length (cc_threads s)" and b: "th_phase (cc_threads s ! i) = Bumping ts"
    and d: "d \<in> set (th_docs (cc_threads s ! i))"
  then have "thread_ok (vos (w_os (cc_world s))) (cc_threads s ! i)"
    using nth_mem unfolding conc_inv_def by blast
  then show "superseded (vos (w_os (cc_world s))) d" using b d by (simp add: thread_ok_def)
qed

lemma conc_step_grows:
  assumes "conc_step (cluster_ok vos vqd) s ev s'" "conc_inv vos m0 s"
  shows "store_grows (vos (w_os (cc_world s))) (vos (w_os (cc_world s')))"
  using assms(1)
proof (cases rule: conc_step.cases)
  case (Advanced x i)
  obtain p w where st: "apply_step x (th_phase (cc_threads s ! i), cc_world s) = (p, w)" by fastforce
  have "thread_ok (vos (w_os (cc_world s))) (cc_threads s ! i)"
    using assms(2) Advanced nth_mem unfolding conc_inv_def by blast
  from apply_step_store(1) [OF Advanced(3) st this] st show ?thesis
    using Advanced by (simp add: advance_def Let_def)
qed (simp_all add: deliver_def crash_def)

lemma indexed_inv:
  assumes rs: "redis_spec api" and c: "has_rdb c" and n: "in_int64 (n + 1)"
    and inv: "sys_inv vos m0 api view s (Itoa i) n y" and st: "conc_step (writer_ok vos vqd api c) (sy_conc y) ev after"
  shows "\<exists>n'. n \<le> n' \<and> n' \<le> n + 1 \<and> sys_inv vos m0 api view s (Itoa i) n' (indexed api c ev after y)"
proof -
  let ?t = "Itoa i" and ?w = "cc_world (sy_conc y)" and ?w' = "cc_world after"
  let ?cov' = "covers api c (sy_conc y) ev after"
  have st': "conc_step (cluster_ok vos vqd) (sy_conc y) ev after"
    by (rule conc_step_mono [OF st]) (simp add: writer_ok_def)
  note I = inv [unfolded sys_inv_def Let_def]
  have ci: "conc_inv vos m0 after" using conc_step_inv [OF st'] I by blast
  have grow: "store_grows (vos (w_os ?w)) (vos (w_os ?w'))" using conc_step_grows [OF st'] I by blast
  have old: "cover_inv (sy_covered y) ?t n (vos (w_os ?w'))"
    using I superseded_grows [OF _ grow] unfolding cover_inv_def by fast
  have cnt: "counter_value (r_get api (w_rd ?w) (genKey ?t)) = Some n" using I by blast
  obtain n' where le: "n \<le> n'" "n' \<le> n + 1"
    and new: "counter_value (r_get api (w_rd ?w') (genKey ?t)) = Some n'"
      "cover_inv ?cov' ?t n' (vos (w_os ?w'))" "\<forall>(d, g) \<in> set ?cov'. Itoa (TenantID d) = ?t \<longrightarrow> n < g"
      "\<And>q fs g. r_get api (w_rd ?w') (Key q fs g) = r_get api (w_rd ?w) (Key q fs g)"
    using conc_step_redis [OF st]
  proof (elim disjE exE conjE)
    assume e: "?cov' = []" "w_rd ?w' = w_rd ?w"
    show thesis by (rule that [of n]) (use e cnt in \<open>simp_all add: cover_inv_def\<close>)
  next
    fix k u us assume k: "k < length (cc_threads (sy_conc y))" "ev = Advance k"
      and b: "th_phase (cc_threads (sy_conc y) ! k) = Bumping (u # us)"
      and rd: "w_rd ?w' = BumpGeneration api c (w_rd ?w) u" and os: "w_os ?w' = w_os ?w"
    have cov: "?cov' = map (\<lambda>d. (d, Generation api c (w_rd ?w') u))
        (filter (\<lambda>d. Itoa (TenantID d) = u) (th_docs (cc_threads (sy_conc y) ! k)))"
      using k b by (simp add: covers_def)
    have sup: "superseded (vos (w_os ?w')) d" if "d \<in> set (th_docs (cc_threads (sy_conc y) ! k))" for d
      using bumping_superseded [OF conjunct1 [OF I] k(1) b that] os by simp
    have "Generation api c (w_rd ?w') u = n + 1" if "u = ?t"
      using bump_counter(2) [OF rs c cnt n] rd that by simp
    then show thesis
      by (intro that [of "if u = ?t then n + 1 else n"])
        (use bump_counter(1,3) [OF rs c cnt n] rd sup in \<open>auto simp: cov cover_inv_def\<close>)
  qed
  have "sys_inv vos m0 api view s ?t n' (indexed api c ev after y)"
    unfolding sys_inv_def Let_def indexed_def
  proof (simp, intro conjI)
    show "cover_inv (sy_covered y @ ?cov') ?t n' (vos (w_os ?w'))"
      using old new(2) le unfolding cover_inv_def by fastforce
    show "redis_inv api (sy_log y) (w_rd ?w')" using I new(4) unfolding redis_inv_def by simp
  qed (use I ci new ask_inv_cover [OF _ le(1) new(3)] log_inv_cover [OF _ le(1) new(3)] in blast)+
  then show ?thesis using le by blast
qed

subsection \<open>Lemmas: the requests\<close>

lemma sys_inv_answer:
  assumes "sys_inv vos m0 api view s t n y"
    and "r_get api rd (genKey t) = r_get api (w_rd (cc_world (sy_conc y))) (genKey t)"
    and "ask_inv s (sy_keys y @ ks) (sy_log y @ lg) (sy_covered y) t n h"
    and "keys_inv (sy_keys y @ ks)" "log_inv (sy_keys y @ ks) (sy_covered y) t n (sy_log y @ lg)"
    and "redis_inv api (sy_log y @ lg) rd" "sem_inv (sy_log y @ lg) (view v)"
  shows "sys_inv vos m0 api view s t n (y\<lparr>sy_conc := set_redis rd (sy_conc y), sy_sem := v, sy_metrics := ms,
    sy_asks := (sy_asks y)[j := h], sy_keys := sy_keys y @ ks, sy_log := sy_log y @ lg\<rparr>)"
proof -
  note I = assms(1) [unfolded sys_inv_def Let_def]
  have "ask_inv s (sy_keys y @ ks) (sy_log y @ lg) (sy_covered y) t n a" if "a \<in> set ((sy_asks y)[j := h])" for a
  proof -
    have "a = h \<or> a \<in> set (sy_asks y)" using that set_update_subset_insert by fastforce
    then show ?thesis using assms(3) I ask_inv_grows [of s "sy_keys y" "sy_log y" "sy_covered y" t n a] by auto
  qed
  then show ?thesis using I assms(2-) by (simp add: sys_inv_def Let_def)
qed

text \<open>Two requests with one key ask for one tenant at one generation.\<close>

lemma same_key:
  assumes "no_collision ks" "keys_inv ks" "k \<in> set ks" "k' \<in> set ks" "ak_key k = ak_key k'"
  shows "ak_gen k = ak_gen k' \<and> ak_tenant k = ak_tenant k'"
proof -
  have "sha1_hex (key_text k) = sha1_hex (key_text k')" using assms(5) by (simp add: ak_key_def Key_def key_text_def)
  then have "key_text k = key_text k'" using assms(1,3,4) unfolding no_collision_def by (auto dest: inj_onD)
  then have "map_of (ak_filters k) = map_of (ak_filters k') \<and> ak_gen k = ak_gen k'"
    using assms(1,3,4) key_material_clean_inj unfolding no_collision_def key_text_def by blast
  then show ?thesis using assms(2-4) unfolding keys_inv_def by (metis option.inject)
qed

lemma served_fresh:
  assumes "key_inv s ks cov t n h k" "log_inv ks cov t n lg" "a \<in> set lg" "answers_with a kvs"
    and "ak_tenant (rc_key a) = ak_tenant k" "ak_gen (rc_key a) = ak_gen k" "resp = writeJSON hs code (JObj kvs)"
  shows "fresh_reply s lg t h resp"
  unfolding fresh_reply_def
proof (intro allI impI)
  fix kvs' assume a: "authTenant s (ah_request h) = (t, True) \<and> rs_Body resp = JObj kvs' \<and> gives_answer kvs'"
  then have t: "ak_tenant k = t" "kvs' = kvs" using assms(1,7) by (auto simp: key_inv_def writeJSON_def)
  then have "knows (rc_reads a) d" if "d \<in> set (ah_known h)" "Itoa (TenantID d) = t" for d
    using assms(1,2,3,5,6) that unfolding key_inv_def log_inv_def reads_ok_def by fastforce
  then show "\<exists>a \<in> set lg. answers_with a kvs' \<and> ak_tenant (rc_key a) = t \<and>
      (\<forall>d \<in> set (ah_known h). Itoa (TenantID d) = t \<longrightarrow> knows (rc_reads a) d)"
    using assms(3,4,5) t by blast
qed

text \<open>The replies that give no answer.\<close>

definition answerless :: "response outcome \<Rightarrow> bool" where
  "answerless out \<longleftrightarrow> (\<forall>resp kvs. out = Returns resp \<and> rs_Body resp = JObj kvs \<longrightarrow> \<not> gives_answer kvs)"

lemma answerless_writeJSON [simp]: "answerless (Returns (writeJSON hs code (JObj kvs))) \<longleftrightarrow>
    map_of kvs ''cached'' \<noteq> Some (JBool True) \<and> map_of kvs ''model'' = None"
  by (auto simp: answerless_def writeJSON_def gives_answer_def)

lemma answerless_error [simp]: "answerless (Returns (writeJSON hs code (error_json e)))" "answerless Panics"
  by (simp_all add: answerless_def writeJSON_def error_json_def gives_answer_def)

lemma ask_inv_phase:
  assumes "key_inv s ks cov t n h k" "phase_key p = Some k" "\<And>k qvec resp. p \<noteq> AskStoring k qvec resp"
  shows "ask_inv s ks lg cov t n (h\<lparr>ah_phase := p\<rparr>)"
  using assms by (auto simp: ask_inv_def key_inv_def phase_key_def)

lemma ask_inv_answered:
  "(\<And>resp. out = Returns resp \<Longrightarrow> fresh_reply s lg t h resp) \<Longrightarrow> ask_inv s ks lg cov t n (h\<lparr>ah_phase := AskDone out\<rparr>)"
  by (auto simp: ask_inv_def phase_key_def fresh_reply_def)

lemma ask_inv_answerless: "answerless out \<Longrightarrow> ask_inv s ks lg cov t n (h\<lparr>ah_phase := AskDone out\<rparr>)"
  by (auto simp: ask_inv_def phase_key_def fresh_reply_def answerless_def)

lemma ask_same [simp]:
  "h\<lparr>ah_phase := p, ah_known := ah_known h, ah_reads := ah_reads h\<rparr> = h\<lparr>ah_phase := p\<rparr>"
  "h\<lparr>ah_phase := p, ah_known := ds, ah_reads := ah_reads h\<rparr> = h\<lparr>ah_phase := p, ah_known := ds\<rparr>"
  "h\<lparr>ah_phase := p, ah_known := ah_known h, ah_reads := ms\<rparr> = h\<lparr>ah_phase := p, ah_reads := ms\<rparr>"
  by (cases h; simp)+

lemma authTenant_named: "authTenant s r = (tenant, True) \<Longrightarrow> s_apiKey s \<noteq> [] \<Longrightarrow> tenant \<noteq> []"
  by (auto simp: authTenant_def Let_def split: if_splits)

lemma begin_inv:
  assumes "q_redis z = api" "has_rdb (s_cache s)" "s_apiKey s \<noteq> []"
    and "counter_value (r_get api (qs_rd st) (genKey t)) = Some n"
    and "cover_inv cov t n m" "keys_inv ks" "ah_reads h = []" "begin_ask z s (ah_request h) st = p"
  shows "ask_inv s (ks @ (case p of AskKeyed k \<Rightarrow> [k] | _ \<Rightarrow> [])) lg cov t n (h\<lparr>ah_phase := p, ah_known := map fst cov\<rparr>)"
    and "keys_inv (ks @ (case p of AskKeyed k \<Rightarrow> [k] | _ \<Rightarrow> []))" "\<And>k qvec resp. p \<noteq> AskStoring k qvec resp"
proof -
  obtain tenant ok where a: "authTenant s (ah_request h) = (tenant, ok)" by fastforce
  have g: "Generation api (s_cache s) (qs_rd st) t = n" using Generation_counter [OF assms(2,4)] .
  have "ask_inv s (ks @ (case p of AskKeyed k \<Rightarrow> [k] | _ \<Rightarrow> [])) lg cov t n (h\<lparr>ah_phase := p, ah_known := map fst cov\<rparr>) \<and>
    keys_inv (ks @ (case p of AskKeyed k \<Rightarrow> [k] | _ \<Rightarrow> [])) \<and> (\<forall>k qvec resp. p \<noteq> AskStoring k qvec resp)"
  proof (cases "ok \<and> read_request (ah_request h) \<noteq> None")
    case False
    then obtain out where p: "p = AskDone out" "answerless out"
      using assms(8) a by (cases ok) (auto simp: begin_ask_def)
    then show ?thesis using assms(6) by (auto simp: ask_inv_def phase_key_def fresh_reply_def answerless_def)
  next
    case True
    then obtain req where req: "read_request (ah_request h) = Some req" and ok by blast
    let ?k = "\<lparr>ak_tenant = tenant, ak_req = req, ak_filters = scopeFilters (aq_Filters req) tenant,
       ak_gen = Generation api (s_cache s) (qs_rd st) tenant\<rparr>"
    have p: "p = AskKeyed ?k" using assms(1,8) a req \<open>ok\<close> by (simp add: begin_ask_def)
    have t: "tenant \<noteq> []" using authTenant_named a \<open>ok\<close> assms(3) by simp
    then have "map_of (ak_filters ?k) ''tenant_id'' = Some tenant" by (simp add: scopeFilters_def update_conv')
    moreover have "key_inv s (ks @ [?k]) cov t n (h\<lparr>ah_phase := p, ah_known := map fst cov\<rparr>) ?k"
      using a \<open>ok\<close> g assms(5,7) by (fastforce simp: key_inv_def reads_ok_def knows_def cover_inv_def)
    ultimately show ?thesis using p assms(6) t by (auto simp: keys_inv_def ask_inv_def phase_key_def)
  qed
  then show "ask_inv s (ks @ (case p of AskKeyed k \<Rightarrow> [k] | _ \<Rightarrow> [])) lg cov t n (h\<lparr>ah_phase := p, ah_known := map fst cov\<rparr>)"
    "keys_inv (ks @ (case p of AskKeyed k \<Rightarrow> [k] | _ \<Rightarrow> []))" "\<And>k qvec resp. p \<noteq> AskStoring k qvec resp"
    by blast+
qed

lemma exact_inv:
  assumes "key_inv s ks cov t n h k" "keys_inv ks" "no_collision ks" "log_inv ks cov t n lg"
    and "redis_inv (q_redis z) lg (qs_rd st)" "exact_lookup z s k st = (p, st')"
  shows "ask_inv s ks lg cov t n (h\<lparr>ah_phase := p\<rparr>)"
proof (cases "CacheGet (q_redis z) (s_cache s) (qs_rd st) (ak_key k)")
  case None
  then show ?thesis using assms(1,6) by (intro ask_inv_phase) (auto simp: exact_lookup_def phase_key_def)
next
  case (Some c)
  show ?thesis
  proof (cases c)
    case None
    then show ?thesis using Some assms(6) by (auto simp: exact_lookup_def ask_inv_def phase_key_def)
  next
    case body: (Some kvs)
    then have "r_get (q_redis z) (qs_rd st) (ak_key k) = Some (Stored (JObj kvs))"
      using Some by (auto simp: CacheGet_def split: if_splits option.splits rvalue.splits json.splits)
    then obtain a where a: "a \<in> set lg" "ak_key (rc_key a) = ak_key k" "rc_body a = kvs"
      using assms(5) unfolding redis_inv_def ak_key_def by blast
    have "rc_key a \<in> set ks" "k \<in> set ks" using a(1) assms(1,4) by (auto simp: log_inv_def key_inv_def)
    then have k: "ak_gen (rc_key a) = ak_gen k" "ak_tenant (rc_key a) = ak_tenant k"
      using same_key [OF assms(3,2)] a(2) by blast+
    have "p = AskDone (Returns (writeJSON [] 200 (JObj (AList.update ''cached'' (JBool True) kvs))))"
      using Some body assms(6) by (simp add: exact_lookup_def)
    moreover have "fresh_reply s lg t h (writeJSON [] 200 (JObj (AList.update ''cached'' (JBool True) kvs)))"
      by (rule served_fresh [OF assms(1,4) a(1) _ k(2,1) refl]) (simp add: answers_with_def served_from_def a(3))
    ultimately show ?thesis by (auto intro: ask_inv_answered)
  qed
qed

lemma semantic_inv:
  assumes "key_inv s ks cov t n h k" "log_inv ks cov t n lg" "ak_tenant k \<noteq> []"
    and "sem_spec (q_semquery z) (q_semupsert z) view sim" "sem_inv lg (view (qs_sem st))"
    and "semantic_lookup z s k st = (p, st')"
  shows "ask_inv s ks lg cov t n (h\<lparr>ah_phase := p\<rparr>)"
proof -
  define qvec where "qvec = embed_query z s (aq_Query (ak_req k))"
  define look where "look = (case qvec of None \<Rightarrow> (NotJSON [], 0, False)
     | Some v \<Rightarrow> Lookup (q_semquery z) (s_sem s) (qs_sem st) v (ak_tenant k) (ak_gen k))"
  have next_phase: ?thesis if "p = AskSearching k qvec None None"
    using assms(1) that by (intro ask_inv_phase) (auto simp: phase_key_def)
  obtain aj score hit where look': "look = (aj, score, hit)" by (cases look)
  note sl = assms(6) [unfolded semantic_lookup_def Let_def, folded qvec_def, folded look_def, unfolded look']
  show ?thesis
  proof (cases "\<exists>kvs. hit \<and> aj = JText (JObj kvs)")
    case True
    then obtain kvs where kvs: "hit" "aj = JText (JObj kvs)" by blast
    then obtain v where "Lookup (q_semquery z) (s_sem s) (qs_sem st) v (ak_tenant k) (ak_gen k) = (JText (JObj kvs), score, True)"
      using look' by (auto simp: look_def split: option.splits)
    from Lookup_hit [OF assms(4) this] assms(3) obtain e where e: "e \<in> set (view (qs_sem st))"
      "se_gen e = Itoa (ak_gen k)" "se_tenant e = ak_tenant k" "se_answer e = JText (JObj kvs)" by auto
    then obtain a where a: "a \<in> set lg" "ak_tenant (rc_key a) = ak_tenant k" "ak_gen (rc_key a) = ak_gen k" "rc_body a = kvs"
      using assms(5) unfolding sem_inv_def by fastforce
    let ?body = "AList.update ''semantic_score'' (JFrac score) (AList.update ''semantic'' (JBool True)
       (AList.update ''cached'' (JBool True) kvs))"
    have "p = AskDone (Returns (writeJSON [] 200 (JObj ?body)))" using sl kvs by simp
    moreover have "fresh_reply s lg t h (writeJSON [] 200 (JObj ?body))"
      by (rule served_fresh [OF assms(1,2) a(1) _ a(2,3) refl]) (auto simp: answers_with_def served_from_def a(4))
    ultimately show ?thesis by (auto intro: ask_inv_answered)
  next
    case False
    then have "p = AskSearching k qvec None None \<or> p = AskDone Panics"
      using sl by (auto split: bool.splits raw.splits json.splits)
    then show ?thesis using next_phase by (auto simp: ask_inv_def phase_key_def)
  qed
qed

lemma semantic_same:
  assumes "semantic_lookup z s k st = (p, st')"
  shows "qs_rd st' = qs_rd st \<and> qs_sem st' = qs_sem st" "p \<noteq> AskKeyed k'" "p \<noteq> AskStoring k' qvec resp"
proof -
  obtain aj score hit where l: "(case embed_query z s (aq_Query (ak_req k)) of None \<Rightarrow> (NotJSON [], 0, False)
     | Some v \<Rightarrow> Lookup (q_semquery z) (s_sem s) (qs_sem st) v (ak_tenant k) (ak_gen k)) = (aj, score, hit)"
    by (metis prod.exhaust)
  have "qs_rd st' = qs_rd st \<and> qs_sem st' = qs_sem st \<and> p \<noteq> AskKeyed k' \<and> p \<noteq> AskStoring k' qvec resp"
    using assms unfolding semantic_lookup_def Let_def l
    by (auto split: bool.splits raw.splits json.splits)
  then show "qs_rd st' = qs_rd st \<and> qs_sem st' = qs_sem st" "p \<noteq> AskKeyed k'" "p \<noteq> AskStoring k' qvec resp" by blast+
qed

lemma search_inv:
  assumes "key_inv s ks cov t n h k" "cover_inv cov t n m"
    and "ask_step z s ms b (AskSearching k qvec bm vec, st) = (p, st')"
  shows "ask_inv s ks lg cov t n (h\<lparr>ah_phase := p, ah_reads := ah_reads h @ [m]\<rparr>)"
    and "st' = st" "\<And>k. p \<noteq> AskKeyed k" "\<And>k qvec resp. p \<noteq> AskStoring k qvec resp"
proof -
  let ?h = "h\<lparr>ah_reads := ah_reads h @ [m]\<rparr>"
  have k: "key_inv s ks cov t n ?h k"
    using assms(1,2) unfolding key_inv_def reads_ok_def cover_inv_def knows_def by fastforce
  have c: "(\<exists>bm vec. p = AskSearching k qvec bm vec) \<or> (\<exists>sources. p = AskGenerating k qvec sources) \<or>
      (\<exists>out. p = AskDone out \<and> answerless out)"
    using assms(3) by (cases bm; cases vec) (auto simp: read_documents_def split: if_splits outcome.splits sum.splits)
  have next_phase: "ask_inv s ks lg cov t n (?h\<lparr>ah_phase := p\<rparr>)"
    if "phase_key p = Some k" "\<And>k qvec resp. p \<noteq> AskStoring k qvec resp"
    using ask_inv_phase [OF k that] by blast
  have "ask_inv s ks lg cov t n (?h\<lparr>ah_phase := p\<rparr>)"
    using c
  proof (elim disjE exE conjE)
    show "ask_inv s ks lg cov t n (?h\<lparr>ah_phase := p\<rparr>)" if "p = AskSearching k qvec bm vec" for bm vec
      using that by (intro next_phase) (simp_all add: phase_key_def)
    show "ask_inv s ks lg cov t n (?h\<lparr>ah_phase := p\<rparr>)" if "p = AskGenerating k qvec sources" for sources
      using that by (intro next_phase) (simp_all add: phase_key_def)
    show "ask_inv s ks lg cov t n (?h\<lparr>ah_phase := p\<rparr>)" if "p = AskDone out" "answerless out" for out
      unfolding that(1) using that(2) by (rule ask_inv_answerless)
  qed
  moreover have "?h\<lparr>ah_phase := p\<rparr> = h\<lparr>ah_phase := p, ah_reads := ah_reads h @ [m]\<rparr>" by (cases h) simp
  ultimately show "ask_inv s ks lg cov t n (h\<lparr>ah_phase := p, ah_reads := ah_reads h @ [m]\<rparr>)" by simp
  show "st' = st" using assms(3) by (cases bm; cases vec) (auto split: if_splits)
  show "\<And>k. p \<noteq> AskKeyed k" "\<And>k qvec resp. p \<noteq> AskStoring k qvec resp" using c by auto
qed

lemma generate_inv:
  assumes "key_inv s ks cov t n h k" "log_inv ks cov t n lg" "redis_spec (q_redis z)"
    and "redis_inv (q_redis z) lg (qs_rd st)" "generate_answer z s ms k qvec sources st = (p, st')"
    and "lg' = lg @ (case p of AskStoring k qvec resp \<Rightarrow> [\<lparr>rc_key = k, rc_body = resp, rc_reads = ah_reads h, rc_sources = sources\<rparr>] | _ \<Rightarrow> [])"
  shows "ask_inv s ks lg' cov t n (h\<lparr>ah_phase := p\<rparr>)" and "log_inv ks cov t n lg'"
    and "redis_inv (q_redis z) lg' (qs_rd st')" "qs_sem st' = qs_sem st" "\<And>k. p \<noteq> AskKeyed k"
    and "r_get (q_redis z) (qs_rd st') (genKey u) = r_get (q_redis z) (qs_rd st) (genKey u)"
proof -
  have c: "(st' = st \<and> lg' = lg \<and> (\<exists>out. p = AskDone out \<and> answerless out)) \<or>
    (\<exists>resp. p = AskStoring k qvec resp \<and> qs_sem st' = qs_sem st \<and>
       qs_rd st' = CacheSet (q_redis z) (s_cache s) (qs_rd st) (ak_key k) resp \<and>
       lg' = lg @ [\<lparr>rc_key = k, rc_body = resp, rc_reads = ah_reads h, rc_sources = sources\<rparr>])"
    using assms(5,6)
    by (cases "Generate (q_chat z) (s_llm s) (aq_Query (ak_req k)) sources") (auto simp: generate_answer_def Let_def)
  show "qs_sem st' = qs_sem st" "\<And>k. p \<noteq> AskKeyed k" using c by auto
  have all: "ask_inv s ks lg' cov t n (h\<lparr>ah_phase := p\<rparr>) \<and> log_inv ks cov t n lg' \<and> redis_inv (q_redis z) lg' (qs_rd st') \<and>
      r_get (q_redis z) (qs_rd st') (genKey u) = r_get (q_redis z) (qs_rd st) (genKey u)"
    using c
  proof (elim disjE exE conjE)
    fix out assume p: "p = AskDone out" "answerless out" "st' = st" "lg' = lg"
    show ?thesis using assms(2,4) ask_inv_answerless [OF p(2)] unfolding p(1,3,4) by blast
  next
    fix resp let ?a = "\<lparr>rc_key = k, rc_body = resp, rc_reads = ah_reads h, rc_sources = sources\<rparr>"
    assume p: "p = AskStoring k qvec resp"
      "qs_rd st' = CacheSet (q_redis z) (s_cache s) (qs_rd st) (ak_key k) resp" "lg' = lg @ [?a]"
    have "ask_inv s ks lg' cov t n (h\<lparr>ah_phase := p\<rparr>)"
      using assms(1) p by (auto simp: ask_inv_def phase_key_def key_inv_def)
    moreover have "log_inv ks cov t n lg'" using assms(1,2) p(3) by (auto simp: log_inv_def key_inv_def)
    moreover have "redis_inv (q_redis z) lg' (qs_rd st')"
      unfolding redis_inv_def
    proof (intro allI impI)
      fix q fs g kvs assume r: "r_get (q_redis z) (qs_rd st') (Key q fs g) = Some (Stored (JObj kvs))"
      show "\<exists>a \<in> set lg'. ak_key (rc_key a) = Key q fs g \<and> rc_body a = kvs"
      proof (cases "has_rdb (s_cache s) \<and> Key q fs g = ak_key k")
        case True
        then have "kvs = resp" using r p(2) redis_specD(1) [OF assms(3)] by (simp add: CacheSet_def)
        then show ?thesis using True p(3) by auto
      next
        case False
        then have "r_get (q_redis z) (qs_rd st) (Key q fs g) = Some (Stored (JObj kvs))"
          using r p(2) redis_specD(2) [OF assms(3)] by (auto simp: CacheSet_def split: if_splits)
        then show ?thesis using assms(4) p(3) unfolding redis_inv_def by fastforce
      qed
    qed
    moreover have "r_get (q_redis z) (qs_rd st') (genKey u) = r_get (q_redis z) (qs_rd st) (genKey u)"
      using redis_specD(2) [OF assms(3)] genKey_not_Key by (simp add: p(2) CacheSet_def ak_key_def)
    ultimately show ?thesis by blast
  qed
  then show "ask_inv s ks lg' cov t n (h\<lparr>ah_phase := p\<rparr>)" "log_inv ks cov t n lg'"
    "redis_inv (q_redis z) lg' (qs_rd st')"
    "r_get (q_redis z) (qs_rd st') (genKey u) = r_get (q_redis z) (qs_rd st) (genKey u)" by blast+
qed

lemma storing_inv:
  assumes "ask_inv s ks lg cov t n h" "ah_phase h = AskStoring k qvec resp"
    and "sem_spec (q_semquery z) (q_semupsert z) view sim" "sem_inv lg (view (qs_sem st))"
    and "log_inv ks cov t n lg"
  shows "ask_inv s ks lg cov t n (h\<lparr>ah_phase := AskDone (Returns (writeJSON [] 200 (JObj resp)))\<rparr>)"
    and "sem_inv lg (view (qs_sem (store_semantic z s k qvec resp st)))"
proof -
  have a: "\<exists>a \<in> set lg. rc_key a = k \<and> rc_body a = resp"
    using assms(1,2) unfolding ask_inv_def by blast
  then obtain a where a': "a \<in> set lg" "rc_key a = k" "rc_body a = resp" by blast
  have "phase_key (ah_phase h) = Some k" using assms(2) by (simp add: phase_key_def)
  then have "key_inv s ks cov t n h k" using assms(1) unfolding ask_inv_def by blast
  from served_fresh [OF this assms(5) a'(1) _ _ _ refl, of resp "[]" 200]
  have "fresh_reply s lg t h (writeJSON [] 200 (JObj resp))" using a'(2,3) by (simp add: answers_with_def)
  then show "ask_inv s ks lg cov t n (h\<lparr>ah_phase := AskDone (Returns (writeJSON [] 200 (JObj resp)))\<rparr>)"
    by (auto intro: ask_inv_answered)
  have up: "set (view (q_semupsert z v e)) \<subseteq> insert e (set (view v))" for v e
    using assms(3) unfolding sem_spec_def by blast
  show "sem_inv lg (view (qs_sem (store_semantic z s k qvec resp st)))"
    unfolding sem_inv_def
  proof
    fix e assume "e \<in> set (view (qs_sem (store_semantic z s k qvec resp st)))"
    then have "e \<in> set (view (qs_sem st)) \<or>
        (\<exists>v. e = \<lparr>se_Vector = v, se_tenant = ak_tenant k, se_gen = Itoa (ak_gen k), se_answer = JText (JObj resp)\<rparr>)"
      using up by (fastforce simp: store_semantic_def Store_def split: option.splits if_splits)
    then show "\<exists>a \<in> set lg. se_tenant e = ak_tenant (rc_key a) \<and> se_gen e = Itoa (ak_gen (rc_key a)) \<and>
        se_answer e = JText (JObj (rc_body a))"
      using a assms(4) unfolding sem_inv_def by auto
  qed
qed

lemma answered_inv:
  assumes rs: "redis_spec api" and hb: "has_rdb (s_cache s)" and key: "s_apiKey s \<noteq> []"
    and rok: "reader_ok api view sim z" and j: "j < length (sy_asks y)"
    and inv: "sys_inv vos m0 api view s (Itoa i) n y" and nc: "no_collision (sy_keys y)"
  shows "sys_inv vos m0 api view s (Itoa i) n (answer_step vos z s ms b j y)"
proof -
  define h where "h = sy_asks y ! j"
  obtain p st where st: "ask_step z s ms b (ah_phase h, query_view y) = (p, st)" by fastforce
  define ks where "ks = (case p of AskKeyed k \<Rightarrow> [k] | _ \<Rightarrow> [])"
  define lg where "lg = (case p of AskStoring k qvec resp \<Rightarrow> [\<lparr>rc_key = k, rc_body = resp, rc_reads = ah_reads h,
    rc_sources = (case ah_phase h of AskGenerating k qvec sources \<Rightarrow> sources | _ \<Rightarrow> [])\<rparr>] | _ \<Rightarrow> [])"
  define h' where "h' = h\<lparr>ah_phase := p,
    ah_known := (case ah_phase h of AskNew r \<Rightarrow> map fst (sy_covered y) | _ \<Rightarrow> ah_known h),
    ah_reads := ah_reads h @ (case ah_phase h of
      AskSearching k qvec bm vec \<Rightarrow> [vos (w_os (cc_world (sy_conc y)))] | _ \<Rightarrow> [])\<rparr>"
  let ?rd = "w_rd (cc_world (sy_conc y))" and ?t = "Itoa i"
  note I = inv [unfolded sys_inv_def Let_def]
  have q: "qs_rd (query_view y) = ?rd" "qs_sem (query_view y) = sy_sem y" by (simp_all add: query_view_def Let_def)
  have z: "q_redis z = api" "sem_spec (q_semquery z) (q_semupsert z) view sim" using rok by (simp_all add: reader_ok_def)
  have h: "ask_inv s (sy_keys y) (sy_log y) (sy_covered y) ?t n h" using I j nth_mem unfolding h_def by blast
  have k: "key_inv s (sy_keys y) (sy_covered y) ?t n h k" if "phase_key (ah_phase h) = Some k" for k
    using h that unfolding ask_inv_def by blast
  have goal: "r_get api (qs_rd st) (genKey ?t) = r_get api ?rd (genKey ?t) \<and>
     ask_inv s (sy_keys y @ ks) (sy_log y @ lg) (sy_covered y) ?t n h' \<and>
     keys_inv (sy_keys y @ ks) \<and> log_inv (sy_keys y @ ks) (sy_covered y) ?t n (sy_log y @ lg) \<and>
     redis_inv api (sy_log y @ lg) (qs_rd st) \<and> sem_inv (sy_log y @ lg) (view (qs_sem st))"
  proof (cases "ah_phase h")
    case (AskNew r)
    then have r: "r = ah_request h" "ah_reads h = []" using h unfolding ask_inv_def by blast+
    have p: "begin_ask z s (ah_request h) (query_view y) = p" "st = query_view y" using st AskNew r by auto
    have cnt: "counter_value (r_get api (qs_rd (query_view y)) (genKey ?t)) = Some n" and ki: "keys_inv (sy_keys y)"
      and cov: "cover_inv (sy_covered y) ?t n (vos (w_os (cc_world (sy_conc y))))" using I q by simp_all
    note b = begin_inv [OF z(1) hb key cnt cov ki r(2) p(1), folded ks_def]
    have "lg = []" using b(3) by (auto simp: lg_def split: ask_phase.splits)
    moreover have "log_inv (sy_keys y @ ks) (sy_covered y) ?t n (sy_log y)" using I log_inv_keys by (metis set_append sup_ge1)
    moreover have "h' = h\<lparr>ah_phase := p, ah_known := map fst (sy_covered y)\<rparr>" using AskNew by (simp add: h'_def)
    ultimately show ?thesis using b(1,2) I q p(2) by simp
  next
    case (AskKeyed k)
    then have e: "exact_lookup z s k (query_view y) = (p, st)" and k: "key_inv s (sy_keys y) (sy_covered y) ?t n h k"
      using st k by (simp_all add: phase_key_def)
    have "ask_inv s (sy_keys y) (sy_log y) (sy_covered y) ?t n (h\<lparr>ah_phase := p\<rparr>)"
      by (rule exact_inv [OF k _ nc _ _ e]) (use I q z in simp_all)
    moreover have "qs_rd st = ?rd" "qs_sem st = sy_sem y" "ks = []" "lg = []"
      using e q by (auto simp: exact_lookup_def ks_def lg_def split: option.splits)
    ultimately show ?thesis using I AskKeyed by (simp add: h'_def)
  next
    case (AskMissed k)
    then have e: "semantic_lookup z s k (query_view y) = (p, st)" and k: "key_inv s (sy_keys y) (sy_covered y) ?t n h k"
      using st k by (simp_all add: phase_key_def)
    have tn: "ak_tenant k \<noteq> []" using k I by (auto simp: key_inv_def keys_inv_def)
    have "ask_inv s (sy_keys y) (sy_log y) (sy_covered y) ?t n (h\<lparr>ah_phase := p\<rparr>)"
      by (rule semantic_inv [OF k _ tn z(2) _ e]) (use I q in simp_all)
    moreover have "qs_rd st = ?rd" "qs_sem st = sy_sem y" "ks = []" "lg = []"
      using semantic_same [OF e] q by (auto simp: ks_def lg_def split: ask_phase.splits)
    ultimately show ?thesis using I AskMissed by (simp add: h'_def)
  next
    case (AskSearching k qvec bm vec)
    then have k: "key_inv s (sy_keys y) (sy_covered y) ?t n h k" using k by (simp add: phase_key_def)
    have c: "cover_inv (sy_covered y) ?t n (vos (w_os (cc_world (sy_conc y))))" using I by blast
    note s = search_inv [OF k c st [unfolded AskSearching]]
    have "ks = []" "lg = []" using s(3,4) by (auto simp: ks_def lg_def split: ask_phase.splits)
    then show ?thesis using I q s(1,2) AskSearching by (simp add: h'_def)
  next
    case (AskGenerating k qvec sources)
    then have e: "generate_answer z s ms k qvec sources (query_view y) = (p, st)"
      and k: "key_inv s (sy_keys y) (sy_covered y) ?t n h k"
      using st k by (simp_all add: phase_key_def)
    have lg': "sy_log y @ lg = sy_log y @ (case p of AskStoring k qvec resp \<Rightarrow>
        [\<lparr>rc_key = k, rc_body = resp, rc_reads = ah_reads h, rc_sources = sources\<rparr>] | _ \<Rightarrow> [])"
      by (cases p) (simp_all add: lg_def AskGenerating)
    have li: "log_inv (sy_keys y) (sy_covered y) ?t n (sy_log y)" and rs': "redis_spec (q_redis z)"
      and ri: "redis_inv (q_redis z) (sy_log y) (qs_rd (query_view y))"
      using I q z rs by simp_all
    note g = generate_inv [OF k li rs' ri e lg']
    have "ks = []" using g(5) by (auto simp: ks_def split: ask_phase.splits)
    moreover have "sem_inv (sy_log y @ lg) (view (sy_sem y))"
      by (rule sem_inv_log [of "sy_log y" "view (sy_sem y)"]) (use I in simp_all)
    ultimately show ?thesis using I q z g AskGenerating by (simp add: h'_def)
  next
    case (AskStoring k qvec resp)
    then have e: "p = AskDone (Returns (writeJSON [] 200 (JObj resp)))" "st = store_semantic z s k qvec resp (query_view y)"
      using st by simp_all
    have "qs_rd st = ?rd" using e(2) q by (simp add: store_semantic_def split: option.splits)
    moreover have "ks = []" "lg = []" using e by (simp_all add: ks_def lg_def)
    ultimately show ?thesis
      using I q storing_inv [OF h AskStoring z(2), of "query_view y"] AskStoring e by (simp add: h'_def)
  next
    case (AskDone out)
    then have p: "p = AskDone out" "st = query_view y" using st by simp_all
    then have "h' = h" using AskDone by (cases h) (simp add: h'_def)
    then show ?thesis using I q h p by (simp add: ks_def lg_def)
  qed
  have "answer_step vos z s ms b j y = y\<lparr>sy_conc := set_redis (qs_rd st) (sy_conc y), sy_sem := qs_sem st,
      sy_metrics := qs_metrics st, sy_asks := (sy_asks y)[j := h'], sy_keys := sy_keys y @ ks, sy_log := sy_log y @ lg\<rparr>"
    unfolding answer_step_def Let_def h_def [symmetric] st prod.case h'_def ks_def lg_def ..
  then show ?thesis using goal sys_inv_answer [OF inv] by simp
qed

subsection \<open>Lemmas: runs\<close>

lemma expired_inv:
  assumes "sys_inv vos m0 api view s (Itoa i) n y"
    and "\<And>k. r_get api rd k = r_get api (w_rd (cc_world (sy_conc y))) k \<or> (r_get api rd k = None \<and> k \<notin> range genKey)"
  shows "sys_inv vos m0 api view s (Itoa i) n (y\<lparr>sy_conc := set_redis rd (sy_conc y)\<rparr>)"
proof -
  note I = assms(1) [unfolded sys_inv_def Let_def]
  have "r_get api rd (genKey (Itoa i)) = r_get api (w_rd (cc_world (sy_conc y))) (genKey (Itoa i))"
    using assms(2) [of "genKey (Itoa i)"] by auto
  moreover have "redis_inv api (sy_log y) rd"
    unfolding redis_inv_def
  proof (intro allI impI)
    fix q fs g kvs assume "r_get api rd (Key q fs g) = Some (Stored (JObj kvs))"
    then have "r_get api (w_rd (cc_world (sy_conc y))) (Key q fs g) = Some (Stored (JObj kvs))"
      using assms(2) [of "Key q fs g"] by auto
    then show "\<exists>a \<in> set (sy_log y). ak_key (rc_key a) = Key q fs g \<and> rc_body a = kvs"
      using I unfolding redis_inv_def by blast
  qed
  ultimately show ?thesis using I by (simp add: sys_inv_def Let_def)
qed

lemma asked_inv: "sys_inv vos m0 api view s t n y \<Longrightarrow> sys_inv vos m0 api view s t n (asked r y)"
  by (auto simp: sys_inv_def Let_def asked_def ask_inv_def phase_key_def)

lemma sys_step_keys: "sys_step vos (writer_ok vos vqd api c) (reader_ok api view sim) api c s y y' \<Longrightarrow> set (sy_keys y) \<subseteq> set (sy_keys y')"
  by (erule sys_step.cases) (auto simp: indexed_def asked_def answer_step_def Let_def split: prod.splits)

lemma no_collision_subset: "no_collision ks' \<Longrightarrow> set ks \<subseteq> set ks' \<Longrightarrow> no_collision ks"
  unfolding no_collision_def by (meson image_mono inj_on_subset subsetD)

lemma sys_run_inv:
  assumes "redis_spec api" "has_rdb c" "has_rdb (s_cache s)" "s_apiKey s \<noteq> []"
  shows "sys_run vos (writer_ok vos vqd api c) (reader_ok api view sim) api c s y k y' \<Longrightarrow> sys_inv vos m0 api view s (Itoa i) n y \<Longrightarrow>
    no_collision (sy_keys y') \<Longrightarrow> - (2 ^ 63) \<le> n \<Longrightarrow> n + int k < 2 ^ 63 \<Longrightarrow>
    \<exists>n'. n \<le> n' \<and> n' \<le> n + int k \<and> sys_inv vos m0 api view s (Itoa i) n' y'"
proof (induction rule: sys_run.induct)
  case SysStart
  then show ?case by auto
next
  case (SysStep k u v)
  have nc: "no_collision (sy_keys u)"
    using no_collision_subset [OF SysStep.prems(2)] sys_step_keys [OF SysStep.hyps(2)] by blast
  obtain n' where n': "n \<le> n'" "n' \<le> n + int k" and inv: "sys_inv vos m0 api view s (Itoa i) n' u"
    using SysStep.IH [OF SysStep.prems(1) nc] SysStep.prems(3,4) by auto
  have b: "in_int64 (n' + 1)" using n' SysStep.prems(3,4) by (simp add: in_int64_def)
  show ?case
    using SysStep.hyps(2)
  proof (cases rule: sys_step.cases)
    case (Indexed ev after)
    from indexed_inv [OF assms(1,2) b inv Indexed(2)] obtain n2 where
      "n' \<le> n2" "n2 \<le> n' + 1" "sys_inv vos m0 api view s (Itoa i) n2 v" using Indexed(1) by blast
    then show ?thesis using n' by (intro exI [of _ n2]) simp
  next
    case (Asked r)
    then show ?thesis using asked_inv [OF inv] n' by (intro exI [of _ n']) simp
  next
    case (Answered z j ms b')
    then show ?thesis using answered_inv [OF assms(1,3,4) _ _ inv nc] n' by (intro exI [of _ n']) simp
  next
    case (Expired rd)
    then show ?thesis using expired_inv [OF inv] n' by (intro exI [of _ n']) simp
  qed
qed

lemma sys_inv_init:
  assumes "guard_sound (w_guard w) (vos (w_os w))" "counter_value (r_get api (w_rd w) (genKey t)) = Some n"
    and "no_answers api (w_rd w)" "view v = []"
  shows "sys_inv vos (vos (w_os w)) api view s t n (sys_init k w v)"
  using assms conc_inv_init [where vos = vos and w = w and n = k]
  by (simp add: sys_inv_def sys_init_def conc_init_def cover_inv_def keys_inv_def log_inv_def redis_inv_def
      sem_inv_def no_answers_def)

end
