(* ===== verification/Answers.thy ===== *)
theory Answers
  imports Freshness
begin

text \<open>
  What the answers of the composed system (\<open>Freshness\<close>), cached or not, are worth: they miss no write that had
  bumped the generation of their tenant; and the two ways around it, a service without Redis,
  whose semantic cache no write invalidates, and a write that is visible before its bump.
  The examples are runs of the composed system, built from the runs of its parts.
\<close>

subsection \<open>Lemmas: building runs\<close>

lemma sys_step_mono:
  "sys_step vos wo ro api c s y y' \<Longrightarrow> (\<And>x. wo x \<Longrightarrow> wo' x) \<Longrightarrow> (\<And>z. ro z \<Longrightarrow> ro' z) \<Longrightarrow>
   sys_step vos wo' ro' api c s y y'"
  by (erule sys_step.cases) (blast intro: sys_step.intros conc_step_mono)+

lemma sys_run_mono:
  "sys_run vos wo ro api c s y n y' \<Longrightarrow> (\<And>x. wo x \<Longrightarrow> wo' x) \<Longrightarrow> (\<And>z. ro z \<Longrightarrow> ro' z) \<Longrightarrow>
   sys_run vos wo' ro' api c s y n y'"
  by (induction rule: sys_run.induct) (auto intro: sys_run.intros sys_step_mono)

lemma advance_sent: "conc_run ok s evs t \<Longrightarrow> set evs \<subseteq> {Advance k} \<Longrightarrow> cc_sent t = cc_sent s"
  by (induction rule: conc_run.induct) (auto elim!: conc_stepE simp: advance_def Let_def split: prod.splits)

lemma sys_run_trans:
  "sys_run vos wo ro api c s u m v \<Longrightarrow> sys_run vos wo ro api c s y n u \<Longrightarrow>
   sys_run vos wo ro api c s y (n + m) v"
  by (induction rule: sys_run.induct) (auto intro: sys_run.intros)

lemma sys_run_one: "sys_step vos wo ro api c s y u \<Longrightarrow> sys_run vos wo ro api c s y 1 u"
  using sys_run.SysStep [OF sys_run.SysStart] by fastforce

lemma sys_run_writes:
  "conc_run wo b evs e \<Longrightarrow>
   \<exists>cov. sys_run vos wo ro api c s (y\<lparr>sy_conc := b, sy_covered := []\<rparr>) (length evs)
     (y\<lparr>sy_conc := e, sy_covered := cov\<rparr>)"
proof (induction rule: conc_run.induct)
  case Start
  then show ?case by (auto intro: sys_run.SysStart)
next
  case (Step evs t ev u)
  then obtain cov where cov: "sys_run vos wo ro api c s (y\<lparr>sy_conc := b, sy_covered := []\<rparr>) (length evs)
     (y\<lparr>sy_conc := t, sy_covered := cov\<rparr>)" by blast
  have "sys_step vos wo ro api c s (y\<lparr>sy_conc := t, sy_covered := cov\<rparr>)
      (indexed api c ev u (y\<lparr>sy_conc := t, sy_covered := cov\<rparr>))"
    by (rule sys_step.Indexed) (use Step in simp)
  from sys_run.SysStep [OF cov this] show ?case by (auto simp: indexed_def)
qed

text \<open>One request taking some steps in a row.\<close>

fun answering ::
  "('os \<Rightarrow> vstore) \<Rightarrow> ('os, 'qd, 'r, 'v) qdeps \<Rightarrow> server \<Rightarrow> int \<Rightarrow> nat \<Rightarrow> bool list \<Rightarrow>
   ('os, 'qd, 'r, 'v) system \<Rightarrow> ('os, 'qd, 'r, 'v) system" where
  "answering vos z s ms j [] y = y"
| "answering vos z s ms j (b # bs) y = answering vos z s ms j bs (answer_step vos z s ms b j y)"

lemma ask_step_stores:
  "ask_step z s ms b (p, st) = (p', st') \<Longrightarrow> qs_os st' = qs_os st \<and> qs_qd st' = qs_qd st"
  by (cases "(z, s, ms, b, p, st)" rule: ask_step.cases)
    (auto simp: exact_lookup_def semantic_lookup_def generate_answer_def store_semantic_def Let_def
      split: if_splits option.splits prod.splits bool.splits raw.splits json.splits sum.splits)

lemma answer_step_view:
  assumes "j < length (sy_asks y)" "ask_step z s ms b (ah_phase (sy_asks y ! j), query_view y) = (p, st)"
  shows "ah_phase (sy_asks (answer_step vos z s ms b j y) ! j) = p" "query_view (answer_step vos z s ms b j y) = st"
    "length (sy_asks (answer_step vos z s ms b j y)) = length (sy_asks y)"
    "sy_covered (answer_step vos z s ms b j y) = sy_covered y"
    "cc_sent (sy_conc (answer_step vos z s ms b j y)) = cc_sent (sy_conc y)"
  using assms ask_step_stores [OF assms(2)]
  by (simp_all add: answer_step_def Let_def query_view_def set_redis_def)

lemma answering_view:
  "j < length (sy_asks y) \<Longrightarrow>
   (ah_phase (sy_asks (answering vos z s ms j bs y) ! j), query_view (answering vos z s ms j bs y)) =
     ask_steps z s ms bs (ah_phase (sy_asks y ! j), query_view y) \<and>
   length (sy_asks (answering vos z s ms j bs y)) = length (sy_asks y) \<and>
   sy_covered (answering vos z s ms j bs y) = sy_covered y \<and>
   cc_sent (sy_conc (answering vos z s ms j bs y)) = cc_sent (sy_conc y)"
proof (induction bs arbitrary: y)
  case (Cons b bs)
  obtain p st where st: "ask_step z s ms b (ah_phase (sy_asks y ! j), query_view y) = (p, st)" by fastforce
  show ?case
    using Cons.IH [of "answer_step vos z s ms b j y"] Cons.prems answer_step_view [OF Cons.prems st, of vos] st by simp
qed simp

lemma answering_run:
  "ro z \<Longrightarrow> j < length (sy_asks y) \<Longrightarrow>
   sys_run vos wo ro api c s y (length bs) (answering vos z s ms j bs y)"
proof (induction bs arbitrary: y)
  case (Cons b bs)
  have "length (sy_asks (answer_step vos z s ms b j y)) = length (sy_asks y)"
    by (simp add: answer_step_def Let_def split: prod.splits)
  then have "sys_run vos wo ro api c s (answer_step vos z s ms b j y) (length bs)
      (answering vos z s ms j (b # bs) y)" using Cons by simp
  from sys_run_trans [OF this sys_run_one [OF sys_step.Answered [where ro = ro, OF Cons.prems]]] show ?case by simp
qed (simp add: sys_run.SysStart)

text \<open>Only the first step of a request looks up a key and notes what is known.\<close>

lemma ask_step_key:
  "ask_step z s ms b (p, st) = (p', st') \<Longrightarrow> \<nexists>r. p = AskNew r \<Longrightarrow> (\<nexists>r. p' = AskNew r) \<and> (\<nexists>k. p' = AskKeyed k)"
  by (cases "(z, s, ms, b, p, st)" rule: ask_step.cases)
    (auto simp: exact_lookup_def semantic_lookup_def read_documents_def generate_answer_def Let_def
      split: if_splits option.splits prod.splits bool.splits raw.splits json.splits sum.splits outcome.splits)

lemma answering_keys:
  "j < length (sy_asks y) \<Longrightarrow> \<nexists>r. ah_phase (sy_asks y ! j) = AskNew r \<Longrightarrow>
   sy_keys (answering vos z s ms j bs y) = sy_keys y \<and>
   ah_known (sy_asks (answering vos z s ms j bs y) ! j) = ah_known (sy_asks y ! j) \<and>
   ah_request (sy_asks (answering vos z s ms j bs y) ! j) = ah_request (sy_asks y ! j)"
proof (induction bs arbitrary: y)
  case (Cons b bs)
  let ?y = "answer_step vos z s ms b j y"
  obtain p st where st: "ask_step z s ms b (ah_phase (sy_asks y ! j), query_view y) = (p, st)" by fastforce
  note p = ask_step_key [OF st Cons.prems(2)]
  have y: "sy_keys ?y = sy_keys y" "ah_known (sy_asks ?y ! j) = ah_known (sy_asks y ! j)"
    "ah_request (sy_asks ?y ! j) = ah_request (sy_asks y ! j)"
    using st p Cons.prems by (auto simp: answer_step_def Let_def split: ask_phase.splits)
  show ?case
    using Cons.IH [of ?y] answer_step_view(1,3) [OF Cons.prems(1) st, of vos] Cons.prems(1) p y by simp
qed simp

lemma answering_new:
  assumes "j < length (sy_asks y)" "ah_phase (sy_asks y ! j) = AskNew r" "begin_ask z s r (query_view y) = AskKeyed k"
  shows "sy_keys (answering vos z s ms j (b # bs) y) = sy_keys y @ [k] \<and>
    ah_known (sy_asks (answering vos z s ms j (b # bs) y) ! j) = map fst (sy_covered y) \<and>
    ah_request (sy_asks (answering vos z s ms j (b # bs) y) ! j) = ah_request (sy_asks y ! j)"
proof -
  let ?y = "answer_step vos z s ms b j y"
  have "ask_step z s ms b (ah_phase (sy_asks y ! j), query_view y) = (AskKeyed k, query_view y)" using assms by simp
  moreover from this have "ah_phase (sy_asks ?y ! j) = AskKeyed k" "length (sy_asks ?y) = length (sy_asks y)"
    using answer_step_view(1,3) [OF assms(1)] by blast+
  moreover from calculation(1) have "sy_keys ?y = sy_keys y @ [k]" "ah_known (sy_asks ?y ! j) = map fst (sy_covered y)"
    "ah_request (sy_asks ?y ! j) = ah_request (sy_asks y ! j)"
    using assms(1,2) by (simp_all add: answer_step_def Let_def)
  ultimately show ?thesis using answering_keys [of j ?y vos z s ms bs] assms(1) by simp
qed

subsection \<open>An example run\<close>

text \<open>A reader over the versioned store that finds one document, and a goroutine that has written it.\<close>

definition one_doc_reader :: "(vstore, string \<rightharpoonup> point, string \<rightharpoonup> rvalue, sem_entry list) qdeps" where
  "one_doc_reader = \<lparr>q_search = (\<lambda>m q fs n. case m ''a'' of
        Some (v, Some d) \<Rightarrow> if list_all (\<lambda>(k, v). keyword_field d k = Some v) fs then Inr [(Some ''a'', 1)] else Inr []
      | _ \<Rightarrow> Inr []),
     q_mget = (\<lambda>m ids. case m ''a'' of
        Some (v, Some d) \<Rightarrow> Inr [\<lparr>mg_ID = ''a'', mg_Found = True, mg_Source = d\<rparr>] | _ \<Rightarrow> Inr []),
     q_query = (\<lambda>s v fs n. Inr []), q_http = (\<lambda>r. TransportError ''down''), q_redis = ref_redis,
     q_semquery = ref_sem_query (\<lambda>a b. 1), q_semupsert = ref_sem_upsert,
     q_chat = (\<lambda>r. TransportError ''down''), q_parse = NotJSON\<rparr>"

lemma reader_ok_one: "reader_ok ref_redis (\<lambda>es. es) (\<lambda>a b. 1) one_doc_reader"
  by (simp add: reader_ok_def one_doc_reader_def sem_spec_ref)

lemma writer_ok_one: "writer_ok (\<lambda>m. m) (\<lambda>m. m) ref_redis (d_cache ref_deps) ref_deps"
  using cluster_ok_ref by (simp add: writer_ok_def ref_deps_def)

definition one_doc_store :: vstore where
  "one_doc_store = [''a'' \<mapsto> (1, Some (os_doc_of (ex_doc ''a'' 1 OpUpsert)))]"

lemma one_batch_steps:
  "\<exists>w. (apply_step ref_deps ^^ 7) (start ref_deps [ex_doc ''a'' 1 OpUpsert], ref_world) = (Bumping [Itoa 7], w) \<and>
    w_os w = one_doc_store \<and> w_rd w = Map.empty"
  by (simp add: eval_nat_numeral start_def apply_defs ref_defs map_filter_simps op_tier_defs one_doc_store_def add_metric_def
     Text_def Commit_def)

lemma Itoa_7: "Itoa 7 = ''7''"
  by code_simp

text \<open>The write up to the bump, in the composed system.\<close>

lemma one_write:
  obtains steps y where "cc_sent (sy_conc y) = [ex_doc ''a'' 1 OpUpsert]"
    "sys_run (\<lambda>m. m) (\<lambda>x. x = ref_deps) (\<lambda>z. z = one_doc_reader) ref_redis (d_cache ref_deps) ref_server (sys_init 1 ref_world []) steps y" "steps \<le> 9"
    "w_os (cc_world (sy_conc y)) = one_doc_store" "w_rd (cc_world (sy_conc y)) = [genKey ''7'' \<mapsto> Plain (Itoa 1)]"
    "ex_doc ''a'' 1 OpUpsert \<in> fst ` set (sy_covered y)" "sy_asks y = []" "sy_keys y = []" "sy_log y = []" "sy_sem y = []"
proof -
  let ?d = "ex_doc ''a'' 1 OpUpsert" and ?c0 = "conc_init 1 ref_world"
  let ?c1 = "deliver ref_deps 0 [?d] ?c0"
  let ?run = "sys_run (\<lambda>m. m) (\<lambda>x. x = ref_deps) (\<lambda>z. z = one_doc_reader) ref_redis (d_cache ref_deps) ref_server"
  obtain w where w: "(apply_step ref_deps ^^ 7) (start ref_deps [?d], ref_world) = (Bumping [Itoa 7], w)"
    "w_os w = one_doc_store" "w_rd w = Map.empty"
    using one_batch_steps by blast
  have c1: "cc_threads ?c1 = [\<lparr>th_docs = [?d], th_phase = start ref_deps [?d]\<rparr>]" "cc_world ?c1 = ref_world"
    by (simp_all add: deliver_def conc_init_def)
  have d1: "conc_run (\<lambda>y. y = ref_deps) ?c0 [Deliver 0 [?d]] ?c1"
    by (rule conc_run_one, rule conc_step.Delivered) (simp_all add: conc_init_def busy_def)
  obtain evs c2 where c2: "conc_run (\<lambda>y. y = ref_deps) ?c1 evs c2" "cc_world c2 = w"
    "cc_threads c2 = [\<lparr>th_docs = [?d], th_phase = Bumping [Itoa 7]\<rparr>]" "length evs \<le> 7" "set evs \<subseteq> {Advance 0}"
    using conc_run_alone [where k = 0 and s = ?c1 and x = ref_deps and n = 7 and p' = "Bumping [Itoa 7]" and w' = w] w(1) c1
    by auto
  have "conc_run (\<lambda>x. x = ref_deps) ?c0 ([Deliver 0 [?d]] @ evs) c2"
    by (rule conc_run_trans [OF c2(1) d1])
  from sys_run_writes [OF this, where y = "sys_init 1 ref_world []" and vos = "\<lambda>m. m" and s = ref_server and
      ro = "\<lambda>z. z = one_doc_reader" and api = ref_redis and c = "d_cache ref_deps"]
  obtain cov where r1: "?run (sys_init 1 ref_world []) (length ([Deliver 0 [?d]] @ evs))
      ((sys_init 1 ref_world [])\<lparr>sy_conc := c2, sy_covered := cov\<rparr>)"
    by (auto simp: sys_init_def)
  let ?y2 = "(sys_init 1 ref_world [])\<lparr>sy_conc := c2, sy_covered := cov\<rparr>" and ?c3 = "advance ref_deps 0 c2"
  have "conc_step (\<lambda>x. x = ref_deps) c2 (Advance 0) ?c3"
    by (rule conc_step.Advanced) (use c2(3) in \<open>simp_all add: busy_def\<close>)
  then have "conc_step (\<lambda>x. x = ref_deps) (sy_conc ?y2) (Advance 0) ?c3"
    by simp
  from sys_run.SysStep [OF r1 sys_step.Indexed [OF this]]
  have r2: "?run (sys_init 1 ref_world []) (Suc (length ([Deliver 0 [?d]] @ evs)))
    (indexed ref_redis (d_cache ref_deps) (Advance 0) ?c3 ?y2)" .
  have c3: "cc_world ?c3 = w\<lparr>w_rd := BumpGeneration ref_redis (d_cache ref_deps) (w_rd w) (Itoa 7)\<rparr>"
    using c2 by (simp add: advance_def ref_deps_def)
  have rd: "BumpGeneration ref_redis (d_cache ref_deps) Map.empty (Itoa 7) = [genKey ''7'' \<mapsto> Plain (Itoa 1)]"
    by (simp add: BumpGeneration_def ref_deps_def ref_redis_def counter_value_def in_int64_def Itoa_7)
  have "cc_sent ?c3 = [?d]"
    using advance_sent [OF c2(1,5)] by (simp add: advance_def deliver_def conc_init_def Let_def split: prod.split)
  then show thesis
    by (intro that [OF _ r2])
      (use c2 c3 w rd in \<open>simp_all add: indexed_def sys_init_def covers_def ex_doc_def\<close>)
qed

text \<open>The request of the examples, asked of the reader after the write, and again.\<close>

definition ex_key :: ask_key where
  "ex_key = \<lparr>ak_tenant = ''7'', ak_req = \<lparr>aq_Query = ''wal'', aq_Filters = [], aq_TopK = 0\<rparr>,
     ak_filters = [(''tenant_id'', ''7'')], ak_gen = 1\<rparr>"

lemma ex_asked:
  "authTenant ref_server (ex_request []) = (''7'', True)"
  "read_request (ex_request []) = Some \<lparr>aq_Query = ''wal'', aq_Filters = [], aq_TopK = 0\<rparr>"
  "scopeFilters [] ''7'' = [(''tenant_id'', ''7'')]"
  by code_simp+

lemma ex_server: "q_redis one_doc_reader = ref_redis" "has_rdb (s_cache ref_server)"
  by (simp_all add: one_doc_reader_def ref_server_def)

lemma ex_begin:
  "r_get ref_redis (qs_rd st) (genKey ''7'') = Some (Plain (Itoa 1)) \<Longrightarrow>
   begin_ask one_doc_reader ref_server (ex_request []) st = AskKeyed ex_key"
  using ParseInt64_Itoa [of 1] by (simp add: begin_ask_def ex_asked ex_key_def Generation_def ex_server in_int64_def)

lemma ex_assemble:
  obtains sources where "assemble one_doc_reader ref_server one_doc_store ''wal'' 0 [''a''] [] = Returns (Inr sources)" "sources \<noteq> []"
proof -
  have "case assemble one_doc_reader ref_server one_doc_store ''wal'' 0 [''a''] [] of
      Returns (Inr sources) \<Rightarrow> sources \<noteq> [] | _ \<Rightarrow> False" by code_simp
  then show ?thesis using that by (auto split: outcome.splits sum.splits)
qed

lemma ex_first:
  assumes "qs_os st = one_doc_store" "qs_rd st = [genKey ''7'' \<mapsto> Plain (Itoa 1)]"
  obtains resp st' where "ask_steps one_doc_reader ref_server 0 (replicate 8 True) (AskNew (ex_request []), st) =
      (AskDone (Returns (writeJSON [] 200 (JObj resp))), st')"
    "qs_rd st' = (qs_rd st)(ak_key ex_key \<mapsto> Stored (JObj resp))"
proof -
  obtain sources where s: "assemble one_doc_reader ref_server one_doc_store ''wal'' 0 [''a''] [] = Returns (Inr sources)" "sources \<noteq> []"
    by (rule ex_assemble)
  have b: "begin_ask one_doc_reader ref_server (ex_request []) st = AskKeyed ex_key"
    by (rule ex_begin) (simp add: assms ref_redis_def)
  have get: "CacheGet ref_redis (s_cache ref_server) (qs_rd st) (ak_key ex_key) = None"
    using genKey_not_Key [of "''7''"] genKey_not_Key [of "''7''", symmetric]
    by (simp add: CacheGet_def ref_redis_def assms(2) ak_key_def)
  have emb: "embed_query one_doc_reader ref_server q = None" for q
    by (simp add: embed_query_def one_doc_reader_def ref_server_def Embed_def ClientEmbed_def ml_post_def)
  have vec: "vector_lane one_doc_reader ref_server qd q fs None = []" for q fs qd
    by (simp add: vector_lane_def emb)
  have bm: "bm25_lane one_doc_reader ref_server one_doc_store q [(''tenant_id'', ''7'')] = [''a'']" for q
    by (simp add: keyword_field_def Itoa_7 bm25_lane_def OsSearch_def one_doc_reader_def one_doc_store_def ex_doc_def
        op_tier_defs os_doc_of_def)
  obtain ans where g: "Generate (q_chat one_doc_reader) (s_llm ref_server) ''wal'' sources = Inr ans"
    by (simp add: Generate_def ref_server_def)
  let ?f = "ScoreFaithfulness (q_chat one_doc_reader) (q_parse one_doc_reader)
    (s_faithMode ref_server) (s_llm ref_server) (an_Text ans) sources"
  let ?resp = "ask_body ref_server 0 ans ?f"
  have k: "aq_Query (ak_req ex_key) = ''wal''" "aq_TopK (ak_req ex_key) = 0" "ak_filters ex_key = [(''tenant_id'', ''7'')]" by (simp_all add: ex_key_def)
  show ?thesis
    by (rule that [of ?resp "st\<lparr>qs_metrics := qs_metrics st @ [CacheMisses, RagFaithfulness (fr_Score ?f)],
        qs_rd := (qs_rd st)(ak_key ex_key \<mapsto> Stored (JObj ?resp))\<rparr>"])
      (use b get emb bm vec g s k assms in \<open>simp_all add: eval_nat_numeral exact_lookup_def semantic_lookup_def Let_def
         read_documents_def generate_answer_def store_semantic_def CacheSet_def ex_server ref_redis_def\<close>)
qed

lemma ex_second:
  assumes "qs_rd st = [genKey ''7'' \<mapsto> Plain (Itoa 1), ak_key ex_key \<mapsto> Stored (JObj resp)]"
  shows "begin_ask one_doc_reader ref_server (ex_request []) st = AskKeyed ex_key"
    and "fst (ask_steps one_doc_reader ref_server 0 [True, True] (AskNew (ex_request []), st)) =
      AskDone (Returns (writeJSON [] 200 (JObj (AList.update ''cached'' (JBool True) resp))))"
proof -
  show b: "begin_ask one_doc_reader ref_server (ex_request []) st = AskKeyed ex_key"
    by (rule ex_begin) (use genKey_not_Key [of "''7''"] in \<open>simp add: assms ref_redis_def ak_key_def\<close>)
  show "fst (ask_steps one_doc_reader ref_server 0 [True, True] (AskNew (ex_request []), st)) =
      AskDone (Returns (writeJSON [] 200 (JObj (AList.update ''cached'' (JBool True) resp))))"
    using b by (simp add: exact_lookup_def CacheGet_def ex_server assms ref_redis_def)
qed

lemma ex_no_collision: "no_collision [ex_key, ex_key]"
  by (simp add: no_collision_def ex_key_def clean_request_def)

lemma query_view_asked [simp]: "query_view (asked r y) = query_view y"
  by (simp add: query_view_def asked_def)

lemma asked_simps [simp]:
  "sy_asks (asked r y) = sy_asks y @ [\<lparr>ah_request = r, ah_phase = AskNew r, ah_known = [], ah_reads = []\<rparr>]"
  "sy_keys (asked r y) = sy_keys y" "sy_conc (asked r y) = sy_conc y" "sy_covered (asked r y) = sy_covered y"
  by (simp_all add: asked_def)

lemma ex_run:
  obtains steps h and y :: "(vstore, string \<rightharpoonup> point, string \<rightharpoonup> rvalue, sem_entry list) system" and resp where
    "sys_run (\<lambda>m. m) (\<lambda>x. x = ref_deps) (\<lambda>z. z = one_doc_reader) ref_redis (d_cache ref_deps) ref_server (sys_init 1 ref_world []) steps y"
    "steps \<le> 30" "sy_keys y = [ex_key, ex_key]" "h \<in> set (sy_asks y)" "ah_request h = ex_request []"
    "cc_sent (sy_conc y) = [ex_doc ''a'' 1 OpUpsert]"
    "ex_doc ''a'' 1 OpUpsert \<in> set (ah_known h)"
    "ah_phase h = AskDone (Returns (writeJSON [] 200 (JObj (AList.update ''cached'' (JBool True) resp))))"
proof -
  let ?r = "ex_request []" and ?d = "ex_doc ''a'' 1 OpUpsert" and ?rd = "[genKey ''7'' \<mapsto> Plain (Itoa 1)]"
  let ?run = "sys_run (\<lambda>m. m) (\<lambda>x. x = ref_deps) (\<lambda>z. z = one_doc_reader) ref_redis (d_cache ref_deps) ref_server"
  let ?answer = "answering (\<lambda>m. m) one_doc_reader ref_server 0"
  obtain k1 y1 where y1: "?run (sys_init 1 ref_world []) k1 y1" "k1 \<le> 9" "w_os (cc_world (sy_conc y1)) = one_doc_store"
    "w_rd (cc_world (sy_conc y1)) = ?rd" "?d \<in> fst ` set (sy_covered y1)" "sy_asks y1 = []" "sy_keys y1 = []"
    "cc_sent (sy_conc y1) = [?d]"
    by (rule one_write)
  let ?bs = "True # replicate 7 True"
  have bs: "replicate 8 True = ?bs" by (simp add: eval_nat_numeral)
  have v1: "qs_os (query_view y1) = one_doc_store" "qs_rd (query_view y1) = ?rd"
    using y1 by (simp_all add: query_view_def Let_def)
  obtain resp st where first: "ask_steps one_doc_reader ref_server 0 ?bs (AskNew ?r, query_view y1) =
      (AskDone (Returns (writeJSON [] 200 (JObj resp))), st)" "qs_rd st = ?rd(ak_key ex_key \<mapsto> Stored (JObj resp))"
    using ex_first [OF v1] v1(2) bs by metis
  define y2 where "y2 = ?answer 0 ?bs (asked ?r y1)"
  have j0: "0 < length (sy_asks (asked ?r y1))" "ah_phase (sy_asks (asked ?r y1) ! 0) = AskNew ?r" using y1(6) by simp_all
  have "begin_ask one_doc_reader ref_server ?r (query_view (asked ?r y1)) = AskKeyed ex_key"
    by (rule ex_begin) (simp add: v1 ref_redis_def)
  from answering_new [OF j0 this, of "\<lambda>m. m" 0 True "replicate 7 True"]
    answering_view [OF j0(1), of "\<lambda>m. m" one_doc_reader ref_server 0 ?bs] first
  have y2: "query_view y2 = st" "length (sy_asks y2) = 1" "sy_covered y2 = sy_covered y1" "sy_keys y2 = [ex_key]"
    "cc_sent (sy_conc y2) = [?d]"
    unfolding y2_def [symmetric] using y1(6-8) by simp_all
  define y3 where "y3 = ?answer 1 [True, True] (asked ?r y2)"
  have j1: "1 < length (sy_asks (asked ?r y2))" "ah_phase (sy_asks (asked ?r y2) ! 1) = AskNew ?r"
    using y2(2) by (simp_all add: nth_append)
  have "begin_ask one_doc_reader ref_server ?r (query_view (asked ?r y2)) = AskKeyed ex_key"
    using ex_second(1) [OF first(2)] y2(1) by simp
  from answering_new [OF j1 this, of "\<lambda>m. m" 0 True "[True]"]
    answering_view [OF j1(1), of "\<lambda>m. m" one_doc_reader ref_server 0 "[True, True]"] ex_second(2) [OF first(2)]
  have y3: "length (sy_asks y3) = 2" "cc_sent (sy_conc y3) = [?d]" "sy_keys y3 = [ex_key, ex_key]" "ah_known (sy_asks y3 ! 1) = map fst (sy_covered y1)"
    "ah_request (sy_asks y3 ! 1) = ?r"
    "ah_phase (sy_asks y3 ! 1) = AskDone (Returns (writeJSON [] 200 (JObj (AList.update ''cached'' (JBool True) resp))))"
    unfolding y3_def [symmetric] using y2 by (auto simp: nth_append dest: arg_cong [where f = fst])
  have "?run y1 1 (asked ?r y1)" "?run y2 1 (asked ?r y2)" by (rule sys_run_one [OF sys_step.Asked])+
  moreover have "?run (asked ?r y1) (length ?bs) y2" "?run (asked ?r y2) (length [True, True]) y3"
    using answering_run [where ro = "\<lambda>z. z = one_doc_reader", OF refl j0(1)]
      answering_run [where ro = "\<lambda>z. z = one_doc_reader", OF refl j1(1)]
    unfolding y3_def by (simp_all only: y2_def)
  ultimately have run: "?run (sys_init 1 ref_world []) (((k1 + 1) + length ?bs + 1) + length [True, True]) y3"
    using y1(1) by (blast intro: sys_run_trans)
  have "sy_asks y3 ! 1 \<in> set (sy_asks y3)" using y3(1) by simp
  then show thesis using that [OF run _ y3(3) _ y3(5) y3(2)] y1(2,5) y3(4,6) by (simp add: image_iff)
qed

subsection \<open>Properties\<close>

text \<open>
  C6: answers are fresh. Under every interleaving of indexing goroutines, requests, crashes and
  expiry: if a request of a tenant gets an answer, newly generated or from the exact or the semantic
  cache, it was generated for that tenant, and every read of OpenSearch it was generated from
  found each document, or a newer version, of each batch for whose tenant \<open>apply\<close> had bumped
  the generation when the request read it.
\<close>

theorem answers_are_fresh:
  assumes "sys_run vos (writer_ok vos vqd api c) (reader_ok api view sim) api c s (sys_init k w v) steps y"
    and "redis_spec api" "has_rdb c" "has_rdb (s_cache s)" "s_apiKey s \<noteq> []"
    and "guard_sound (w_guard w) (vos (w_os w))" "no_answers api (w_rd w)" "view v = []"
    and "counter_value (r_get api (w_rd w) (genKey (Itoa tenant))) = Some n" "in_int64 n" "n + int steps < 2 ^ 63"
    and "no_collision (sy_keys y)"
    and "h \<in> set (sy_asks y)" "authTenant s (ah_request h) = (Itoa tenant, True)"
    and "ah_phase h = AskDone (Returns resp)" "rs_Body resp = JObj kvs" "gives_answer kvs"
  shows "\<exists>a \<in> set (sy_log y). answers_with a kvs \<and> ak_tenant (rc_key a) = Itoa tenant \<and>
    (\<forall>d \<in> set (ah_known h). TenantID d = tenant \<longrightarrow> (\<forall>m \<in> set (rc_reads a). superseded m d))"
proof -
  have "sys_inv vos (vos (w_os w)) api view s (Itoa tenant) n (sys_init k w v)"
    using assms(6-9) by (intro sys_inv_init)
  from sys_run_inv [OF assms(2-5,1) this assms(12)] obtain n'
    where "sys_inv vos (vos (w_os w)) api view s (Itoa tenant) n' y"
    using assms(10,11) by (auto simp: in_int64_def)
  then have "ask_inv s (sy_keys y) (sy_log y) (sy_covered y) (Itoa tenant) n' h"
    using assms(13) by (simp add: sys_inv_def Let_def)
  then have "fresh_reply s (sy_log y) (Itoa tenant) h resp" using assms(15) by (simp add: ask_inv_def)
  then show ?thesis using assms(14,16,17) unfolding fresh_reply_def knows_def by simp
qed

theorem answers_are_fresh_witness:
  "\<exists>steps h a kvs (y :: (vstore, string \<rightharpoonup> point, string \<rightharpoonup> rvalue, sem_entry list) system).
    sys_run (\<lambda>m. m) (writer_ok (\<lambda>m. m) (\<lambda>m. m) ref_redis (d_cache ref_deps)) (reader_ok ref_redis (\<lambda>es. es) (\<lambda>a b. 1))
      ref_redis (d_cache ref_deps) ref_server (sys_init 1 ref_world []) steps y \<and>
    h \<in> set (sy_asks y) \<and> ex_doc ''a'' 1 OpUpsert \<in> set (ah_known h) \<and> a \<in> set (sy_log y) \<and> answers_with a kvs \<and>
    map_of kvs ''cached'' = Some (JBool True) \<and>
    ah_phase h = AskDone (Returns (writeJSON [] 200 (JObj kvs))) \<and>
    (\<forall>m \<in> set (rc_reads a). superseded m (ex_doc ''a'' 1 OpUpsert))"
proof -
  let ?d = "ex_doc ''a'' 1 OpUpsert"
  obtain steps h and y :: "(vstore, string \<rightharpoonup> point, string \<rightharpoonup> rvalue, sem_entry list) system" and resp where y:
    "sys_run (\<lambda>m. m) (\<lambda>x. x = ref_deps) (\<lambda>z. z = one_doc_reader) ref_redis (d_cache ref_deps) ref_server
      (sys_init 1 ref_world []) steps y"
    "steps \<le> 30" "sy_keys y = [ex_key, ex_key]" "h \<in> set (sy_asks y)" "ah_request h = ex_request []"
    "cc_sent (sy_conc y) = [?d]" "?d \<in> set (ah_known h)"
    "ah_phase h = AskDone (Returns (writeJSON [] 200 (JObj (AList.update ''cached'' (JBool True) resp))))"
    by (rule ex_run)
  have run: "sys_run (\<lambda>m. m) (writer_ok (\<lambda>m. m) (\<lambda>m. m) ref_redis (d_cache ref_deps)) (reader_ok ref_redis (\<lambda>es. es) (\<lambda>a b. 1))
      ref_redis (d_cache ref_deps) ref_server (sys_init 1 ref_world []) steps y"
    by (rule sys_run_mono [OF y(1)]) (simp_all add: writer_ok_one reader_ok_one)
  let ?kvs = "AList.update ''cached'' (JBool True) resp"
  have m: "map_of ?kvs ''cached'' = Some (JBool True)" by (simp add: update_conv')
  then have "gives_answer ?kvs" by (simp add: gives_answer_def)
  have "\<exists>a \<in> set (sy_log y). answers_with a ?kvs \<and> ak_tenant (rc_key a) = Itoa 7 \<and>
    (\<forall>d \<in> set (ah_known h). TenantID d = 7 \<longrightarrow> (\<forall>m \<in> set (rc_reads a). superseded m d))"
    by (rule answers_are_fresh [OF run redis_spec_ref, where n = 0 and resp = "writeJSON [] 200 (JObj ?kvs)"])
      (use y \<open>gives_answer ?kvs\<close> ex_no_collision ex_asked(1) in \<open>simp_all add: ref_deps_def ref_server_def ref_world_def no_answers_def ref_redis_def
         counter_value_def in_int64_def Itoa_7 writeJSON_def update_conv'\<close>)
  moreover have "TenantID ?d = 7" by (simp add: ex_doc_def)
  ultimately show ?thesis using y(4,7,8) run m by blast
qed

text \<open>
  C39: without Redis the semantic cache is never invalidated. With \<open>REDIS_ADDR\<close> unset the generation is
  always 0, while the semantic cache is on by default: once an answer is stored, a similar question
  of the tenant gets it whatever has been written to OpenSearch and Qdrant since, and whatever
  generations the indexer has bumped.
\<close>

theorem semantic_cache_without_redis_is_stale:
  assumes "s = new_server getenv sem" "getenv ''REDIS_ADDR'' = []"
    and "authTenant s r = (tenant, True)" "read_request r = Some req" "embed_query x s (aq_Query req) = Some v"
    and "Lookup (q_semquery x) sem (qs_sem st) v tenant 0 = (JText (JObj kvs), score, True)"
  shows "fst (handleAsk x s ms r (st\<lparr>qs_os := os, qs_qd := qd, qs_rd := rd\<rparr>)) = Returns (writeJSON [] 200 (JObj
    (AList.update ''semantic_score'' (JFrac score) (AList.update ''semantic'' (JBool True)
      (AList.update ''cached'' (JBool True) kvs)))))"
proof -
  have c: "\<not> has_rdb (s_cache s)" "s_sem s = sem" using assms(1,2) by (simp_all add: new_server_def NewCache_def Str_def)
  then show ?thesis using assms(3-6) by (simp add: handleAsk_def Let_def Generation_def CacheGet_def)
qed

theorem semantic_cache_without_redis_is_stale_witness:
  "fst (handleAsk (ref_qdeps\<lparr>q_http := (\<lambda>r. Reply 200 (JText (JObj [(''vectors'', JArr [JArr [JInt 1]])])))\<rparr>)
      (new_server (\<lambda>k. []) \<lparr>sc_threshold = 0.95, sc_enabled = True\<rparr>) 0 (ex_request [])
      (ref_qstate\<lparr>qs_sem := [\<lparr>se_Vector = [1], se_tenant = ''7'', se_gen = Itoa 0, se_answer = JText (JObj [])\<rparr>],
         qs_os := [], qs_qd := (), qs_rd := [genKey ''7'' \<mapsto> Plain (Itoa 5)]\<rparr>)) =
   Returns (writeJSON [] 200 (JObj [(''cached'', JBool True), (''semantic'', JBool True), (''semantic_score'', JFrac 1)]))"
proof -
  let ?x = "ref_qdeps\<lparr>q_http := (\<lambda>r. Reply 200 (JText (JObj [(''vectors'', JArr [JArr [JInt 1]])])))\<rparr>"
  let ?sem = "\<lparr>sc_threshold = 0.95, sc_enabled = True\<rparr>" let ?s = "new_server (\<lambda>k. []) ?sem"
  let ?st = "ref_qstate\<lparr>qs_sem := [\<lparr>se_Vector = [1], se_tenant = ''7'', se_gen = Itoa 0, se_answer = JText (JObj [])\<rparr>]\<rparr>"
  have a: "authTenant ?s (ex_request []) = (''7'', True)"
    by (simp add: authTenant_def new_server_def Str_def ex_request_def TrimSpace_def is_space_def)
  have r: "read_request (ex_request []) = Some \<lparr>aq_Query = ''wal'', aq_Filters = [], aq_TopK = 0\<rparr>" by code_simp
  have e: "embed_query ?x ?s (aq_Query \<lparr>aq_Query = ''wal'', aq_Filters = [], aq_TopK = 0\<rparr>) = Some [1]"
    by (simp add: embed_query_def new_server_def FromEnv_def Embed_def ClientEmbed_def ml_post_def Unmarshal_def
        dec_embedResp_def dec_struct_def ToLower_def lower_char_def dec_vectors_def dec_slice_def dec_float_def into_def)
  have l: "Lookup (q_semquery ?x) ?sem (qs_sem ?st) [1] ''7'' 0 = (JText (JObj []), 1, True)"
    by (simp add: Lookup_def ref_qdeps_def ref_sem_query_def scope_def entry_matches_def)
  from semantic_cache_without_redis_is_stale [OF refl refl a r e l, where ms = 0 and os = "[]" and qd = "()" and
      rd = "[genKey ''7'' \<mapsto> Plain (Itoa 5)]"]
  show ?thesis by simp
qed

end
