(* ===== verification/Isolation.thy ===== *)
theory Isolation
  imports Answers
begin

text \<open>
  Tenants in the composed system (\<open>Freshness\<close>): what a reply of \<open>/ask\<close> (\<open>cmd/query/main.go\<close>) can show of other
  tenants while documents are written, searches lag and answers are cached. The proof
  is in the rely-guarantee manner: the indexing goroutines keep the points' tenants integers
  and store documents of the run only (\<open>points_inv\<close>, \<open>docs_in\<close>), and under that every access of a
  request keeps what it holds to its tenant (\<open>ask_iso\<close>). The hypothesis that a document stays with
  one tenant is needed: the last theorem is the leak without it.
\<close>

subsection \<open>Specification\<close>

text \<open>The live document of an id in OpenSearch.\<close>

definition live_doc :: "vstore \<Rightarrow> string \<Rightarrow> os_doc option" where
  "live_doc m i = (case m i of None \<Rightarrow> None | Some (v, x) \<Rightarrow> x)"

text \<open>The documents of a run: each is stored under its id, and each id has one tenant.\<close>

definition docs_in :: "os_doc set \<Rightarrow> vstore \<Rightarrow> bool" where
  "docs_in D m \<longleftrightarrow> (\<forall>i d. live_doc m i = Some d \<longrightarrow> d \<in> D \<and> os_DocID d = i)"

definition one_tenant :: "os_doc set \<Rightarrow> bool" where
  "one_tenant D \<longleftrightarrow> (\<forall>d \<in> D. \<forall>e \<in> D. os_DocID d = os_DocID e \<longrightarrow> os_TenantID d = os_TenantID e)"

text \<open>
  A search sees the index as of some earlier refresh: its hits are documents of the run, maybe in an
  older version, that meet the filters on keyword fields.
\<close>

definition history_search :: "os_doc set \<Rightarrow> ('os \<Rightarrow> vstore) \<Rightarrow> 'os search_api \<Rightarrow> bool" where
  "history_search D vos api \<longleftrightarrow>
     (\<forall>m q fs n hits h. docs_in D (vos m) \<and> api m q fs n = Inr hits \<and> h \<in> set hits \<longrightarrow>
        (\<exists>d \<in> D. fst h = Some (os_DocID d) \<and> (\<forall>(k, v) \<in> set fs. \<forall>w. keyword_field d k = Some w \<longrightarrow> w = v)))"

text \<open>Whatever a call of the vector store returns, it adds no points but those it was given.\<close>

definition points_kept :: "('qd \<Rightarrow> string \<rightharpoonup> point) \<Rightarrow> ('os, 'qd, 'r) deps \<Rightarrow> bool" where
  "points_kept vqd x \<longleftrightarrow>
     (\<forall>q ps r q'. d_upsert x q ps = (r, q') \<longrightarrow> ran (vqd q') \<subseteq> ran (vqd q) \<union> set ps) \<and>
     (\<forall>q cs r q'. d_delete x q cs = (r, q') \<longrightarrow> ran (vqd q') \<subseteq> ran (vqd q))"

definition scoped_writer ::
  "('os \<Rightarrow> vstore) \<Rightarrow> ('qd \<Rightarrow> string \<rightharpoonup> point) \<Rightarrow> 'r redis \<Rightarrow> cache \<Rightarrow> ('os, 'qd, 'r) deps \<Rightarrow> bool" where
  "scoped_writer vos vqd api c x \<longleftrightarrow> writer_ok vos vqd api c x \<and> points_kept vqd x"

definition scoped_reader ::
  "os_doc set \<Rightarrow> ('os \<Rightarrow> vstore) \<Rightarrow> ('qd \<Rightarrow> string \<rightharpoonup> point) \<Rightarrow> 'r redis \<Rightarrow> ('v \<Rightarrow> sem_entry list) \<Rightarrow>
   (real list \<Rightarrow> real list \<Rightarrow> real) \<Rightarrow> ('os, 'qd, 'r, 'v) qdeps \<Rightarrow> bool" where
  "scoped_reader D vos vqd api view sim z \<longleftrightarrow>
     reader_ok api view sim z \<and> history_search D vos (q_search z) \<and>
     mget_spec (q_mget z) (\<lambda>m. live_doc (vos m)) \<and> query_spec (q_query z) vqd"

text \<open>A source that shows a document of the tenant as one of the reads found it.\<close>

definition own_source :: "string \<Rightarrow> vstore list \<Rightarrow> rag_source \<Rightarrow> bool" where
  "own_source t ms src \<longleftrightarrow>
     (\<exists>m \<in> set ms. \<exists>d n. live_doc m (os_DocID d) = Some d \<and> os_TenantID d = t \<and> src = source_of n (stored_of d))"

text \<open>An answer that was generated from the sources noted with it.\<close>

definition answer_of :: "server \<Rightarrow> stored_answer \<Rightarrow> bool" where
  "answer_of s a \<longleftrightarrow>
     (\<exists>chat parse ms ans. Generate chat (s_llm s) (aq_Query (ak_req (rc_key a))) (rc_sources a) = Inr ans \<and>
        rc_body a = ask_body s ms ans
          (ScoreFaithfulness chat parse (s_faithMode s) (s_llm s) (an_Text ans) (rc_sources a)))"

definition own_answer :: "server \<Rightarrow> string \<Rightarrow> stored_answer \<Rightarrow> bool" where
  "own_answer s t a \<longleftrightarrow>
     ak_tenant (rc_key a) = t \<and> answer_of s a \<and> (\<forall>src \<in> set (rc_sources a). own_source t (rc_reads a) src)"

text \<open>Replies without content of a document, and the reply when no answer could be generated.\<close>

definition bare_reply :: "response \<Rightarrow> bool" where
  "bare_reply resp \<longleftrightarrow> (\<exists>e. rs_Body resp = error_json e) \<or>
     rs_Body resp = JObj [(''answer'', JStr ''Not found in sources.''), (''citations'', JArr []), (''faithfulness'', JFrac 1)]"

definition degraded_reply :: "rag_source list \<Rightarrow> response \<Rightarrow> bool" where
  "degraded_reply sources resp \<longleftrightarrow>
     rs_Body resp = JObj [(''answer'', JStr []), (''degraded'', JStr ''llm_unavailable''),
       (''results'', slice_json source_json sources)]"

subsection \<open>Lemmas: the writers\<close>

definition int_points :: "phase \<Rightarrow> bool" where
  "int_points p =
     (case p of
        Upserting ta applied ps \<Rightarrow> \<forall>p \<in> set ps. \<exists>n. map_of (pt_Payload p) ''tenant_id'' = Some (PInt n)
      | _ \<Rightarrow> True)"

definition points_inv :: "('qd \<Rightarrow> string \<rightharpoonup> point) \<Rightarrow> ('os, 'qd, 'r) conc \<Rightarrow> bool" where
  "points_inv vqd s \<longleftrightarrow>
     int_tenants (vqd (w_qd (cc_world s))) \<and> (\<forall>th \<in> set (cc_threads s). int_points (th_phase th))"

lemma int_tenants_sub:
  assumes "int_tenants m" "ran m' \<subseteq> ran m \<union> P" "\<forall>p \<in> P. \<exists>n. map_of (pt_Payload p) ''tenant_id'' = Some (PInt n)"
  shows "int_tenants m'"
  using assms unfolding int_tenants_def by blast

lemma embed_points_tenant:
  assumes "embed_points x ds = Inr ps" "p \<in> set ps"
  shows "\<exists>n. map_of (pt_Payload p) ''tenant_id'' = Some (PInt n)"
proof -
  obtain mv where "list_all2 (\<lambda>d p. \<exists>v. p = point_of (d_uuid5 x) mv d v) ds ps"
    using embed_points_Inr [OF assms(1)] .
  from points_from [OF this assms(2)] show ?thesis by (auto simp: point_of_def)
qed

lemma apply_step_points:
  assumes "points_kept vqd x" "apply_step x (p, w) = (p', w')" "int_tenants (vqd (w_qd w))" "int_points p"
  shows "int_tenants (vqd (w_qd w')) \<and> int_points p'"
proof (cases p)
  case (Upserting ta applied ps)
  obtain r q' where u: "(if ps = [] then (None, w_qd w) else Upsert (d_upsert x) (w_qd w) ps) = (r, q')" by fastforce
  have "ran (vqd q') \<subseteq> ran (vqd (w_qd w)) \<union> set ps"
    using u assms(1) by (fastforce simp: Upsert_def points_kept_def split: if_splits prod.splits)
  from int_tenants_sub [OF assms(3) this] have "int_tenants (vqd q')"
    using assms(4) Upserting by (simp add: int_points_def)
  then show ?thesis using assms(2) Upserting u by (cases r) (auto simp: int_points_def)
next
  case (Deleting ta applied)
  obtain r q' where u: "(if deletes applied ta = [] then (None, w_qd w)
      else DeleteByDocIDs (d_delete x) (w_qd w) (deletes applied ta)) = (r, q')" by fastforce
  have "ran (vqd q') \<subseteq> ran (vqd (w_qd w)) \<union> {}"
    using u assms(1) by (fastforce simp: DeleteByDocIDs_def points_kept_def split: if_splits prod.splits)
  from int_tenants_sub [OF assms(3) this] have "int_tenants (vqd q')" by simp
  then show ?thesis using assms(2) Deleting u by (cases r) (auto simp: int_points_def Let_def)
next
  case (Embedding ta applied)
  then show ?thesis
    using assms(2,3) embed_points_tenant by (auto simp: int_points_def split: sum.splits)
next
  case (Checking ds ta)
  then show ?thesis using assms(2,3)
    by (cases ds) (auto simp: int_points_def add_metric_def split: if_splits sum.splits prod.splits)
next
  case (Committing ds ap)
  then show ?thesis using assms(2,3) by (cases ds) (auto simp: int_points_def add_metric_def)
next
  case (Bumping ts)
  then show ?thesis using assms(2,3) by (cases ts) (auto simp: int_points_def)
qed (use assms in \<open>auto simp: int_points_def\<close>)

lemma conc_step_points:
  assumes "conc_step (scoped_writer vos vqd api c) s ev s'" "points_inv vqd s"
  shows "points_inv vqd s'"
  using assms(1)
proof (cases rule: conc_step.cases)
  case (Advanced x i)
  obtain p w where st: "apply_step x (th_phase (cc_threads s ! i), cc_world s) = (p, w)" by fastforce
  have "points_kept vqd x" "int_points (th_phase (cc_threads s ! i))"
    using Advanced assms(2) by (simp_all add: scoped_writer_def points_inv_def)
  from apply_step_points [OF this(1) st _ this(2)] have new: "int_tenants (vqd (w_qd w))" "int_points p"
    using assms(2) by (simp_all add: points_inv_def)
  have "set ((cc_threads s)[i := (cc_threads s ! i)\<lparr>th_phase := p\<rparr>]) \<subseteq>
      insert ((cc_threads s ! i)\<lparr>th_phase := p\<rparr>) (set (cc_threads s))" by (rule set_update_subset_insert)
  then show ?thesis using Advanced st new assms(2) by (auto simp: points_inv_def advance_def Let_def)
next
  case (Delivered x i docs)
  have "set ((cc_threads s)[i := \<lparr>th_docs = docs, th_phase = start x docs\<rparr>]) \<subseteq>
      insert \<lparr>th_docs = docs, th_phase = start x docs\<rparr> (set (cc_threads s))" by (rule set_update_subset_insert)
  then show ?thesis using Delivered assms(2) by (auto simp: points_inv_def deliver_def start_def int_points_def)
qed (use assms(2) in \<open>auto simp: points_inv_def crash_def int_points_def\<close>)

lemma docs_in_stored:
  assumes "stored_from m0 ds m" "docs_in D m0" "os_doc_of ` set ds \<subseteq> D"
  shows "docs_in D m"
  unfolding docs_in_def
proof (intro allI impI)
  fix i d assume "live_doc m i = Some d"
  then obtain v where e: "m i = Some (v, Some d)" by (auto simp: live_doc_def split: option.splits)
  then consider "m0 i = Some (v, Some d)" | c where "c \<in> set ds" "DocID c = i" "(v, Some d) = doc_entry c"
    using assms(1) unfolding stored_from_def by blast
  then show "d \<in> D \<and> os_DocID d = i"
  proof cases
    case 1
    then have "live_doc m0 i = Some d" by (simp add: live_doc_def)
    then show ?thesis using assms(2) unfolding docs_in_def by blast
  next
    case 2
    then have "d = os_doc_of c" by (simp add: doc_entry_def split: if_splits)
    then show ?thesis using 2 assms(3) by (auto simp: os_doc_of_def)
  qed
qed


subsection \<open>Lemmas: what a request reads\<close>

definition names_tenant :: "os_doc set \<Rightarrow> string \<Rightarrow> string list \<Rightarrow> bool" where
  "names_tenant D t ids \<longleftrightarrow> (\<forall>i \<in> set ids. \<exists>d \<in> D. os_DocID d = i \<and> os_TenantID d = t)"

lemma names_tenant_Nil [simp]: "names_tenant D t []"
  by (simp add: names_tenant_def)

lemma bm25_names:
  assumes "history_search D vos (q_search z)" "docs_in D (vos os)" "t \<noteq> []"
  shows "names_tenant D t (bm25_lane z s os q (scopeFilters fs t))"
  unfolding names_tenant_def
proof
  fix i assume "i \<in> set (bm25_lane z s os q (scopeFilters fs t))"
  then obtain hits h where h: "q_search z os q (scopeFilters fs t) (s_rerankN s) = Inr hits" "h \<in> set hits"
    "i = (case fst h of None \<Rightarrow> [] | Some j \<Rightarrow> j)"
    by (auto simp: bm25_lane_def OsSearch_def split: sum.splits)
  then obtain d where d: "d \<in> D" "fst h = Some (os_DocID d)"
    "\<forall>(k, v) \<in> set (scopeFilters fs t). \<forall>w. keyword_field d k = Some w \<longrightarrow> w = v"
    using assms(1,2) unfolding history_search_def by blast
  have "os_TenantID d = t" using d(3) scoped_filter [OF assms(3)] by (fastforce simp: keyword_field_def)
  then show "\<exists>d \<in> D. os_DocID d = i \<and> os_TenantID d = t" using d h(3) by auto
qed

lemma assemble_own:
  assumes "assemble z s os q k bm vec = Returns (Inr ss)" "mget_spec (q_mget z) (\<lambda>m. live_doc (vos m))"
    and "docs_in D (vos os)" "one_tenant D" "names_tenant D t bm" "names_tenant D t vec" "vos os \<in> set ms" "src \<in> set ss"
  shows "own_source t ms src"
proof -
  obtain j where j: "j < length ss" "src = ss ! j" using assms(8) by (metis in_set_conv_nth)
  obtain ids docs i d where g: "GetByIDs (q_mget z) os ids = Inr docs" "i \<in> set bm \<union> set vec" "docs i = Some d"
    "src = source_of (int j + 1) d"
    using assemble_sound(2) [OF assms(1) j(1)] j(2) by blast
  obtain e where e: "live_doc (vos os) i = Some e" "d = stored_of e"
    using GetByIDs_view [OF assms(2) g(1,3)] by blast
  have "e \<in> D" "os_DocID e = i" using e(1) assms(3) by (simp_all add: docs_in_def)
  moreover obtain f where "f \<in> D" "os_DocID f = i" "os_TenantID f = t"
    using g(2) assms(5,6) unfolding names_tenant_def by blast
  ultimately have "os_TenantID e = t" "os_DocID e = i" using assms(4) unfolding one_tenant_def by metis+
  then show ?thesis using e g(4) assms(7) unfolding own_source_def by blast
qed

lemma own_source_more: "own_source t ms src \<Longrightarrow> set ms \<subseteq> set ms' \<Longrightarrow> own_source t ms' src"
  unfolding own_source_def by blast

subsection \<open>The invariant\<close>

text \<open>The handler works for the tenant of its request, with the tenant's filter.\<close>

definition scoped_key :: "server \<Rightarrow> request \<Rightarrow> ask_key \<Rightarrow> bool" where
  "scoped_key s r k \<longleftrightarrow>
     authTenant s r = (ak_tenant k, True) \<and> ak_filters k = scopeFilters (aq_Filters (ak_req k)) (ak_tenant k)"

definition marked :: "response \<Rightarrow> bool" where
  "marked resp \<longleftrightarrow> (\<exists>kvs. rs_Body resp = JObj kvs \<and> map_of kvs ''cached'' = Some (JBool True))"

definition own_reply :: "stored_answer list \<Rightarrow> string \<Rightarrow> vstore list \<Rightarrow> response \<Rightarrow> bool" where
  "own_reply lg t ms resp \<longleftrightarrow> bare_reply resp \<or>
     (\<exists>sources. degraded_reply sources resp \<and> (\<forall>src \<in> set sources. own_source t ms src)) \<or>
     (\<exists>a \<in> set lg. ak_tenant (rc_key a) = t \<and> rs_Body resp = JObj (rc_body a))"

definition ask_iso :: "server \<Rightarrow> os_doc set \<Rightarrow> stored_answer list \<Rightarrow> ask \<Rightarrow> bool" where
  "ask_iso s D lg h \<longleftrightarrow>
     (\<forall>k. phase_key (ah_phase h) = Some k \<longrightarrow> scoped_key s (ah_request h) k) \<and>
     (case ah_phase h of
        AskNew r \<Rightarrow> r = ah_request h
      | AskSearching k qvec bm vec \<Rightarrow> \<forall>ids. bm = Some ids \<or> vec = Some ids \<longrightarrow> names_tenant D (ak_tenant k) ids
      | AskGenerating k qvec sources \<Rightarrow> \<forall>src \<in> set sources. own_source (ak_tenant k) (ah_reads h) src
      | AskStoring k qvec resp \<Rightarrow> \<exists>a \<in> set lg. rc_key a = k \<and> rc_body a = resp
      | AskDone (Returns resp) \<Rightarrow> \<forall>t. authTenant s (ah_request h) = (t, True) \<longrightarrow> marked resp \<or> own_reply lg t (ah_reads h) resp
      | _ \<Rightarrow> True)"

definition iso_inv ::
  "server \<Rightarrow> os_doc set \<Rightarrow> ('qd \<Rightarrow> string \<rightharpoonup> point) \<Rightarrow> ('os, 'qd, 'r, 'v) system \<Rightarrow> bool" where
  "iso_inv s D vqd y \<longleftrightarrow>
     points_inv vqd (sy_conc y) \<and> (\<forall>h \<in> set (sy_asks y). ask_iso s D (sy_log y) h) \<and>
     (\<forall>a \<in> set (sy_log y). own_answer s (ak_tenant (rc_key a)) a)"

lemma own_reply_log: "own_reply lg t ms resp \<Longrightarrow> set lg \<subseteq> set lg' \<Longrightarrow> own_reply lg' t ms resp"
  unfolding own_reply_def by blast

lemma ask_iso_log: "ask_iso s D lg h \<Longrightarrow> set lg \<subseteq> set lg' \<Longrightarrow> ask_iso s D lg' h"
  unfolding ask_iso_def using own_reply_log [of lg _ _ _ lg'] by (auto split: ask_phase.splits outcome.splits)

lemma authTenant_scoped: "s_apiKey s \<noteq> [] \<Longrightarrow> scoped_key s r k \<Longrightarrow> ak_tenant k \<noteq> []"
  using authTenant_named [of s r "ak_tenant k"] by (simp add: scoped_key_def)


subsection \<open>Lemmas: the accesses of a request\<close>

lemma ask_iso_panic: "ah_phase h = AskDone Panics \<Longrightarrow> ask_iso s D lg h"
  by (simp add: ask_iso_def phase_key_def)

lemma ask_iso_done:
  assumes "ah_phase h = AskDone (Returns resp)"
    and "\<And>t. authTenant s (ah_request h) = (t, True) \<Longrightarrow> marked resp \<or> own_reply lg t (ah_reads h) resp"
  shows "ask_iso s D lg h"
  using assms by (simp add: ask_iso_def phase_key_def)

lemma own_reply_error [simp]: "own_reply lg t ms (writeJSON hs code (error_json e))"
  by (auto simp: own_reply_def bare_reply_def writeJSON_def)

lemma own_reply_not_found [simp]:
  "own_reply lg t ms (writeJSON hs code (JObj [(''answer'', JStr ''Not found in sources.''), (''citations'', JArr []),
     (''faithfulness'', JFrac 1)]))"
  by (auto simp: own_reply_def bare_reply_def writeJSON_def)

lemma marked_cached [simp]:
  "marked (writeJSON hs code (JObj (AList.update ''cached'' (JBool True) kvs)))"
  "marked (writeJSON hs code (JObj (AList.update ''semantic_score'' u (AList.update ''semantic'' v
     (AList.update ''cached'' (JBool True) kvs)))))"
  by (simp_all add: marked_def writeJSON_def update_conv')

lemma begin_iso:
  assumes "begin_ask z s (ah_request h) st = p"
  shows "ask_iso s D lg (h\<lparr>ah_phase := p, ah_known := kn\<rparr>)"
proof -
  obtain tenant ok where a: "authTenant s (ah_request h) = (tenant, ok)" by fastforce
  show ?thesis
  proof (cases "ok \<and> read_request (ah_request h) \<noteq> None")
    case False
    then obtain e code where "p = AskDone (Returns (writeJSON [] code (error_json e)))"
      using assms a by (cases ok) (auto simp: begin_ask_def)
    then show ?thesis by (intro ask_iso_done [of _ "writeJSON [] code (error_json e)"]) simp_all
  next
    case True
    then obtain req where req: "read_request (ah_request h) = Some req" and ok by blast
    have "\<exists>k. p = AskKeyed k \<and> scoped_key s (ah_request h) k"
      using a req \<open>ok\<close> unfolding assms [symmetric] begin_ask_def scoped_key_def by simp
    then show ?thesis by (auto simp add: ask_iso_def phase_key_def)
  qed
qed

lemma exact_iso:
  assumes "scoped_key s (ah_request h) k" "exact_lookup z s k st = (p, st')"
  shows "ask_iso s D lg (h\<lparr>ah_phase := p\<rparr>)"
proof -
  have "p = AskMissed k \<or> p = AskDone Panics \<or>
      (\<exists>kvs. p = AskDone (Returns (writeJSON [] 200 (JObj (AList.update ''cached'' (JBool True) kvs)))))"
    using assms(2) by (auto simp: exact_lookup_def split: option.splits)
  then show ?thesis
    using assms(1) by (elim disjE exE) (simp add: ask_iso_def phase_key_def, simp add: ask_iso_panic, rule ask_iso_done, simp, simp)
qed

lemma semantic_iso:
  assumes "scoped_key s (ah_request h) k" "semantic_lookup z s k st = (p, st')"
  shows "ask_iso s D lg (h\<lparr>ah_phase := p\<rparr>)"
proof -
  obtain aj score hit where l: "(case embed_query z s (aq_Query (ak_req k)) of None \<Rightarrow> (NotJSON [], 0, False)
     | Some v \<Rightarrow> Lookup (q_semquery z) (s_sem s) (qs_sem st) v (ak_tenant k) (ak_gen k)) = (aj, score, hit)"
    by (metis prod.exhaust)
  have "(\<exists>qvec. p = AskSearching k qvec None None) \<or> p = AskDone Panics \<or>
      (\<exists>kvs u v. p = AskDone (Returns (writeJSON [] 200 (JObj (AList.update ''semantic_score'' u
         (AList.update ''semantic'' v (AList.update ''cached'' (JBool True) kvs)))))))"
    using assms(2) unfolding semantic_lookup_def Let_def l by (auto split: bool.splits raw.splits json.splits)
  then show ?thesis
    using assms(1) by (elim disjE exE) (simp add: ask_iso_def phase_key_def, simp add: ask_iso_panic, rule ask_iso_done, simp, simp)
qed

lemma search_iso:
  assumes rd: "scoped_reader D vos vqd api view sim z" and D: "docs_in D (vos (qs_os st))" "one_tenant D"
    and q: "int_tenants (vqd (qs_qd st))" and key: "s_apiKey s \<noteq> []" and sk: "scoped_key s (ah_request h) k"
    and ids: "\<forall>ids. bm = Some ids \<or> vec = Some ids \<longrightarrow> names_tenant D (ak_tenant k) ids"
    and st: "ask_step z s ms b (AskSearching k qvec bm vec, st) = (p, st')"
  shows "ask_iso s D lg (h\<lparr>ah_phase := p, ah_reads := ah_reads h @ [vos (qs_os st)]\<rparr>)"
proof -
  let ?h = "h\<lparr>ah_phase := p, ah_reads := ah_reads h @ [vos (qs_os st)]\<rparr>"
  have t: "ak_tenant k \<noteq> []" by (rule authTenant_scoped [OF key sk])
  have fs: "ak_filters k = scopeFilters (aq_Filters (ak_req k)) (ak_tenant k)" using sk by (simp add: scoped_key_def)
  note rd' = rd [unfolded scoped_reader_def]
  show ?thesis
  proof (cases "bm = None \<or> vec = None")
    case True
    have bmN: "names_tenant D (ak_tenant k) (bm25_lane z s (qs_os st) (aq_Query (ak_req k)) (ak_filters k))"
      unfolding fs by (rule bm25_names [where vos = vos]) (use rd' D t in simp_all)
    have vecN: "vector_lane z s (qs_qd st) (aq_Query (ak_req k)) (ak_filters k) qvec = []"
      unfolding fs by (rule vector_lane_tenant [where view = vqd]) (use rd' q t in simp_all)
    obtain bm' vec' where "p = AskSearching k qvec bm' vec'"
      "\<forall>ids. bm' = Some ids \<or> vec' = Some ids \<longrightarrow> names_tenant D (ak_tenant k) ids"
      using True st ids bmN vecN by (cases bm; cases vec) (auto split: if_splits)
    then show ?thesis using sk by (simp add: ask_iso_def phase_key_def)
  next
    case False
    then obtain bi vi where bv: "bm = Some bi" "vec = Some vi" by auto
    then have p: "p = read_documents z s k qvec bi vi st" using st by auto
    show ?thesis
    proof (cases "assemble z s (qs_os st) (aq_Query (ak_req k)) (aq_TopK (ak_req k)) bi vi")
      case Panics
      then show ?thesis using p by (intro ask_iso_panic) (simp add: read_documents_def)
    next
      case (Returns r)
      show ?thesis
      proof (cases r)
        case (Inl e)
        then show ?thesis using p Returns by (intro ask_iso_done [of _ "writeJSON [] 502 (error_json (os_error_text e))"]) (simp_all add: read_documents_def)
      next
        case (Inr ss)
        have "own_source (ak_tenant k) (ah_reads h @ [vos (qs_os st)]) src" if "src \<in> set ss" for src
          by (rule assemble_own [where vos = vos, OF Returns [unfolded Inr] _ D _ _ _ that]) (use rd' ids bv in auto)
        then show ?thesis using p Returns Inr sk
          by (cases "ss = []") (auto simp: read_documents_def ask_iso_def phase_key_def)
      qed
    qed
  qed
qed

lemma generate_iso:
  assumes "scoped_key s (ah_request h) k" "\<forall>src \<in> set sources. own_source (ak_tenant k) (ah_reads h) src"
    and "generate_answer z s ms k qvec sources st = (p, st')"
    and "lg' = (case p of AskStoring k qvec resp \<Rightarrow>
      [\<lparr>rc_key = k, rc_body = resp, rc_reads = ah_reads h, rc_sources = sources\<rparr>] | _ \<Rightarrow> [])"
  shows "ask_iso s D (lg @ lg') (h\<lparr>ah_phase := p\<rparr>)" and "\<forall>a \<in> set lg'. own_answer s (ak_tenant (rc_key a)) a"
proof -
  have "ask_iso s D (lg @ lg') (h\<lparr>ah_phase := p\<rparr>) \<and> (\<forall>a \<in> set lg'. own_answer s (ak_tenant (rc_key a)) a)"
  proof (cases "Generate (q_chat z) (s_llm s) (aq_Query (ak_req k)) sources")
    case (Inl e)
    then have p: "p = AskDone (Returns (writeJSON [] 200 (JObj [(''answer'', JStr []),
        (''degraded'', JStr ''llm_unavailable''), (''results'', slice_json source_json sources)])))" "lg' = []"
      using assms(3,4) by (auto simp: generate_answer_def)
    have "ask_iso s D lg (h\<lparr>ah_phase := p\<rparr>)"
      by (rule ask_iso_done) (use p assms(1,2) in \<open>auto simp: own_reply_def degraded_reply_def writeJSON_def scoped_key_def\<close>)
    then show ?thesis using p(2) by simp
  next
    case (Inr ans)
    define resp where "resp = ask_body s ms ans
      (ScoreFaithfulness (q_chat z) (q_parse z) (s_faithMode s) (s_llm s) (an_Text ans) sources)"
    let ?a = "\<lparr>rc_key = k, rc_body = resp, rc_reads = ah_reads h, rc_sources = sources\<rparr>"
    have p: "p = AskStoring k qvec resp" "lg' = [?a]"
      using Inr assms(3,4) by (auto simp: generate_answer_def Let_def resp_def)
    have "answer_of s ?a" using Inr unfolding answer_of_def resp_def by auto
    then have "own_answer s (ak_tenant k) ?a" using assms(2) by (simp add: own_answer_def)
    then show ?thesis using p assms(1) by (auto simp: ask_iso_def phase_key_def)
  qed
  then show "ask_iso s D (lg @ lg') (h\<lparr>ah_phase := p\<rparr>)" "\<forall>a \<in> set lg'. own_answer s (ak_tenant (rc_key a)) a"
    by blast+
qed

lemma storing_iso:
  assumes "ask_iso s D lg h" "ah_phase h = AskStoring k qvec resp"
  shows "ask_iso s D lg (h\<lparr>ah_phase := AskDone (Returns (writeJSON [] 200 (JObj resp)))\<rparr>)"
proof (rule ask_iso_done)
  fix t assume a: "authTenant s (ah_request (h\<lparr>ah_phase := AskDone (Returns (writeJSON [] 200 (JObj resp)))\<rparr>)) = (t, True)"
  have "scoped_key s (ah_request h) k" "\<exists>a \<in> set lg. rc_key a = k \<and> rc_body a = resp"
    using assms by (simp_all add: ask_iso_def phase_key_def)
  moreover from this(1) a have "ak_tenant k = t" by (simp add: scoped_key_def)
  ultimately show "marked (writeJSON [] 200 (JObj resp)) \<or> own_reply lg t (ah_reads (h\<lparr>ah_phase := AskDone (Returns (writeJSON [] 200 (JObj resp)))\<rparr>))
      (writeJSON [] 200 (JObj resp))"
    by (auto simp: own_reply_def writeJSON_def)
qed simp


lemma answered_iso:
  assumes rd: "scoped_reader D vos vqd api view sim z" and D: "docs_in D (vos (w_os (cc_world (sy_conc y))))" "one_tenant D"
    and key: "s_apiKey s \<noteq> []" and j: "j < length (sy_asks y)" and inv: "iso_inv s D vqd y"
  shows "iso_inv s D vqd (answer_step vos z s ms b j y)"
proof -
  define h where "h = sy_asks y ! j"
  obtain p st where st: "ask_step z s ms b (ah_phase h, query_view y) = (p, st)" by fastforce
  define lg where "lg = (case p of AskStoring k qvec resp \<Rightarrow> [\<lparr>rc_key = k, rc_body = resp, rc_reads = ah_reads h,
    rc_sources = (case ah_phase h of AskGenerating k qvec sources \<Rightarrow> sources | _ \<Rightarrow> [])\<rparr>] | _ \<Rightarrow> [])"
  define h' where "h' = h\<lparr>ah_phase := p,
    ah_known := (case ah_phase h of AskNew r \<Rightarrow> map fst (sy_covered y) | _ \<Rightarrow> ah_known h),
    ah_reads := ah_reads h @ (case ah_phase h of
      AskSearching k qvec bm vec \<Rightarrow> [vos (w_os (cc_world (sy_conc y)))] | _ \<Rightarrow> [])\<rparr>"
  note I = inv [unfolded iso_inv_def]
  have h: "ask_iso s D (sy_log y) h" using I j nth_mem unfolding h_def by blast
  have q: "qs_os (query_view y) = w_os (cc_world (sy_conc y))" "int_tenants (vqd (qs_qd (query_view y)))"
    using I by (simp_all add: query_view_def Let_def points_inv_def)
  have goal: "ask_iso s D (sy_log y @ lg) h' \<and> (\<forall>a \<in> set lg. own_answer s (ak_tenant (rc_key a)) a)"
  proof (cases "ah_phase h")
    case (AskNew r)
    then have r: "r = ah_request h" using h by (simp add: ask_iso_def)
    then have p: "begin_ask z s (ah_request h) (query_view y) = p" using st AskNew by auto
    then have "lg = []" by (auto simp: lg_def begin_ask_def split: prod.splits bool.splits option.splits)
    then show ?thesis using begin_iso [OF p] AskNew by (simp add: h'_def)
  next
    case (AskKeyed k)
    then have e: "exact_lookup z s k (query_view y) = (p, st)" and k: "scoped_key s (ah_request h) k"
      using st h by (simp_all add: ask_iso_def phase_key_def)
    then have "lg = []" by (auto simp: lg_def exact_lookup_def split: option.splits)
    then show ?thesis using exact_iso [OF k e] AskKeyed by (simp add: h'_def)
  next
    case (AskMissed k)
    then have e: "semantic_lookup z s k (query_view y) = (p, st)" and k: "scoped_key s (ah_request h) k"
      using st h by (simp_all add: ask_iso_def phase_key_def)
    then have "lg = []" using semantic_same(3) [OF e] by (auto simp: lg_def split: ask_phase.splits)
    then show ?thesis using semantic_iso [OF k e] AskMissed by (simp add: h'_def)
  next
    case (AskSearching k qvec bm vec)
    then have k: "scoped_key s (ah_request h) k"
      and ids: "\<forall>ids. bm = Some ids \<or> vec = Some ids \<longrightarrow> names_tenant D (ak_tenant k) ids"
      using h by (simp_all add: ask_iso_def phase_key_def)
    have "lg = []" using st AskSearching
      by (cases bm; cases vec)
        (auto simp: lg_def read_documents_def split: if_splits outcome.splits sum.splits)
    then show ?thesis
      using search_iso [OF rd _ D(2) q(2) key k ids st [unfolded AskSearching]] D(1) q(1) AskSearching by (simp add: h'_def)
  next
    case (AskGenerating k qvec sources)
    then have e: "generate_answer z s ms k qvec sources (query_view y) = (p, st)" and k: "scoped_key s (ah_request h) k"
      and own: "\<forall>src \<in> set sources. own_source (ak_tenant k) (ah_reads h) src"
      using st h by (simp_all add: ask_iso_def phase_key_def)
    have "lg = (case p of AskStoring k qvec resp \<Rightarrow>
        [\<lparr>rc_key = k, rc_body = resp, rc_reads = ah_reads h, rc_sources = sources\<rparr>] | _ \<Rightarrow> [])"
      using AskGenerating by (cases p) (simp_all add: lg_def)
    then show ?thesis using generate_iso [OF k own e] AskGenerating by (simp add: h'_def)
  next
    case (AskStoring k qvec resp)
    then have "p = AskDone (Returns (writeJSON [] 200 (JObj resp)))" using st by simp
    then show ?thesis using storing_iso [OF h AskStoring] AskStoring by (simp add: h'_def lg_def)
  next
    case (AskDone out)
    then have p: "p = AskDone out" using st by simp
    then have "h' = h" using AskDone by (cases h) (simp add: h'_def)
    then show ?thesis using h p by (simp add: lg_def)
  qed
  have "answer_step vos z s ms b j y = y\<lparr>sy_conc := set_redis (qs_rd st) (sy_conc y), sy_sem := qs_sem st,
      sy_metrics := qs_metrics st, sy_asks := (sy_asks y)[j := h'],
      sy_keys := sy_keys y @ (case p of AskKeyed k \<Rightarrow> [k] | _ \<Rightarrow> []), sy_log := sy_log y @ lg\<rparr>"
    unfolding answer_step_def Let_def h_def [symmetric] st prod.case h'_def lg_def ..
  moreover have "ask_iso s D (sy_log y @ lg) a" if "a \<in> set ((sy_asks y)[j := h'])" for a
  proof -
    have "a = h' \<or> a \<in> set (sy_asks y)" using that set_update_subset_insert by fastforce
    then show ?thesis using goal I ask_iso_log [of s D "sy_log y" a "sy_log y @ lg"] by auto
  qed
  ultimately show ?thesis using goal I by (auto simp: iso_inv_def points_inv_def set_redis_def)
qed

subsection \<open>Lemmas: runs\<close>

lemma sys_step_sent: "sys_step vos wo ro api c s y y' \<Longrightarrow> set (cc_sent (sy_conc y)) \<subseteq> set (cc_sent (sy_conc y'))"
  by (erule sys_step.cases)
    (auto elim!: conc_stepE simp: indexed_def asked_def answer_step_def advance_def deliver_def crash_def set_redis_def
      Let_def split: prod.splits)

lemma sys_step_conc:
  assumes "sys_step vos (scoped_writer vos vqd api c) ro api c s y y'" "conc_inv vos m0 (sy_conc y)"
  shows "conc_inv vos m0 (sy_conc y')"
  using assms(1)
proof (cases rule: sys_step.cases)
  case (Indexed ev after)
  have "conc_step (cluster_ok vos vqd) (sy_conc y) ev after"
    by (rule conc_step_mono [OF Indexed(2)]) (simp add: scoped_writer_def writer_ok_def)
  from conc_step_inv [OF this assms(2)] Indexed(1) show ?thesis by (simp add: indexed_def)
qed (use assms(2) in \<open>simp_all add: asked_def answer_step_def Let_def split: prod.splits\<close>)

lemma sys_run_iso:
  assumes key: "s_apiKey s \<noteq> []" and D: "docs_in D m0" "one_tenant D"
  shows "sys_run vos (scoped_writer vos vqd api c) (scoped_reader D vos vqd api view sim) api c s y k y' \<Longrightarrow>
    conc_inv vos m0 (sy_conc y) \<Longrightarrow> iso_inv s D vqd y \<Longrightarrow> os_doc_of ` set (cc_sent (sy_conc y')) \<subseteq> D \<Longrightarrow>
    conc_inv vos m0 (sy_conc y') \<and> iso_inv s D vqd y'"
proof (induction rule: sys_run.induct)
  case (SysStep k u v)
  have sub: "os_doc_of ` set (cc_sent (sy_conc u)) \<subseteq> D" using SysStep.prems(3) sys_step_sent [OF SysStep.hyps(2)] by auto
  then have u: "conc_inv vos m0 (sy_conc u)" "iso_inv s D vqd u" using SysStep.IH SysStep.prems by blast+
  have "docs_in D (vos (w_os (cc_world (sy_conc u))))"
    by (rule docs_in_stored [OF _ D(1) sub]) (use u(1) in \<open>simp add: conc_inv_def\<close>)
  note docs = this
  have "iso_inv s D vqd v"
    using SysStep.hyps(2)
  proof (cases rule: sys_step.cases)
    case (Indexed ev after)
    then show ?thesis using conc_step_points [OF Indexed(2)] u(2) by (simp add: iso_inv_def indexed_def)
  next
    case (Asked r)
    then show ?thesis using u(2) by (auto simp: iso_inv_def asked_def ask_iso_def phase_key_def)
  next
    case (Answered z j ms b)
    show ?thesis unfolding Answered(1) by (rule answered_iso [OF Answered(2) docs D(2) key Answered(3) u(2)])
  next
    case (Expired rd)
    then show ?thesis using u(2) by (simp add: iso_inv_def points_inv_def set_redis_def)
  qed
  then show ?case using sys_step_conc [OF SysStep.hyps(2) u(1)] by blast
qed simp


lemma iso_init: "int_tenants (vqd (w_qd w)) \<Longrightarrow> iso_inv s D vqd (sys_init n w v)"
  by (auto simp: iso_inv_def sys_init_def points_inv_def conc_init_def int_points_def)

subsection \<open>Lemmas: services of the example\<close>

lemma history_search_one: "history_search D (\<lambda>m. m) (q_search one_doc_reader)"
  unfolding history_search_def
proof (intro allI impI, elim conjE)
  fix m q fs n hits h
  assume m: "docs_in D m" and hits: "q_search one_doc_reader m q fs n = Inr hits" "h \<in> set hits"
  obtain v d where d: "m ''a'' = Some (v, Some d)" "list_all (\<lambda>(k, v). keyword_field d k = Some v) fs" "fst h = Some ''a''"
    using hits by (auto simp: one_doc_reader_def split: option.splits if_splits)
  then have "live_doc m ''a'' = Some d" by (simp add: live_doc_def)
  then have "d \<in> D" "os_DocID d = ''a''" using m unfolding docs_in_def by blast+
  moreover have "\<forall>(k, v) \<in> set fs. \<forall>w. keyword_field d k = Some w \<longrightarrow> w = v"
    using d(2) unfolding list_all_iff by auto
  ultimately show "\<exists>d \<in> D. fst h = Some (os_DocID d) \<and>
      (\<forall>(k, v) \<in> set fs. \<forall>w. keyword_field d k = Some w \<longrightarrow> w = v)"
    using d(3) by (intro bexI [of _ d] conjI) simp_all
qed

lemma mget_spec_one: "mget_spec (q_mget one_doc_reader) live_doc"
  by (auto simp: mget_spec_def one_doc_reader_def live_doc_def split: option.splits)

lemma scoped_reader_one: "scoped_reader D (\<lambda>m. m) vqd ref_redis (\<lambda>es. es) (\<lambda>a b. 1) one_doc_reader"
  using reader_ok_one history_search_one mget_spec_one
  by (simp add: scoped_reader_def query_spec_def one_doc_reader_def)

lemma ran_put_points: "ran (put_points m ps) \<subseteq> ran m \<union> set ps"
proof
  fix p assume "p \<in> ran (put_points m ps)"
  then obtain k where "put_points m ps k = Some p" by (auto simp: ran_def)
  then show "p \<in> ran m \<union> set ps" using put_points_Some [of m ps k p] by (auto intro: ranI)
qed

lemma scoped_writer_one: "scoped_writer (\<lambda>m. m) (\<lambda>m. m) ref_redis (d_cache ref_deps) ref_deps"
proof -
  have "ran (drop_points m cs) \<subseteq> ran m" for m cs
    by (auto simp: drop_points_def ran_def split: option.splits if_splits)
  then have "points_kept (\<lambda>m. m) ref_deps"
    using ran_put_points by (simp add: points_kept_def ref_deps_def ref_upsert_def ref_delete_def)
  then show ?thesis using writer_ok_one by (simp add: scoped_writer_def)
qed

subsection \<open>Properties\<close>

text \<open>
  C7: tenant isolation of answers, under every interleaving. With an API key configured, let indexing
  goroutines, requests, crashes and expiry interleave in any way, let searches see the index as of
  an earlier refresh. Provided no document of the run ever changes its tenant (\<open>one_tenant\<close>; without
  this, \<open>tenant_change_leaks\<close>), Redis answers every call with no cached answer at the start, and no two
  keys in use collide, a reply to a tenant shows no content of a document, or lists sources (no answer could be generated), or is
  an answer that was generated from sources, possibly by way of the caches for a request of the
  same tenant; and every one of these sources shows a document of the tenant as a read of
  OpenSearch found it live.
\<close>

theorem answers_stay_with_tenant:
  assumes "sys_run vos (scoped_writer vos vqd api c) (scoped_reader D vos vqd api view sim) api c s (sys_init k w v) steps y"
    and "redis_spec api" "has_rdb c" "has_rdb (s_cache s)" "s_apiKey s \<noteq> []"
    and "guard_sound (w_guard w) (vos (w_os w))" "no_answers api (w_rd w)" "view v = []"
    and "counter_value (r_get api (w_rd w) (genKey (Itoa tenant))) = Some n" "in_int64 n" "n + int steps < 2 ^ 63"
    and "no_collision (sy_keys y)"
    and "docs_in D (vos (w_os w))" "os_doc_of ` set (cc_sent (sy_conc y)) \<subseteq> D" "one_tenant D" "int_tenants (vqd (w_qd w))"
    and "h \<in> set (sy_asks y)" "authTenant s (ah_request h) = (Itoa tenant, True)" "ah_phase h = AskDone (Returns resp)"
  shows "bare_reply resp \<or>
    (\<exists>sources. degraded_reply sources resp \<and> (\<forall>src \<in> set sources. own_source (Itoa tenant) (ah_reads h) src)) \<or>
    (\<exists>a \<in> set (sy_log y). own_answer s (Itoa tenant) a \<and>
       (\<exists>kvs. rs_Body resp = JObj kvs \<and> answers_with a kvs))"
proof -
  have "sys_inv vos (vos (w_os w)) api view s (Itoa tenant) n (sys_init k w v)"
    using assms(6-9) by (intro sys_inv_init)
  moreover have "sys_run vos (writer_ok vos vqd api c) (reader_ok api view sim) api c s (sys_init k w v) steps y"
    by (rule sys_run_mono [OF assms(1)]) (simp_all add: scoped_writer_def scoped_reader_def)
  ultimately obtain n' where "sys_inv vos (vos (w_os w)) api view s (Itoa tenant) n' y"
    using sys_run_inv [OF assms(2-5) _ _ assms(12)] assms(10,11) by (fastforce simp: in_int64_def)
  then have "ask_inv s (sy_keys y) (sy_log y) (sy_covered y) (Itoa tenant) n' h"
    using assms(17) by (simp add: sys_inv_def Let_def)
  then have fresh: "fresh_reply s (sy_log y) (Itoa tenant) h resp" using assms(19) by (simp add: ask_inv_def)
  have "conc_inv vos (vos (w_os w)) (sy_conc (sys_init k w v))"
    using conc_inv_init assms(6) by (simp add: sys_init_def)
  from sys_run_iso [OF assms(5,13,15,1) this iso_init [where vqd = vqd and w = w, OF assms(16)] assms(14)]
  have iso: "ask_iso s D (sy_log y) h" "\<And>a. a \<in> set (sy_log y) \<Longrightarrow> own_answer s (ak_tenant (rc_key a)) a"
    using assms(17) by (simp_all add: iso_inv_def)
  have "marked resp \<or> own_reply (sy_log y) (Itoa tenant) (ah_reads h) resp"
    using iso(1) assms(18,19) by (simp add: ask_iso_def)
  then show ?thesis
  proof
    assume "marked resp"
    then obtain kvs where kvs: "rs_Body resp = JObj kvs" "map_of kvs ''cached'' = Some (JBool True)"
      by (auto simp: marked_def)
    then obtain a where "a \<in> set (sy_log y)" "answers_with a kvs" "ak_tenant (rc_key a) = Itoa tenant"
      using fresh assms(18) unfolding fresh_reply_def gives_answer_def by blast
    then show ?thesis using iso(2) kvs(1) by metis
  next
    assume "own_reply (sy_log y) (Itoa tenant) (ah_reads h) resp"
    then show ?thesis using iso(2) unfolding own_reply_def answers_with_def by metis
  qed
qed

theorem answers_stay_with_tenant_witness:
  "\<exists>steps h kvs (y :: (vstore, string \<rightharpoonup> point, string \<rightharpoonup> rvalue, sem_entry list) system).
    sys_run (\<lambda>m. m) (scoped_writer (\<lambda>m. m) (\<lambda>m. m) ref_redis (d_cache ref_deps))
      (scoped_reader {os_doc_of (ex_doc ''a'' 1 OpUpsert)} (\<lambda>m. m) (\<lambda>m. m) ref_redis (\<lambda>es. es) (\<lambda>a b. 1))
      ref_redis (d_cache ref_deps) ref_server (sys_init 1 ref_world []) steps y \<and>
    h \<in> set (sy_asks y) \<and> ah_phase h = AskDone (Returns (writeJSON [] 200 (JObj kvs))) \<and>
    map_of kvs ''cached'' = Some (JBool True) \<and>
    (\<exists>a \<in> set (sy_log y). own_answer ref_server ''7'' a \<and> answers_with a kvs)"
proof -
  let ?d = "ex_doc ''a'' 1 OpUpsert" let ?D = "{os_doc_of ?d}"
  obtain steps h and y :: "(vstore, string \<rightharpoonup> point, string \<rightharpoonup> rvalue, sem_entry list) system" and resp where y:
    "sys_run (\<lambda>m. m) (\<lambda>x. x = ref_deps) (\<lambda>z. z = one_doc_reader) ref_redis (d_cache ref_deps) ref_server
      (sys_init 1 ref_world []) steps y"
    "steps \<le> 30" "sy_keys y = [ex_key, ex_key]" "h \<in> set (sy_asks y)" "ah_request h = ex_request []"
    "cc_sent (sy_conc y) = [?d]"
    "ah_phase h = AskDone (Returns (writeJSON [] 200 (JObj (AList.update ''cached'' (JBool True) resp))))"
    by (rule ex_run)
  have run: "sys_run (\<lambda>m. m) (scoped_writer (\<lambda>m. m) (\<lambda>m. m) ref_redis (d_cache ref_deps))
      (scoped_reader ?D (\<lambda>m. m) (\<lambda>m. m) ref_redis (\<lambda>es. es) (\<lambda>a b. 1))
      ref_redis (d_cache ref_deps) ref_server (sys_init 1 ref_world []) steps y"
    by (rule sys_run_mono [OF y(1)]) (simp_all add: scoped_writer_one scoped_reader_one)
  let ?kvs = "AList.update ''cached'' (JBool True) resp" let ?r = "writeJSON [] 200 (JObj ?kvs)"
  have m: "map_of ?kvs ''cached'' = Some (JBool True)" by (simp add: update_conv')
  have b: "rs_Body ?r = JObj ?kvs" by (simp add: writeJSON_def)
  have "bare_reply ?r \<or>
    (\<exists>sources. degraded_reply sources ?r \<and> (\<forall>src \<in> set sources. own_source (Itoa 7) (ah_reads h) src)) \<or>
    (\<exists>a \<in> set (sy_log y). own_answer ref_server (Itoa 7) a \<and>
       (\<exists>kvs. rs_Body ?r = JObj kvs \<and> answers_with a kvs))"
    by (rule answers_stay_with_tenant [OF run redis_spec_ref, where n = 0])
      (use y ex_no_collision ex_asked(1) in \<open>simp_all add: ref_deps_def ref_server_def ref_world_def no_answers_def ref_redis_def
         counter_value_def in_int64_def Itoa_7 docs_in_def live_doc_def one_tenant_def int_tenants_def\<close>)
  moreover have "\<not> bare_reply ?r" "\<not> degraded_reply ss ?r" for ss
    using m b by (auto simp: bare_reply_def degraded_reply_def error_json_def)
  ultimately obtain a where "a \<in> set (sy_log y)" "own_answer ref_server ''7'' a" "answers_with a ?kvs"
    using b Itoa_7 by auto
  then show ?thesis using run y(4,7) m by blast
qed


lemma rerank_single: "s_ml s = TEI e r \<Longrightarrow> rerank_order x s q [u] = [0]"
proof -
  assume "s_ml s = TEI e r"
  then have o: "rerank_order x s q [u] = tei.safe_order (q_http x) e r q [u]" by (rule rerank_order_tei)
  then obtain j where "rerank_order x s q [u] = [j]"
    using tei.length_safe_order [of "q_http x" e r q "[u]"] by (auto simp: length_Suc_conv)
  then show ?thesis using tei.safe_order_range [of j "q_http x" e r q "[u]"] o by simp
qed

lemma assemble_single:
  assumes "s_ml s = TEI e r" "0 < s_topK s" "q_mget x os [i] = Inr [\<lparr>mg_ID = i, mg_Found = True, mg_Source = d\<rparr>]"
  shows "assemble x s os q k [i] [] = Returns (Inr [source_of 1 (stored_of d)])"
proof -
  have ne: "RRF [[i], []] (s_rrfK s) \<noteq> []" using RRF_single [of "[i]" "s_rrfK s"] by auto
  have g: "GetByIDs (q_mget x) os [i] = Inr [i \<mapsto> stored_of d]" using assms(3) by (simp add: GetByIDs_def)
  show ?thesis
    using assms(2) by (simp add: assemble_def Let_def RRF_single ne g doc_at_def rerank_single [OF assms(1)])
qed

text \<open>
  C38: the tenant of a document is checked by the search only. If the document is another one when
  its content is read (its row has moved to another tenant, and the search still saw the earlier
  version), the answer is generated from it for the tenant it no longer belongs to.
\<close>

theorem tenant_change_leaks:
  assumes "s_ml s = TEI e r" "0 < s_topK s"
    and "bm25_lane z s (qs_os st1) (aq_Query (ak_req k)) (ak_filters k) = [i]"
    and "vector_lane z s (qs_qd st1) (aq_Query (ak_req k)) (ak_filters k) qvec = []"
    and "q_mget z (qs_os st2) [i] = Inr [\<lparr>mg_ID = i, mg_Found = True, mg_Source = d\<rparr>]"
  shows "ask_step z s ms b3 (fst (ask_steps z s ms [b1, b2] (AskSearching k qvec None None, st1)), st2) =
    (AskGenerating k qvec [source_of 1 (stored_of d)], st2)"
proof -
  have "fst (ask_steps z s ms [b1, b2] (AskSearching k qvec None None, st1)) = AskSearching k qvec (Some [i]) (Some [])"
    using assms(3,4) by (cases b1) simp_all
  then show ?thesis using assemble_single [OF assms(1,2,5)] by (simp add: read_documents_def)
qed

text \<open>A document that moves from tenant 7 to tenant 8 while a request of tenant 7 is served.\<close>

definition moved_doc :: os_doc where
  "moved_doc = (os_doc_of (ex_doc ''a'' 2 OpUpsert))\<lparr>os_TenantID := ''8'', os_Body := ''secret''\<rparr>"

definition with_index :: "vstore \<Rightarrow> (vstore, string \<rightharpoonup> point, string \<rightharpoonup> rvalue, sem_entry list) qstate" where
  "with_index m = \<lparr>qs_os = m, qs_qd = Map.empty, qs_rd = Map.empty, qs_sem = [], qs_metrics = []\<rparr>"

definition tei_server :: server where
  "tei_server = ref_server\<lparr>s_ml := TEI ''e'' ''r''\<rparr>"

theorem tenant_change_leaks_witness:
  "let st1 = with_index one_doc_store; st2 = with_index [''a'' \<mapsto> (2, Some moved_doc)]
   in \<exists>src. fst (ask_step one_doc_reader tei_server 0 True
       (fst (ask_steps one_doc_reader tei_server 0 [True, True] (AskSearching ex_key None None None, st1)), st2)) =
     AskGenerating ex_key None [src] \<and> ak_tenant ex_key = ''7'' \<and> os_TenantID moved_doc = ''8'' \<and>
     sr_DocID src = ''a'' \<and> sr_Text src = sr_Text (source_of 1 (stored_of moved_doc))"
proof -
  let ?st1 = "with_index one_doc_store" and ?st2 = "with_index [''a'' \<mapsto> (2, Some moved_doc)]"
  have b: "bm25_lane one_doc_reader tei_server (qs_os ?st1) (aq_Query (ak_req ex_key)) (ak_filters ex_key) = [''a'']"
    by (simp add: with_index_def keyword_field_def Itoa_7 bm25_lane_def OsSearch_def one_doc_reader_def one_doc_store_def ex_doc_def
        op_tier_defs os_doc_of_def ex_key_def)
  have v: "vector_lane one_doc_reader tei_server (qs_qd ?st1) (aq_Query (ak_req ex_key)) (ak_filters ex_key) None = []"
    by (simp add: vector_lane_def embed_query_down [of _ "''down''"] one_doc_reader_def)
  have m: "q_mget one_doc_reader (qs_os ?st2) [''a''] = Inr [\<lparr>mg_ID = ''a'', mg_Found = True, mg_Source = moved_doc\<rparr>]"
    by (simp add: with_index_def one_doc_reader_def)
  have k: "s_ml tei_server = TEI ''e'' ''r''" "0 < s_topK tei_server" by (simp_all add: tei_server_def ref_server_def)
  show ?thesis
    using tenant_change_leaks [OF k b v m, of 0 True True True]
    by (simp add: Let_def moved_doc_def source_of_def stored_of_def ex_key_def os_doc_of_def ex_doc_def)
qed

end
