(* ===== verification/Normalizer.thy ===== *)
theory Normalizer
  imports Wire Obs
begin

text \<open>
  Package \<open>internal/normalizer\<close> (\<open>normalizer.go\<close>) and command \<open>normalizer\<close>
  (\<open>cmd/normalizer/main.go\<close>): Debezium change events become canonical documents, each
  classified into a tier, and are routed to the lane of their tier or to the dead-letter
  topic. The texts of wrapped \<open>encoding/json\<close> errors and the verb \<open>%q\<close> are parameters
  (\<open>err_texts\<close>), as is the clock. The consumer loop is \<open>poll_step\<close>: it follows one partition
  of the change topic, whose records are a fixed list, and what the brokers do in one
  iteration is an event.
\<close>

subsection \<open>Change events\<close>

definition SourcePostgres :: string where "SourcePostgres = ''postgres''"

record documentRow =
  dr_ID :: int
  dr_TenantID :: int
  dr_Title :: string
  dr_Body :: string
  dr_Category :: string
  dr_Tier :: string
  dr_UpdatedAt :: string
  dr_Version :: int

record envelopeSource =
  es_TsMs :: int
  es_LSN :: int
  es_Table :: string

record debeziumEnvelope =
  ev_Before :: "documentRow option"
  ev_After :: "documentRow option"
  ev_Op :: string
  ev_Source :: envelopeSource
  ev_TsMs :: int

definition zero_row :: documentRow where
  "zero_row = \<lparr>dr_ID = 0, dr_TenantID = 0, dr_Title = [], dr_Body = [], dr_Category = [], dr_Tier = [],
     dr_UpdatedAt = [], dr_Version = 0\<rparr>"

definition zero_envelope :: debeziumEnvelope where
  "zero_envelope = \<lparr>ev_Before = None, ev_After = None, ev_Op = [],
     ev_Source = \<lparr>es_TsMs = 0, es_LSN = 0, es_Table = []\<rparr>, ev_TsMs = 0\<rparr>"

definition set_row :: "string \<Rightarrow> json \<Rightarrow> documentRow \<Rightarrow> json_error + documentRow" where
  "set_row k j r =
     (if k = ''id'' then into dec_int64 (dr_ID r) (\<lambda>v. r\<lparr>dr_ID := v\<rparr>) j
      else if k = ''tenant_id'' then into dec_int64 (dr_TenantID r) (\<lambda>v. r\<lparr>dr_TenantID := v\<rparr>) j
      else if k = ''title'' then into dec_string (dr_Title r) (\<lambda>v. r\<lparr>dr_Title := v\<rparr>) j
      else if k = ''body'' then into dec_string (dr_Body r) (\<lambda>v. r\<lparr>dr_Body := v\<rparr>) j
      else if k = ''category'' then into dec_string (dr_Category r) (\<lambda>v. r\<lparr>dr_Category := v\<rparr>) j
      else if k = ''tier'' then into dec_string (dr_Tier r) (\<lambda>v. r\<lparr>dr_Tier := v\<rparr>) j
      else if k = ''updated_at'' then into dec_string (dr_UpdatedAt r) (\<lambda>v. r\<lparr>dr_UpdatedAt := v\<rparr>) j
      else if k = ''version'' then into dec_int64 (dr_Version r) (\<lambda>v. r\<lparr>dr_Version := v\<rparr>) j
      else Inr r)"

definition dec_row :: "documentRow decoder" where
  "dec_row = dec_struct set_row"

definition dec_source :: "envelopeSource decoder" where
  "dec_source = dec_struct (\<lambda>k j s.
     if k = ''ts_ms'' then into dec_int64 (es_TsMs s) (\<lambda>v. s\<lparr>es_TsMs := v\<rparr>) j
     else if k = ''lsn'' then into dec_int64 (es_LSN s) (\<lambda>v. s\<lparr>es_LSN := v\<rparr>) j
     else if k = ''table'' then into dec_string (es_Table s) (\<lambda>v. s\<lparr>es_Table := v\<rparr>) j
     else Inr s)"

definition set_envelope :: "string \<Rightarrow> json \<Rightarrow> debeziumEnvelope \<Rightarrow> json_error + debeziumEnvelope" where
  "set_envelope k j e =
     (if k = ''before'' then into (dec_pointer zero_row dec_row) (ev_Before e) (\<lambda>v. e\<lparr>ev_Before := v\<rparr>) j
      else if k = ''after'' then into (dec_pointer zero_row dec_row) (ev_After e) (\<lambda>v. e\<lparr>ev_After := v\<rparr>) j
      else if k = ''op'' then into dec_string (ev_Op e) (\<lambda>v. e\<lparr>ev_Op := v\<rparr>) j
      else if k = ''source'' then into dec_source (ev_Source e) (\<lambda>v. e\<lparr>ev_Source := v\<rparr>) j
      else if k = ''ts_ms'' then into dec_int64 (ev_TsMs e) (\<lambda>v. e\<lparr>ev_TsMs := v\<rparr>) j
      else Inr e)"

definition dec_envelope :: "debeziumEnvelope decoder" where
  "dec_envelope = dec_struct set_envelope"

subsection \<open>FromDebezium\<close>

datatype norm_error =
    DecodeEnvelope json_error
  | NilAfter string
  | NilBefore
  | ErrSkip
  | UnknownOp string

definition commitTS :: "time \<Rightarrow> debeziumEnvelope \<Rightarrow> time" where
  "commitTS now e =
     (let ms = (if es_TsMs (ev_Source e) = 0 then ev_TsMs e else es_TsMs (ev_Source e))
      in if ms = 0 then now else ms * 10 ^ 6)"

definition classifyTier :: "string \<Rightarrow> documentRow \<Rightarrow> string" where
  "classifyTier op row =
     (if op = OpDelete then TierUrgent
      else if dr_Tier row = TierUrgent then TierUrgent else TierBulk)"

definition buildDoc :: "documentRow \<Rightarrow> string \<Rightarrow> time \<Rightarrow> canonical_doc" where
  "buildDoc row op commit =
     (let nativeID = ''documents:'' @ Itoa (dr_ID row)
      in \<lparr>Source = SourcePostgres, SourceID = nativeID,
          DocID = NamespacedDocID SourcePostgres nativeID, TenantID = dr_TenantID row, Op = op,
          Tier = classifyTier op row, Version = dr_Version row, CommitTS = commit,
          Title = dr_Title row, Body = dr_Body row, ChunkID = 0,
          Metadata = \<lparr>Category = dr_Category row, URL = [], Author = []\<rparr>\<rparr>)"

definition FromDebezium :: "time \<Rightarrow> raw \<Rightarrow> norm_error + canonical_doc" where
  "FromDebezium now v =
     (case Unmarshal dec_envelope zero_envelope v of
        Inl e \<Rightarrow> Inl (DecodeEnvelope e)
      | Inr env \<Rightarrow>
          if ev_Op env \<in> {''c'', ''u'', ''r''} then
            (case ev_After env of None \<Rightarrow> Inl (NilAfter (ev_Op env))
             | Some row \<Rightarrow> Inr (buildDoc row OpUpsert (commitTS now env)))
          else if ev_Op env = ''d'' then
            (case ev_Before env of None \<Rightarrow> Inl NilBefore
             | Some row \<Rightarrow> Inr (buildDoc row OpDelete (commitTS now env)))
          else if ev_Op env \<in> {''t'', []} then Inl ErrSkip
          else Inl (UnknownOp (ev_Op env)))"

subsection \<open>The consumer loop\<close>

record err_texts =
  et_json :: "json_error \<Rightarrow> string"
  et_quote :: "string \<Rightarrow> string"

definition norm_error_text :: "err_texts \<Rightarrow> norm_error \<Rightarrow> string" where
  "norm_error_text x e =
     (case e of
        DecodeEnvelope je \<Rightarrow> ''normalizer: decode envelope: '' @ et_json x je
      | NilAfter op \<Rightarrow> ''normalizer: op '' @ et_quote x op @ '' with nil after''
      | NilBefore \<Rightarrow> ''normalizer: delete with nil before''
      | ErrSkip \<Rightarrow> ''normalizer: skip event''
      | UnknownOp op \<Rightarrow> ''normalizer: unknown op '' @ et_quote x op)"

definition doc_error_text :: "err_texts \<Rightarrow> doc_error \<Rightarrow> string" where
  "doc_error_text x e =
     (case e of
        SourceRequired \<Rightarrow> ''canonical doc: source is required''
      | DocIDRequired \<Rightarrow> ''canonical doc: doc_id is required''
      | InvalidOp op \<Rightarrow> ''canonical doc: invalid op '' @ et_quote x op
      | InvalidTier t \<Rightarrow> ''canonical doc: invalid tier '' @ et_quote x t
      | NegativeVersion v \<Rightarrow> ''canonical doc: version must be >= 0, got '' @ Itoa v
      | CommitTSRequired \<Rightarrow> ''canonical doc: commit_ts is required''
      | UpsertNeedsText \<Rightarrow> ''canonical doc: upsert requires title or body'')"

record topics =
  tp_fast :: string
  tp_bulk :: string
  tp_dlq :: string

definition dlqRecord :: "string \<Rightarrow> message \<Rightarrow> string \<Rightarrow> out_record" where
  "dlqRecord topic original reason =
     \<lparr>or_Topic = topic, or_Key = None, or_Value = dlq_value ''normalizer'' reason original\<rparr>"

text \<open>
  The callback of \<open>EachRecord\<close>: the record it appends to \<open>toProduce\<close>, if any, and its
  increments of the \<open>DLQEvents\<close> counter.
\<close>

definition handle_record ::
  "topics \<Rightarrow> err_texts \<Rightarrow> time \<Rightarrow> message \<Rightarrow> out_record list \<times> metric list" where
  "handle_record tp x now v =
     (case v of
        None \<Rightarrow> ([], [])
      | Some r \<Rightarrow>
          if r = NotJSON [] then ([], [])
          else (case FromDebezium now r of
                  Inl e \<Rightarrow>
                    if e = ErrSkip then ([], [])
                    else ([dlqRecord (tp_dlq tp) v (norm_error_text x e)], [DLQEvents ''postgres'' ''normalize_error''])
                | Inr doc \<Rightarrow>
                    (case Validate doc of
                       Some e \<Rightarrow> ([dlqRecord (tp_dlq tp) v (doc_error_text x e)], [DLQEvents (Source doc) ''invalid_doc''])
                     | None \<Rightarrow>
                         ([\<lparr>or_Topic = (if Tier doc = TierUrgent then tp_fast tp else tp_bulk tp),
                            or_Key = Some (DocID doc), or_Value = map_option JText (marshal_doc doc)\<rparr>], []))))"

text \<open>
  One partition of the change topic as the consumer sees it: the position of the next fetch,
  the committed offset; and what reached the brokers, and the counter.
\<close>

record norm_state =
  ns_pos :: nat
  ns_committed :: nat
  ns_out :: "out_record list"
  ns_dlq :: "metric list"

text \<open>
  What happens in one iteration: the fetch returns up to \<open>n\<close> records, with or without errors
  of other partitions; \<open>ProduceSync\<close> succeeds or fails after the records at the listed indices were
  written; the commit succeeds or fails. A restart resumes from the committed offset.
\<close>

datatype poll_event =
    Fetched nat bool "nat list option" bool time
  | Restart

definition fetched_records :: "message list \<Rightarrow> norm_state \<Rightarrow> nat \<Rightarrow> message list" where
  "fetched_records cdc s n = take n (drop (ns_pos s) cdc)"

definition poll_step :: "topics \<Rightarrow> err_texts \<Rightarrow> message list \<Rightarrow> norm_state \<Rightarrow> poll_event \<Rightarrow> norm_state" where
  "poll_step tp x cdc s ev =
     (case ev of
        Restart \<Rightarrow> s\<lparr>ns_pos := ns_committed s\<rparr>
      | Fetched n fetch_errs produce_fails commit_ok now \<Rightarrow>
          (let rs = fetched_records cdc s n;
               s1 = s\<lparr>ns_pos := ns_pos s + length rs\<rparr>
           in if fetch_errs then s1
              else (let toProduce = concat (map (\<lambda>r. fst (handle_record tp x now r)) rs);
                        s2 = s1\<lparr>ns_dlq := ns_dlq s1 @ concat (map (\<lambda>r. snd (handle_record tp x now r)) rs)\<rparr>
                    in case (if toProduce = [] then None else produce_fails) of
                         Some landed \<Rightarrow> s2\<lparr>ns_out := ns_out s2 @ nths toProduce (set landed)\<rparr>
                       | None \<Rightarrow>
                           (let s3 = s2\<lparr>ns_out := ns_out s2 @ toProduce\<rparr>
                            in if commit_ok then s3\<lparr>ns_committed := ns_pos s3\<rparr> else s3))))"

definition norm_init :: norm_state where
  "norm_init = \<lparr>ns_pos = 0, ns_committed = 0, ns_out = [], ns_dlq = []\<rparr>"

definition norm_run :: "topics \<Rightarrow> err_texts \<Rightarrow> message list \<Rightarrow> poll_event list \<Rightarrow> norm_state" where
  "norm_run tp x cdc evs = foldl (poll_step tp x cdc) norm_init evs"

subsection \<open>Specification\<close>

text \<open>An iteration that moves past records without publishing all of their output.\<close>

definition lossy :: "poll_event \<Rightarrow> bool" where
  "lossy ev = (case ev of Restart \<Rightarrow> False | Fetched n fe pf c now \<Rightarrow> fe \<or> pf \<noteq> None)"

text \<open>The process is restarted after every such iteration.\<close>

fun restarts_after_loss :: "poll_event list \<Rightarrow> bool" where
  "restarts_after_loss [] = True"
| "restarts_after_loss [ev] = True"
| "restarts_after_loss (ev # ev' # evs) =
     ((lossy ev \<longrightarrow> ev' = Restart) \<and> restarts_after_loss (ev' # evs))"

text \<open>What some processing of a record publishes is among the published records.\<close>

definition published :: "topics \<Rightarrow> err_texts \<Rightarrow> out_record list \<Rightarrow> message \<Rightarrow> bool" where
  "published tp x out r \<longleftrightarrow> (\<exists>now. set (fst (handle_record tp x now r)) \<subseteq> set out)"

text \<open>The value Debezium writes for a change of a row (schemas disabled), at \<open>ms\<close> milliseconds.\<close>

definition row_json :: "documentRow \<Rightarrow> json" where
  "row_json r = JObj [(''id'', JInt (dr_ID r)), (''tenant_id'', JInt (dr_TenantID r)), (''title'', JStr (dr_Title r)),
     (''body'', JStr (dr_Body r)), (''category'', JStr (dr_Category r)), (''tier'', JStr (dr_Tier r)),
     (''updated_at'', JStr (dr_UpdatedAt r)), (''version'', JInt (dr_Version r))]"

definition change_event :: "string \<Rightarrow> documentRow \<Rightarrow> int \<Rightarrow> raw" where
  "change_event op row ms = JText (JObj
     [(''before'', if op = ''d'' then row_json row else JNull),
      (''after'', if op = ''d'' then JNull else row_json row), (''op'', JStr op),
      (''source'', JObj [(''ts_ms'', JInt ms), (''table'', JStr ''documents'')]), (''ts_ms'', JInt ms)])"

text \<open>What an iteration has to publish for the records it fetched.\<close>

definition outputs :: "topics \<Rightarrow> err_texts \<Rightarrow> time \<Rightarrow> message list \<Rightarrow> out_record list" where
  "outputs tp x now rs = concat (map (\<lambda>r. fst (handle_record tp x now r)) rs)"

subsection \<open>Lemmas: decoding\<close>

definition int64_row :: "documentRow \<Rightarrow> bool" where
  "int64_row r \<longleftrightarrow> in_int64 (dr_ID r) \<and> in_int64 (dr_TenantID r) \<and> in_int64 (dr_Version r)"

lemma int64_zero_row: "int64_row zero_row"
  by (simp add: int64_row_def zero_row_def in_int64_def)

lemma set_row_int64: "int64_row r \<Longrightarrow> set_row k j r = Inr r' \<Longrightarrow> int64_row r'"
  by (auto simp: set_row_def int64_row_def into_def dest: dec_int64_range split: if_splits sum.splits)

lemma dec_row_int64: "int64_row r \<Longrightarrow> dec_row j r = Inr r' \<Longrightarrow> int64_row r'"
  unfolding dec_row_def dec_struct_def
  by (auto split: json.splits dest: dec_fields_inv [where P = int64_row, rotated 2] intro: set_row_int64)

lemma dec_pointer_row_int64:
  assumes "pred_option int64_row old" "dec_pointer zero_row dec_row j old = Inr p"
  shows "pred_option int64_row p"
  using assms int64_zero_row
  by (auto simp: dec_pointer_def split: if_splits option.splits sum.splits dest: dec_row_int64)

definition int64_envelope :: "debeziumEnvelope \<Rightarrow> bool" where
  "int64_envelope e \<longleftrightarrow> pred_option int64_row (ev_Before e) \<and> pred_option int64_row (ev_After e)"

lemma set_envelope_int64: "int64_envelope e \<Longrightarrow> set_envelope k j e = Inr e' \<Longrightarrow> int64_envelope e'"
  by (auto simp: set_envelope_def int64_envelope_def into_def dest: dec_pointer_row_int64
      split: if_splits sum.splits)

lemma dec_envelope_int64: "dec_envelope j zero_envelope = Inr e \<Longrightarrow> int64_envelope e"
proof -
  have z: "int64_envelope zero_envelope" by (simp add: int64_envelope_def zero_envelope_def)
  assume "dec_envelope j zero_envelope = Inr e"
  then show ?thesis
    unfolding dec_envelope_def dec_struct_def using z
    by (auto split: json.splits intro: dec_fields_inv [of int64_envelope set_envelope, OF set_envelope_int64])
qed

text \<open>Every document comes from a decoded row, with the operation the tier rule expects.\<close>

lemma FromDebezium_row:
  assumes "FromDebezium now r = Inr d"
  obtains row op ts where "d = buildDoc row op ts" "op = OpUpsert \<or> op = OpDelete" "int64_row row"
proof -
  obtain env where env: "Unmarshal dec_envelope zero_envelope r = Inr env"
    using assms by (auto simp: FromDebezium_def split: sum.splits)
  then have "int64_envelope env"
    by (auto simp: Unmarshal_def split: raw.splits dest: dec_envelope_int64)
  with assms env show thesis
    by (auto simp: FromDebezium_def int64_envelope_def split: if_splits option.splits intro: that)
qed

lemma buildDoc_simps [simp]:
  "Source (buildDoc row op ts) = SourcePostgres" "Op (buildDoc row op ts) = op"
  "Tier (buildDoc row op ts) = classifyTier op row" "Version (buildDoc row op ts) = dr_Version row"
  "CommitTS (buildDoc row op ts) = ts" "TenantID (buildDoc row op ts) = dr_TenantID row"
  "Title (buildDoc row op ts) = dr_Title row" "Body (buildDoc row op ts) = dr_Body row"
  "DocID (buildDoc row op ts) = ''postgres:documents:'' @ Itoa (dr_ID row)"
  by (simp_all add: buildDoc_def NamespacedDocID_def SourcePostgres_def Let_def)

lemma buildDoc_change:
  "buildDoc row (if op = ''d'' then OpDelete else OpUpsert) ts =
     \<lparr>Source = ''postgres'', SourceID = ''documents:'' @ Itoa (dr_ID row),
      DocID = ''postgres:documents:'' @ Itoa (dr_ID row), TenantID = dr_TenantID row,
      Op = (if op = ''d'' then ''delete'' else ''upsert''),
      Tier = (if op = ''d'' \<or> dr_Tier row = ''urgent'' then ''urgent'' else ''bulk''),
      Version = dr_Version row, CommitTS = ts, Title = dr_Title row, Body = dr_Body row, ChunkID = 0,
      Metadata = \<lparr>Category = dr_Category row, URL = [], Author = []\<rparr>\<rparr>"
  by (simp add: buildDoc_def Let_def classifyTier_def SourcePostgres_def NamespacedDocID_def op_tier_defs)

lemma int64_buildDoc: "int64_row row \<Longrightarrow> int64_fields (buildDoc row op ts)"
  by (simp add: int64_fields_def int64_row_def buildDoc_def Let_def in_int64_def)

lemma ToLower_event_keys [simp]:
  "ToLower ''id'' = ''id''" "ToLower ''updated_at'' = ''updated_at''" "ToLower ''before'' = ''before''"
  "ToLower ''after'' = ''after''" "ToLower ''ts_ms'' = ''ts_ms''" "ToLower ''table'' = ''table''"
  by (simp_all add: ToLower_def lower_char_def)

lemma dec_row_json: "int64_row row \<Longrightarrow> dec_row (row_json row) old = Inr row"
  by (cases row, cases old) (simp add: dec_row_def dec_struct_def row_json_def set_row_def int64_row_def)

lemma row_json_not_null [simp]: "row_json row \<noteq> JNull"
  by (simp add: row_json_def)

lemma FromDebezium_change_event:
  assumes "int64_row row" "in_int64 ms" "ms \<noteq> 0" "op \<in> {''c'', ''u'', ''r'', ''d''}"
  shows "FromDebezium now (change_event op row ms) =
    Inr (buildDoc row (if op = ''d'' then OpDelete else OpUpsert) (ms * 10 ^ 6))"
proof -
  have p: "dec_pointer zero_row dec_row (row_json row) None = Inr (Some row)"
    "dec_pointer zero_row dec_row JNull None = Inr None"
    using assms(1) by (simp_all add: dec_pointer_def dec_row_json)
  have s: "dec_source (JObj [(''ts_ms'', JInt ms), (''table'', JStr ''documents'')])
      \<lparr>es_TsMs = 0, es_LSN = 0, es_Table = []\<rparr> = Inr \<lparr>es_TsMs = ms, es_LSN = 0, es_Table = ''documents''\<rparr>"
    using assms(2) by (simp add: dec_source_def dec_struct_def)
  have "Unmarshal dec_envelope zero_envelope (change_event op row ms) =
      Inr \<lparr>ev_Before = (if op = ''d'' then Some row else None), ev_After = (if op = ''d'' then None else Some row),
        ev_Op = op, ev_Source = \<lparr>es_TsMs = ms, es_LSN = 0, es_Table = ''documents''\<rparr>, ev_TsMs = ms\<rparr>"
    using assms(2) p s
    by (simp add: Unmarshal_def change_event_def dec_envelope_def dec_struct_def zero_envelope_def set_envelope_def)
  then show ?thesis using assms(3,4) by (auto simp: FromDebezium_def commitTS_def)
qed

subsection \<open>Lemmas: one record\<close>

lemma handle_record_lane:
  assumes "rec \<in> set (fst (handle_record tp x now v))" "or_Key rec = Some k"
  obtains r d where "v = Some r" "FromDebezium now r = Inr d" "Validate d = None" "k = DocID d"
    "or_Topic rec = (if Tier d = TierUrgent then tp_fast tp else tp_bulk tp)"
    "or_Value rec = map_option JText (marshal_doc d)"
  using assms
  by (auto simp: handle_record_def dlqRecord_def split: option.splits if_splits sum.splits intro: that)

lemma lane_record_decodes:
  assumes "rec \<in> set (fst (handle_record tp x now v))" "or_Key rec = Some k"
  shows "\<exists>r d. v = Some r \<and> FromDebezium now r = Inr d \<and> Validate d = None \<and> DocID d = k \<and>
    or_Topic rec = (if Tier d = TierUrgent then tp_fast tp else tp_bulk tp) \<and>
    (Op d = OpDelete \<longrightarrow> Tier d = TierUrgent) \<and>
    (if 0 \<le> year_of (CommitTS d) \<and> year_of (CommitTS d) \<le> 9999 then read_doc (or_Value rec) = Inr d
     else or_Value rec = None)"
proof -
  obtain r d where d: "v = Some r" "FromDebezium now r = Inr d" "Validate d = None" "k = DocID d"
    "or_Topic rec = (if Tier d = TierUrgent then tp_fast tp else tp_bulk tp)"
    "or_Value rec = map_option JText (marshal_doc d)"
    using handle_record_lane [OF assms(1,2)] by metis
  obtain row op ts where b: "d = buildDoc row op ts" "int64_row row" using FromDebezium_row [OF d(2)] by metis
  have "read_doc (or_Value rec) = Inr d" if "marshal_doc d = Some j" for j
    using read_marshal [OF _ that] int64_buildDoc [OF b(2)] b(1) d(6) that by simp
  moreover have "marshal_doc d = None \<longleftrightarrow> \<not> (0 \<le> year_of (CommitTS d) \<and> year_of (CommitTS d) \<le> 9999)"
    by (auto simp: marshal_doc_def marshal_time_def)
  moreover have "Op d = OpDelete \<longrightarrow> Tier d = TierUrgent" using b(1) by (simp add: classifyTier_def)
  ultimately show ?thesis using d by (cases "marshal_doc d") auto
qed

text \<open>A change event is published as one record that decodes to the document of its row.\<close>

lemma handle_change_event:
  assumes "int64_row row" "0 \<le> dr_Version row" "op = ''d'' \<or> dr_Title row \<noteq> [] \<or> dr_Body row \<noteq> []"
    and "in_int64 ms" "0 < ms" "year_of (ms * 10 ^ 6) \<le> 9999" "op \<in> {''c'', ''u'', ''r'', ''d''}"
  shows "\<exists>rec. handle_record tp x now (Some (change_event op row ms)) = ([rec], []) \<and>
    or_Key rec = Some (''postgres:documents:'' @ Itoa (dr_ID row)) \<and>
    or_Topic rec = (if op = ''d'' \<or> dr_Tier row = TierUrgent then tp_fast tp else tp_bulk tp) \<and>
    read_doc (or_Value rec) = Inr (buildDoc row (if op = ''d'' then OpDelete else OpUpsert) (ms * 10 ^ 6))"
proof -
  let ?d = "buildDoc row (if op = ''d'' then OpDelete else OpUpsert) (ms * 10 ^ 6)"
  have fd: "FromDebezium now (change_event op row ms) = Inr ?d"
    using FromDebezium_change_event [OF assms(1,4) _ assms(7)] assms(5) by simp
  have "0 \<le> year_of (ms * 10 ^ 6)" by (rule year_of_nonneg) (use assms(5) in \<open>simp add: epoch_day_def day_ns_def\<close>)
  then obtain j where j: "marshal_doc ?d = Some j"
    using assms(6) by (auto simp: marshal_doc_def marshal_time_def)
  have v: "Validate ?d = None"
    using assms(2,3,5) by (auto simp: Validate_Some_iff SourcePostgres_def classifyTier_def zero_time_def)
  have "change_event op row ms \<noteq> NotJSON []" by (simp add: change_event_def)
  with fd v j have "handle_record tp x now (Some (change_event op row ms)) =
      ([\<lparr>or_Topic = (if Tier ?d = TierUrgent then tp_fast tp else tp_bulk tp),
         or_Key = Some (DocID ?d), or_Value = Some (JText j)\<rparr>], [])"
    by (simp add: handle_record_def)
  moreover have "read_doc (Some (JText j)) = Inr ?d"
    by (rule read_marshal [OF int64_buildDoc [OF assms(1)] j])
  moreover have "Tier ?d = TierUrgent \<longleftrightarrow> op = ''d'' \<or> dr_Tier row = TierUrgent"
    by (auto simp: classifyTier_def op_tier_defs)
  ultimately show ?thesis by simp
qed

subsection \<open>Lemmas: the loop\<close>

lemma published_mono: "published tp x out r \<Longrightarrow> set out \<subseteq> set out' \<Longrightarrow> published tp x out' r"
  unfolding published_def by blast

text \<open>All records below an offset are published.\<close>

definition published_upto :: "topics \<Rightarrow> err_texts \<Rightarrow> message list \<Rightarrow> out_record list \<Rightarrow> nat \<Rightarrow> bool" where
  "published_upto tp x cdc out n \<longleftrightarrow> (\<forall>i < n. i < length cdc \<longrightarrow> published tp x out (cdc ! i))"

lemma published_upto_mono:
  "published_upto tp x cdc out n \<Longrightarrow> set out \<subseteq> set out' \<Longrightarrow> m \<le> n \<Longrightarrow> published_upto tp x cdc out' m"
  unfolding published_upto_def using published_mono by (metis order_less_le_trans)

lemma ns_out_mono: "set (ns_out s) \<subseteq> set (ns_out (poll_step tp x cdc s ev))"
  by (auto simp: poll_step_def Let_def split: poll_event.splits option.splits)

lemma fetched_nth:
  assumes "ns_pos s \<le> i" "i < ns_pos s + n" "i < length cdc"
  shows "cdc ! i = fetched_records cdc s n ! (i - ns_pos s) \<and> cdc ! i \<in> set (fetched_records cdc s n)"
proof -
  have "i - ns_pos s < length (fetched_records cdc s n)" "fetched_records cdc s n ! (i - ns_pos s) = cdc ! i"
    using assms by (auto simp: fetched_records_def)
  then show ?thesis by (metis nth_mem)
qed

lemma published_upto_fetch:
  assumes "published_upto tp x cdc out (ns_pos s)"
    and "set (concat (map (\<lambda>r. fst (handle_record tp x now r)) (fetched_records cdc s n))) \<subseteq> set out"
  shows "published_upto tp x cdc out (ns_pos s + length (fetched_records cdc s n))"
  unfolding published_upto_def
proof (intro allI impI)
  fix i
  assume i: "i < ns_pos s + length (fetched_records cdc s n)" "i < length cdc"
  show "published tp x out (cdc ! i)"
  proof (cases "i < ns_pos s")
    case True
    then show ?thesis using assms(1) i(2) by (simp add: published_upto_def)
  next
    case False
    then have "fetched_records cdc s n ! (i - ns_pos s) = cdc ! i" and "i - ns_pos s < length (fetched_records cdc s n)"
      using i by (auto simp: fetched_records_def)
    then have "cdc ! i \<in> set (fetched_records cdc s n)" by (metis nth_mem)
    then show ?thesis using assms(2) unfolding published_def by fastforce
  qed
qed

text \<open>The effect of one iteration on the offsets.\<close>

lemma poll_step_offsets:
  assumes "published_upto tp x cdc (ns_out s) (ns_pos s)" "ns_committed s \<le> ns_pos s"
    and s'_def: "s' = poll_step tp x cdc s ev"
  shows "ns_committed s' \<le> ns_pos s'" and "published_upto tp x cdc (ns_out s') (ns_committed s')"
    and "\<not> lossy ev \<Longrightarrow> published_upto tp x cdc (ns_out s') (ns_pos s')"
proof -
  have keep: "published_upto tp x cdc (ns_out s') n" if "n \<le> ns_pos s" for n
    using published_upto_mono [OF assms(1) ns_out_mono that] by (simp add: s'_def)
  have clean: "published_upto tp x cdc (ns_out s') (ns_pos s')" if nl: "\<not> lossy ev"
  proof (cases ev)
    case Restart
    then show ?thesis using keep assms(2) by (simp add: s'_def poll_step_def)
  next
    case (Fetched n fe pf c now)
    with nl have f: "fe = False" "pf = None" by (auto simp: lossy_def)
    let ?tp = "concat (map (\<lambda>r. fst (handle_record tp x now r)) (fetched_records cdc s n))"
    have out: "ns_out s' = ns_out s @ ?tp" and pos: "ns_pos s' = ns_pos s + length (fetched_records cdc s n)"
      using Fetched f by (auto simp: s'_def poll_step_def Let_def)
    show ?thesis unfolding pos
      by (rule published_upto_fetch [OF keep [OF order_refl], where now = now]) (simp add: out)
  qed
  then show "\<not> lossy ev \<Longrightarrow> published_upto tp x cdc (ns_out s') (ns_pos s')" .
  have "ns_committed s' = ns_committed s \<or> \<not> lossy ev \<and> ns_committed s' = ns_pos s'
      \<or> (\<exists>n pf c now. ev = Fetched n False pf c now \<and> ns_committed s' = ns_pos s' \<and>
           concat (map (\<lambda>r. fst (handle_record tp x now r)) (fetched_records cdc s n)) = [])"
    by (auto simp: s'_def poll_step_def Let_def lossy_def split: poll_event.splits option.splits)
  then show "published_upto tp x cdc (ns_out s') (ns_committed s')"
  proof (elim disjE exE conjE)
    assume "ns_committed s' = ns_committed s"
    then show ?thesis using keep assms(2) by simp
  next
    assume "\<not> lossy ev" "ns_committed s' = ns_pos s'"
    then show ?thesis using clean by simp
  next
    fix n pf c now
    assume ev: "ev = Fetched n False pf c now" and com: "ns_committed s' = ns_pos s'"
      and none: "concat (map (\<lambda>r. fst (handle_record tp x now r)) (fetched_records cdc s n)) = []"
    have pos: "ns_pos s' = ns_pos s + length (fetched_records cdc s n)"
      using ev none by (auto simp: s'_def poll_step_def Let_def)
    show ?thesis unfolding com pos
      by (rule published_upto_fetch [OF keep [OF order_refl], where now = now]) (simp only: none list.set empty_subsetI)
  qed
  show "ns_committed s' \<le> ns_pos s'"
    using assms(2) by (auto simp: s'_def poll_step_def Let_def split: poll_event.splits option.splits)
qed

lemma run_published:
  assumes "restarts_after_loss evs" "ns_committed s \<le> ns_pos s"
    and "published_upto tp x cdc (ns_out s) (ns_committed s)"
    and "published_upto tp x cdc (ns_out s) (ns_pos s) \<or> evs = [] \<or> hd evs = Restart"
  shows "published_upto tp x cdc (ns_out (foldl (poll_step tp x cdc) s evs))
    (ns_committed (foldl (poll_step tp x cdc) s evs))"
  using assms
proof (induction evs arbitrary: s)
  case (Cons ev evs)
  let ?s = "poll_step tp x cdc s ev"
  have rest: "restarts_after_loss evs" and nxt: "lossy ev \<Longrightarrow> evs = [] \<or> hd evs = Restart"
    using Cons.prems(1) by (cases evs; simp)+
  have "ns_committed ?s \<le> ns_pos ?s \<and> published_upto tp x cdc (ns_out ?s) (ns_committed ?s) \<and>
      (published_upto tp x cdc (ns_out ?s) (ns_pos ?s) \<or> evs = [] \<or> hd evs = Restart)"
  proof (cases "ev = Restart")
    case True
    then show ?thesis using Cons.prems(3) by (simp add: poll_step_def)
  next
    case False
    then have "published_upto tp x cdc (ns_out s) (ns_pos s)" using Cons.prems(4) by auto
    from poll_step_offsets [OF this Cons.prems(2) refl, of ev] nxt show ?thesis by blast
  qed
  then show ?case using Cons.IH [OF rest, of ?s] by simp
qed simp

lemma pos_in_log: "ns_pos s \<le> length cdc \<Longrightarrow> ns_committed s \<le> ns_pos s \<Longrightarrow>
    ns_committed (foldl (poll_step tp x cdc) s evs) \<le> length cdc"
proof (induction evs arbitrary: s)
  case (Cons ev evs)
  have "ns_pos (poll_step tp x cdc s ev) \<le> length cdc \<and>
      ns_committed (poll_step tp x cdc s ev) \<le> ns_pos (poll_step tp x cdc s ev)"
    using Cons.prems
    by (auto simp: poll_step_def Let_def fetched_records_def split: poll_event.splits option.splits)
  then show ?case using Cons.IH by simp
qed simp

subsection \<open>Properties\<close>

definition ex_topics :: topics where
  "ex_topics = \<lparr>tp_fast = ''docs.fast'', tp_bulk = ''docs.bulk'', tp_dlq = ''docs.dlq''\<rparr>"

definition ex_texts :: err_texts where
  "ex_texts = \<lparr>et_json = (\<lambda>e. []), et_quote = (\<lambda>s. s)\<rparr>"

definition ex_row :: "int \<Rightarrow> int \<Rightarrow> documentRow" where
  "ex_row i v = \<lparr>dr_ID = i, dr_TenantID = 7, dr_Title = ''t'', dr_Body = ''b'', dr_Category = [],
     dr_Tier = TierBulk, dr_UpdatedAt = [], dr_Version = v\<rparr>"

text \<open>C9: A row change survives the whole way to the indexer: the Debezium event of a row with
  a non-negative version (and some text, unless it is deleted) makes the normalizer publish
  exactly one record, keyed by the id of the row's document, on the fast lane if the row is
  deleted or urgent and on the bulk lane otherwise; decoding that record gives the document
  of Postgres table \<open>documents\<close> with the id, tenant, version, title, body and category of the row,
  the operation and the tier of the change, and the commit time of the source.\<close>

theorem row_change_reaches_lane:
  assumes "int64_row row" "0 \<le> dr_Version row" "op = ''d'' \<or> dr_Title row \<noteq> [] \<or> dr_Body row \<noteq> []"
    and "in_int64 ms" "0 < ms" "year_of (ms * 10 ^ 6) \<le> 9999" "op \<in> {''c'', ''u'', ''r'', ''d''}"
  shows "\<exists>rec. handle_record tp x now (Some (change_event op row ms)) = ([rec], []) \<and>
    or_Key rec = Some (''postgres:documents:'' @ Itoa (dr_ID row)) \<and>
    or_Topic rec = (if op = ''d'' \<or> dr_Tier row = ''urgent'' then tp_fast tp else tp_bulk tp) \<and>
    read_doc (or_Value rec) = Inr \<lparr>Source = ''postgres'', SourceID = ''documents:'' @ Itoa (dr_ID row),
      DocID = ''postgres:documents:'' @ Itoa (dr_ID row), TenantID = dr_TenantID row,
      Op = (if op = ''d'' then ''delete'' else ''upsert''),
      Tier = (if op = ''d'' \<or> dr_Tier row = ''urgent'' then ''urgent'' else ''bulk''),
      Version = dr_Version row, CommitTS = ms * 10 ^ 6, Title = dr_Title row, Body = dr_Body row, ChunkID = 0,
      Metadata = \<lparr>Category = dr_Category row, URL = [], Author = []\<rparr>\<rparr>"
  using handle_change_event [OF assms, of tp x now] unfolding buildDoc_change TierUrgent_def .

theorem row_change_reaches_lane_witness:
  "\<exists>rec. handle_record ex_topics ex_texts 0 (Some (change_event ''u'' (ex_row 42 3) 1700000000000)) = ([rec], []) \<and>
    or_Key rec = Some (''postgres:documents:'' @ Itoa 42) \<and> or_Topic rec = ''docs.bulk'' \<and>
    read_doc (or_Value rec) = Inr \<lparr>Source = ''postgres'', SourceID = ''documents:'' @ Itoa 42,
      DocID = ''postgres:documents:'' @ Itoa 42, TenantID = 7, Op = ''upsert'', Tier = ''bulk'', Version = 3,
      CommitTS = 1700000000000000000, Title = ''t'', Body = ''b'', ChunkID = 0,
      Metadata = \<lparr>Category = [], URL = [], Author = []\<rparr>\<rparr>"
proof -
  have y: "year_of (1700000000000 * 10 ^ 6) \<le> 9999"
    by (simp add: year_of_def year_day_def Let_def day_ns_def epoch_day_def)
  then show ?thesis
    using row_change_reaches_lane [of "ex_row 42 3" "''u''" 1700000000000 ex_topics ex_texts 0]
    by (simp add: int64_row_def ex_row_def in_int64_def ex_topics_def op_tier_defs)
qed

text \<open>C20: What the normalizer publishes with a key comes from an event whose document is valid,
  has the key as its id and is on the lane of its tier; a delete is always on the
  fast lane. If the commit time is in the years 0 to 9999, the indexer decodes the record to
  exactly that document. Outside these years \<open>json.Marshal\<close> of the time fails, the code ignores
  the error, and the record is published with its key and a null value.\<close>

theorem lane_records_valid:
  assumes "rec \<in> set (fst (handle_record tp x now v))" "or_Key rec = Some k"
  shows "\<exists>r d. v = Some r \<and> FromDebezium now r = Inr d \<and> Validate d = None \<and> DocID d = k \<and>
    or_Topic rec = (if Tier d = TierUrgent then tp_fast tp else tp_bulk tp) \<and>
    (Op d = OpDelete \<longrightarrow> Tier d = TierUrgent) \<and>
    (if 0 \<le> year_of (CommitTS d) \<and> year_of (CommitTS d) \<le> 9999 then read_doc (or_Value rec) = Inr d
     else or_Value rec = None)"
  using assms by (rule lane_record_decodes)

theorem lane_records_valid_witness:
  "\<exists>rec d. fst (handle_record ex_topics ex_texts 0 (Some (change_event ''u'' (ex_row 42 3) 1700000000000))) = [rec] \<and>
    read_doc (or_Value rec) = Inr d \<and> Validate d = None \<and> or_Topic rec = ''docs.bulk''"
proof -
  let ?d = "buildDoc (ex_row 42 3) OpUpsert (1700000000000 * 10 ^ 6)"
  have fd: "FromDebezium 0 (change_event ''u'' (ex_row 42 3) 1700000000000) = Inr ?d"
    using FromDebezium_change_event [of "ex_row 42 3" 1700000000000 "''u''" 0]
    by (simp add: int64_row_def ex_row_def in_int64_def)
  have "0 \<le> year_of (1700000000000 * 10 ^ 6) \<and> year_of (1700000000000 * 10 ^ 6) \<le> 9999"
    by (simp add: year_of_def year_day_def Let_def day_ns_def epoch_day_def)
  then obtain j where j: "marshal_doc ?d = Some j"
    by (auto simp: marshal_doc_def marshal_time_def simp del: mult_numeral_1_right)
  have v: "Validate ?d = None"
    by (simp add: Validate_Some_iff SourcePostgres_def classifyTier_def zero_time_def ex_row_def)
  have tier: "Tier ?d \<noteq> TierUrgent" by (simp add: classifyTier_def ex_row_def op_tier_defs)
  let ?rec = "\<lparr>or_Topic = ''docs.bulk'', or_Key = Some (DocID ?d), or_Value = Some (JText j)\<rparr>"
  have h: "handle_record ex_topics ex_texts 0 (Some (change_event ''u'' (ex_row 42 3) 1700000000000)) = ([?rec], [])"
    using fd v j tier by (simp add: handle_record_def change_event_def ex_topics_def)
  have "?rec \<in> set (fst (handle_record ex_topics ex_texts 0 (Some (change_event ''u'' (ex_row 42 3) 1700000000000))))"
    "or_Key ?rec = Some (DocID ?d)"
    by (simp_all add: h)
  from lane_records_valid [OF this] obtain d where "FromDebezium 0 (change_event ''u'' (ex_row 42 3) 1700000000000) = Inr d"
    "Validate d = None" "if 0 \<le> year_of (CommitTS d) \<and> year_of (CommitTS d) \<le> 9999 then read_doc (or_Value ?rec) = Inr d
     else or_Value ?rec = None" by blast
  then have "read_doc (or_Value ?rec) = Inr d \<and> Validate d = None" by (auto split: if_splits)
  with h show ?thesis by auto
qed

text \<open>C10: At least once: as long as the process is restarted after an iteration in which a fetch
  reported errors or a produce request failed, every record of the change topic below the
  committed offset has its whole output on the brokers, whatever else happens (failed
  commits, restarts at any point, any batch sizes).\<close>

theorem committed_records_published:
  assumes "restarts_after_loss evs" and "i < ns_committed (norm_run tp x cdc evs)"
  shows "i < length cdc \<and> published tp x (ns_out (norm_run tp x cdc evs)) (cdc ! i)"
proof -
  have "ns_committed (norm_run tp x cdc evs) \<le> length cdc"
    unfolding norm_run_def by (rule pos_in_log) (simp_all add: norm_init_def)
  moreover have "published_upto tp x cdc (ns_out (norm_run tp x cdc evs)) (ns_committed (norm_run tp x cdc evs))"
    unfolding norm_run_def
    by (rule run_published [OF assms(1)]) (simp_all add: norm_init_def published_upto_def)
  ultimately show ?thesis using assms(2) by (simp add: published_upto_def)
qed

theorem committed_records_published_witness:
  "published ex_topics ex_texts (ns_out (norm_run ex_topics ex_texts [Some (NotJSON ''x'')]
     [Fetched 1 False (Some []) True 0, Restart, Fetched 1 False None True 0])) (Some (NotJSON ''x''))"
  using committed_records_published [of "[Fetched 1 False (Some []) True 0, Restart, Fetched 1 False None True 0]"
    0 ex_topics ex_texts "[Some (NotJSON ''x'')]"]
  by (simp add: lossy_def norm_run_def norm_init_def poll_step_def fetched_records_def Let_def handle_record_def
      FromDebezium_def Unmarshal_def)

text \<open>C37: The loop does not reprocess after a produce error, although its comment says so: when
  the produce request of one iteration fails, wherever the consumer stands, and the next
  iteration goes through, its commit covers the records of the failed one as well, and an
  output of theirs that had not reached the brokers is not there afterwards either.\<close>

theorem produce_error_loses_records:
  assumes "s1 = poll_step tp x cdc s (Fetched n False (Some landed) c now)"
    and "s2 = poll_step tp x cdc s1 (Fetched n' False None True now')"
    and "ns_pos s \<le> i" "i < ns_pos s + n" "i < length cdc"
    and "lost \<in> set (fst (handle_record tp x now (cdc ! i)))" "lost \<notin> set (ns_out s)"
    and "lost \<notin> set (nths (outputs tp x now (fetched_records cdc s n)) (set landed))"
    and "lost \<notin> set (outputs tp x now' (fetched_records cdc s1 n'))"
  shows "i < ns_committed s2 \<and> lost \<notin> set (ns_out s2)"
proof -
  have "cdc ! i \<in> set (fetched_records cdc s n)"
    using fetched_nth [OF assms(3-5)] by metis
  then have "lost \<in> set (outputs tp x now (fetched_records cdc s n))"
    unfolding outputs_def using assms(6) by (simp add: bexI [where x = "cdc ! i"])
  then have ne: "outputs tp x now (fetched_records cdc s n) \<noteq> []" by auto
  have s1: "ns_pos s1 = ns_pos s + length (fetched_records cdc s n)"
    "ns_out s1 = ns_out s @ nths (outputs tp x now (fetched_records cdc s n)) (set landed)"
    using ne by (auto simp: assms(1) poll_step_def Let_def outputs_def)
  have s2: "ns_committed s2 = ns_pos s1 + length (fetched_records cdc s1 n')"
    "ns_out s2 = ns_out s1 @ outputs tp x now' (fetched_records cdc s1 n')"
    by (simp_all add: assms(2) poll_step_def Let_def outputs_def)
  have "i < ns_pos s1" using assms(3-5) by (simp add: s1 fetched_records_def)
  then show ?thesis using s2 s1(2) assms(7-9) by simp
qed

theorem produce_error_loses_records_witness:
  "let cdc = [Some (JText (JObj [(''op'', JStr ''c'')])), Some (NotJSON ''x'')];
       s2 = poll_step ex_topics ex_texts cdc (poll_step ex_topics ex_texts cdc norm_init (Fetched 1 False (Some []) True 0))
              (Fetched 1 False None True 0)
   in 0 < ns_committed s2 \<and>
      dlqRecord ''docs.dlq'' (cdc ! 0) ''normalizer: op c with nil after'' \<notin> set (ns_out s2)"
  unfolding Let_def
  by (rule produce_error_loses_records [OF refl refl])
     (simp_all add: norm_init_def poll_step_def fetched_records_def outputs_def Let_def handle_record_def
       FromDebezium_def Unmarshal_def dec_envelope_def dec_struct_def set_envelope_def
       zero_envelope_def norm_error_text_def ex_topics_def ex_texts_def dlqRecord_def dlq_value_def)

text \<open>A change committed after the year 9999 is lost: its record has the key of the document and
  no value, and the indexer cannot read it.\<close>

theorem late_change_is_null_record:
  assumes "int64_row row" "0 \<le> dr_Version row" "op = ''d'' \<or> dr_Title row \<noteq> [] \<or> dr_Body row \<noteq> []"
    and "in_int64 ms" "0 < ms" "9999 < year_of (ms * 10 ^ 6)" "op \<in> {''c'', ''u'', ''r'', ''d''}"
  shows "\<exists>rec e. handle_record tp x now (Some (change_event op row ms)) = ([rec], []) \<and>
    or_Key rec = Some (''postgres:documents:'' @ Itoa (dr_ID row)) \<and> or_Value rec = None \<and>
    read_doc (or_Value rec) = Inl e"
proof -
  let ?d = "buildDoc row (if op = ''d'' then OpDelete else OpUpsert) (ms * 10 ^ 6)"
  have fd: "FromDebezium now (change_event op row ms) = Inr ?d"
    using FromDebezium_change_event [OF assms(1,4) _ assms(7)] assms(5) by simp
  have "marshal_doc ?d = None" using assms(6) by (simp add: marshal_doc_def marshal_time_def)
  moreover have "Validate ?d = None"
    using assms(2,3,5) by (auto simp: Validate_Some_iff SourcePostgres_def classifyTier_def zero_time_def)
  moreover have "change_event op row ms \<noteq> NotJSON []" by (simp add: change_event_def)
  ultimately show ?thesis using fd by (simp add: handle_record_def read_doc_def)
qed

theorem late_change_is_null_record_witness:
  "\<exists>rec. fst (handle_record ex_topics ex_texts 0 (Some (change_event ''u'' (ex_row 42 3) 260000000000000))) = [rec] \<and>
    or_Value rec = None"
proof -
  have "9999 < year_of (260000000000000 * 10 ^ 6)"
    by (simp add: year_of_def year_day_def Let_def day_ns_def epoch_day_def)
  then show ?thesis
    using late_change_is_null_record [of "ex_row 42 3" "''u''" 260000000000000 ex_topics ex_texts 0]
    by (auto simp: int64_row_def ex_row_def in_int64_def)
qed

text \<open>A poison event that is not JSON is not preserved: the dead-letter record the normalizer
  writes for it has a null value, without the error, the stage or the event itself.\<close>

theorem poison_event_not_preserved:
  assumes "bytes \<noteq> []"
  shows "handle_record tp x now (Some (NotJSON bytes)) =
    ([\<lparr>or_Topic = tp_dlq tp, or_Key = None, or_Value = None\<rparr>], [DLQEvents ''postgres'' ''normalize_error''])"
  using assms by (simp add: handle_record_def FromDebezium_def Unmarshal_def dlqRecord_def dlq_value_def)

theorem poison_event_not_preserved_witness:
  "fst (handle_record ex_topics ex_texts 0 (Some (NotJSON ''{bad''))) =
     [\<lparr>or_Topic = ''docs.dlq'', or_Key = None, or_Value = None\<rparr>]"
  using poison_event_not_preserved [of "''{bad''" ex_topics ex_texts 0] by (simp add: ex_topics_def)

end
