(* ===== verification/Startup.thy ===== *)
theory Startup
  imports Lane Normalizer Query Obs
begin

text \<open>
  How the three services start and stop: \<open>main\<close> of \<open>cmd/normalizer\<close>, \<open>cmd/indexer\<close> and
  \<open>cmd/query\<close>, with \<open>internal/tracing/tracing.go\<close> and the client constructors of
  \<open>internal/kafka/kafka.go\<close>. A start is a sequence of calls; each has a result in the environment
  \<open>startup\<close>, and the first one that is fatal ends the process. \<open>boot\<close> returns the calls made and
  what stopped the start, if anything did.
\<close>

subsection \<open>Tracing\<close>

text \<open>The shutdown function \<open>Init\<close> returns; a nil function is \<^term>\<open>None\<close>.\<close>

datatype shutdown = NoopShutdown | ProviderShutdown

text \<open>The global state of the tracing library that \<open>Init\<close> sets.\<close>

record tracing =
  tr_propagators :: "string list"
  tr_provider :: "string option"

definition tracing_Init ::
  "(string \<Rightarrow> string) \<Rightarrow> string option \<Rightarrow> string \<Rightarrow> tracing \<Rightarrow>
   (shutdown option \<times> string option) \<times> tracing" where
  "tracing_Init getenv exporter service t =
     (let t1 = t\<lparr>tr_propagators := [''tracecontext'', ''baggage'']\<rparr>
      in if getenv ''OTEL_EXPORTER_OTLP_ENDPOINT'' = [] then ((Some NoopShutdown, None), t1)
         else (case exporter of
                 Some e \<Rightarrow> ((None, Some e), t1)
               | None \<Rightarrow> ((Some ProviderShutdown, None), t1\<lparr>tr_provider := Some service\<rparr>)))"

subsection \<open>Kafka clients\<close>

text \<open>The options passed to \<open>kgo.NewClient\<close>, which is a parameter.\<close>

datatype kgo_opt =
    SeedBrokers "string list"
  | SnappyCompression
  | RequiredAcksAllISR
  | ConsumerGroup string
  | ConsumeTopics "string list"
  | ConsumeResetAtStart
  | DisableAutoCommit
  | FetchMaxWait int

definition NewProducer :: "(kgo_opt list \<Rightarrow> string + 'c) \<Rightarrow> string list \<Rightarrow> string + 'c" where
  "NewProducer newClient brokers =
     newClient [SeedBrokers brokers, SnappyCompression, RequiredAcksAllISR]"

definition NewConsumer :: "(kgo_opt list \<Rightarrow> string + 'c) \<Rightarrow> string list \<Rightarrow> string \<Rightarrow> string list \<Rightarrow> string + 'c" where
  "NewConsumer newClient brokers grp topics =
     newClient [SeedBrokers brokers, ConsumerGroup grp, ConsumeTopics topics, ConsumeResetAtStart,
       DisableAutoCommit, FetchMaxWait (100 * 10 ^ 6)]"

subsection \<open>Starting\<close>

text \<open>
  The results of the calls a start makes: the constructors of the clients, the exporter of the
  trace backend, the attempts of \<open>mustReady\<close> per dependency, the schema calls, the topics.
\<close>

record startup =
  su_getenv :: "string \<Rightarrow> string"
  su_osNew :: "string \<Rightarrow> string option"
  su_qdNew :: "string \<Rightarrow> int \<Rightarrow> string option"
  su_exporter :: "string option"
  su_began :: "string \<Rightarrow> time"
  su_attempts :: "string \<Rightarrow> (bool \<times> time \<times> bool) list"
  su_createIndex :: create_result
  su_exists :: "string \<Rightarrow> string + bool"
  su_create :: "nat \<Rightarrow> string option"
  su_http :: http_api
  su_kgo :: "kgo_opt list \<Rightarrow> string + unit"
  su_topics :: "int \<Rightarrow> int \<Rightarrow> string list \<Rightarrow> string + (string \<times> string option) list"

datatype call =
    OpensearchClient string
  | QdrantClient string int
  | SemcacheClient string int
  | TracingInit string
  | WaitReady string
  | CreateIndex
  | CreateCollection string int
  | CreateTopics int int "string list"
  | Producer "string list"
  | Consumer string string
  | MetricsServer string
  | ListenHTTP string

datatype stop = Fatal string | StillWaiting string

fun boot :: "(call \<times> stop option) list \<Rightarrow> call list \<times> stop option" where
  "boot [] = ([], None)"
| "boot ((c, Some e) # steps) = ([c], Some e)"
| "boot ((c, None) # steps) = (case boot steps of (cs, r) \<Rightarrow> (c # cs, r))"

definition fatal :: "string \<Rightarrow> 'e option \<Rightarrow> stop option" where
  "fatal msg r = map_option (\<lambda>e. Fatal msg) r"

definition failed :: "string + 'a \<Rightarrow> string option" where
  "failed r = (case r of Inl e \<Rightarrow> Some e | Inr c \<Rightarrow> None)"

definition wait_ready :: "startup \<Rightarrow> string \<Rightarrow> call \<times> stop option" where
  "wait_ready su name =
     (WaitReady name,
      case mustReady (ready_deadline (su_began su name)) (su_attempts su name) of
        Ready \<Rightarrow> None
      | NotReady \<Rightarrow> Some (Fatal (''not ready after timeout: '' @ name))
      | Canceled \<Rightarrow> Some (Fatal (''canceled waiting for '' @ name))
      | Waiting \<Rightarrow> Some (StillWaiting name))"

text \<open>The settings the commands read, by the same names and defaults in each.\<close>

definition env_brokers :: "(string \<Rightarrow> string) \<Rightarrow> string list" where
  "env_brokers g = Brokers (Str g ''REDPANDA_BROKERS'' ''localhost:9092'')"

definition opensearch_call :: "startup \<Rightarrow> call \<times> stop option" where
  "opensearch_call su =
     (let addr = New_address (Str (su_getenv su) ''OPENSEARCH_URL'' ''http://localhost:9200'')
      in (OpensearchClient addr, fatal ''opensearch client'' (su_osNew su addr)))"

definition qdrant_call :: "startup \<Rightarrow> call \<times> stop option" where
  "qdrant_call su =
     (let host = Str (su_getenv su) ''QDRANT_HOST'' ''localhost''; port = ConfigInt (su_getenv su) ''QDRANT_PORT'' 6334
      in (QdrantClient host port, fatal ''qdrant client'' (failed (NewQdrant (su_qdNew su) host port))))"

definition env_ml :: "startup \<Rightarrow> ml" where
  "env_ml su = FromEnv (su_getenv su) (Str (su_getenv su) ''ML_SERVICE_ADDR'' ''http://localhost:8000'')"

definition producer_call :: "startup \<Rightarrow> call \<times> stop option" where
  "producer_call su =
     (let bs = env_brokers (su_getenv su)
      in (Producer bs, fatal ''producer'' (failed (NewProducer (su_kgo su) bs))))"

definition consumer_call :: "startup \<Rightarrow> string \<Rightarrow> string \<Rightarrow> call \<times> stop option" where
  "consumer_call su grp topic =
     (Consumer grp topic, fatal ''consumer'' (failed (NewConsumer (su_kgo su) (env_brokers (su_getenv su)) grp [topic])))"

subsection \<open>The normalizer\<close>

definition normalizer_topics :: "(string \<Rightarrow> string) \<Rightarrow> topics" where
  "normalizer_topics g = \<lparr>tp_fast = Str g ''FAST_TOPIC'' ''docs.fast'', tp_bulk = Str g ''BULK_TOPIC'' ''docs.bulk'',
     tp_dlq = Str g ''DLQ_TOPIC'' ''docs.dlq''\<rparr>"

definition normalizer_main :: "startup \<Rightarrow> call list \<times> stop option" where
  "normalizer_main su =
     (let g = su_getenv su; tp = normalizer_topics g; ts = [tp_fast tp, tp_bulk tp, tp_dlq tp]
      in boot
        [(CreateTopics 4 1 ts, fatal ''ensure topics''
            (EnsureTopics (failed (su_kgo su [SeedBrokers (env_brokers g)])) (su_topics su 4 1 ts))),
         producer_call su,
         consumer_call su (Str g ''NORMALIZER_GROUP'' ''normalizer'') (Str g ''CDC_TOPIC'' ''cdc.public.documents''),
         (MetricsServer (Str g ''METRICS_ADDR'' '':9100''), None)])"

subsection \<open>The indexer\<close>

record lane_config =
  lc_group :: string
  lc_topic :: string
  lc_flush :: int
  lc_tier :: string

definition fast_lane :: "(string \<Rightarrow> string) \<Rightarrow> lane_config" where
  "fast_lane g = \<lparr>lc_group = Str g ''INDEXER_GROUP'' ''indexer'' @ ''-fast'', lc_topic = Str g ''FAST_TOPIC'' ''docs.fast'',
     lc_flush = Dur g ''FAST_FLUSH_MS'' (200 * 10 ^ 6), lc_tier = ''urgent''\<rparr>"

definition bulk_lane :: "(string \<Rightarrow> string) \<Rightarrow> lane_config" where
  "bulk_lane g = \<lparr>lc_group = Str g ''INDEXER_GROUP'' ''indexer'' @ ''-bulk'', lc_topic = Str g ''BULK_TOPIC'' ''docs.bulk'',
     lc_flush = Dur g ''BULK_FLUSH_MS'' (2000 * 10 ^ 6), lc_tier = ''bulk''\<rparr>"

definition indexer_dlq :: "(string \<Rightarrow> string) \<Rightarrow> string" where
  "indexer_dlq g = Str g ''DLQ_TOPIC'' ''docs.dlq''"

definition lane_call :: "startup \<Rightarrow> lane_config \<Rightarrow> call \<times> stop option" where
  "lane_call su l = consumer_call su (lc_group l) (lc_topic l)"

text \<open>
  The goroutine of the fast lane is started before the bulk lane runs in the main goroutine; of
  the two orders in which their consumers can then be created the model has this one.
\<close>

definition indexer_main :: "startup \<Rightarrow> call list \<times> stop option" where
  "indexer_main su =
     (let g = su_getenv su; dm = indexer_probeDim (su_http su) (env_ml su)
      in boot
        [opensearch_call su, qdrant_call su, (TracingInit ''indexer'', None),
         wait_ready su ''opensearch'', wait_ready su ''qdrant'', wait_ready su ''ml'',
         (CreateIndex, fatal ''ensure index'' (EnsureIndex (su_createIndex su))),
         (CreateCollection Collection dm, fatal ''ensure collection''
            (EnsureCollection (su_exists su Collection) (su_create su) dm)),
         producer_call su,
         (MetricsServer (Str g ''METRICS_ADDR'' '':9101''), None),
         lane_call su (fast_lane g), lane_call su (bulk_lane g)])"

subsection \<open>The query service\<close>

text \<open>
  The semantic cache is created by \<open>NewSem\<close>; a failed \<open>Ensure\<close> is only logged, and made only for a
  positive dimension.
\<close>

definition env_sem :: "startup \<Rightarrow> string + semcache" where
  "env_sem su =
     (let g = su_getenv su
      in NewSem (su_qdNew su) (Str g ''QDRANT_HOST'' ''localhost'') (ConfigInt g ''QDRANT_PORT'' 6334)
           (Float g ''SEM_CACHE_THRESHOLD'' 0.95) (Str g ''SEM_CACHE'' ''true'' \<noteq> ''false''))"

definition query_steps :: "startup \<Rightarrow> (call \<times> stop option) list" where
  "query_steps su =
     (let g = su_getenv su; dm = probeDim (su_http su) (env_ml su)
      in [opensearch_call su, qdrant_call su,
          (SemcacheClient (Str g ''QDRANT_HOST'' ''localhost'') (ConfigInt g ''QDRANT_PORT'' 6334),
             fatal ''semcache'' (failed (env_sem su))),
          (TracingInit ''query'', None)] @
         (if dm > 0 then [(CreateCollection SemCollection dm, None)] else []) @
         [(MetricsServer (Str g ''METRICS_ADDR'' '':9102''), None),
          (ListenHTTP (Str g ''QUERY_ADDR'' '':8080''), None)])"

text \<open>\<open>main\<close>: the health check exits with its code, anything else starts the service.\<close>

datatype query_run = Healthcheck int | Service "call list" "stop option"

definition query_main :: "string list \<Rightarrow> startup \<Rightarrow> query_run" where
  "query_main args su =
     (if length args > 1 \<and> args ! 1 = ''healthcheck''
      then Healthcheck (runHealthcheck (su_http su) (Str (su_getenv su) ''QUERY_ADDR'' '':8080''))
      else (case boot (query_steps su) of (cs, r) \<Rightarrow> Service cs r))"

definition query_limiter :: "(string \<Rightarrow> string) \<Rightarrow> rateLimiter" where
  "query_limiter g = newRateLimiter (Float g ''RATE_RPS'' 20) (Float g ''RATE_BURST'' 40)"

subsection \<open>Stopping\<close>

text \<open>
  \<open>main\<close> returns and its deferred functions run: the last of them calls the function that \<open>Init\<close>
  returned, nil or not. \<open>log.Fatal\<close> runs no deferred function.
\<close>

datatype exit = ExitOK | ExitPanic | ExitFatal string

definition main_returns :: "shutdown option \<Rightarrow> exit" where
  "main_returns sd = (case sd of None \<Rightarrow> ExitPanic | Some f \<Rightarrow> ExitOK)"

definition service_shutdown :: "startup \<Rightarrow> string \<Rightarrow> shutdown option" where
  "service_shutdown su service =
     fst (fst (tracing_Init (su_getenv su) (su_exporter su) service \<lparr>tr_propagators = [], tr_provider = None\<rparr>))"

text \<open>The indexer returns when the bulk lane has stopped; the query service when the server has.\<close>

definition indexer_exit :: "startup \<Rightarrow> exit" where
  "indexer_exit su = main_returns (service_shutdown su ''indexer'')"

definition query_exit :: "startup \<Rightarrow> listen_result \<Rightarrow> exit" where
  "query_exit su r =
     (case r of
        ListenError e \<Rightarrow> ExitFatal e
      | _ \<Rightarrow> main_returns (service_shutdown su ''query''))"

subsection \<open>Lemmas\<close>

text \<open>A call is made only if every call before it returned without stopping the start.\<close>

lemma boot_stops:
  "\<not> list_all (\<lambda>s. snd s = None) pre \<Longrightarrow> set (fst (boot (pre @ post))) \<subseteq> fst ` set pre"
proof (induction pre)
  case (Cons s pre)
  obtain c r where s: "s = (c, r)" by fastforce
  show ?case
  proof (cases r)
    case None
    then show ?thesis using Cons s by (auto split: prod.splits)
  qed (simp add: s)
qed simp

lemma boot_all: "snd (boot steps) = None \<Longrightarrow> fst (boot steps) = map fst steps"
  by (induction steps rule: boot.induct) (auto split: prod.splits)

lemma fatal_None [simp]: "fatal m r = None \<longleftrightarrow> r = None"
  by (simp add: fatal_def)

lemma wait_ready_None: "snd (wait_ready su name) = None \<longleftrightarrow>
    mustReady (ready_deadline (su_began su name)) (su_attempts su name) = Ready"
  by (simp add: wait_ready_def split: readiness.splits)

lemma mustReady_Ready: "mustReady t as = Ready \<Longrightarrow> \<exists>a \<in> set as. fst a"
  by (induction t as rule: mustReady.induct) (auto split: if_splits)

lemma Consumer_calls [simp]:
  "fst (consumer_call su grp topic) = Consumer grp topic" "fst (producer_call su) = Producer (env_brokers (su_getenv su))"
  "fst (wait_ready su name) = WaitReady name"
  "\<exists>a. fst (opensearch_call su) = OpensearchClient a" "\<exists>h p. fst (qdrant_call su) = QdrantClient h p"
  by (simp_all add: consumer_call_def producer_call_def wait_ready_def opensearch_call_def qdrant_call_def Let_def)

text \<open>A start in which everything answers.\<close>

definition ref_startup :: startup where
  "ref_startup = \<lparr>su_getenv = (\<lambda>k. []), su_osNew = (\<lambda>a. None), su_qdNew = (\<lambda>h p. None), su_exporter = None,
     su_began = (\<lambda>n. 0), su_attempts = (\<lambda>n. [(True, 1, False)]), su_createIndex = CreateOK,
     su_exists = (\<lambda>c. Inr True), su_create = (\<lambda>n. None), su_http = (\<lambda>r. TransportError []),
     su_kgo = (\<lambda>os. Inr ()), su_topics = (\<lambda>n r ts. Inr [])\<rparr>"

lemmas startup_defs = ref_startup_def NewQdrant_def failed_def Let_def opensearch_call_def qdrant_call_def wait_ready_def producer_call_def
  lane_call_def consumer_call_def fatal_def failed_def NewProducer_def NewConsumer_def EnsureIndex_def
  EnsureCollection_def fast_lane_def bulk_lane_def Str_def

subsection \<open>Properties\<close>



text \<open>C30: the two commands meet. In one environment, every keyed record the normalizer publishes is on a
  topic that a lane of the indexer consumes, the lane of the document's tier, where it decodes to
  a valid document with the key as its id; both commands use one dead-letter topic; and the lanes are
  different consumer groups, so neither takes the other's partitions.
\<close>

theorem lanes_are_wired:
  assumes "rec \<in> set (fst (handle_record (normalizer_topics g) x now v))"
    and "or_Key rec = Some k" "or_Value rec \<noteq> None"
  shows "(\<exists>d l. read_doc (or_Value rec) = Inr d \<and> Validate d = None \<and> DocID d = k \<and>
      l \<in> {fast_lane g, bulk_lane g} \<and> or_Topic rec = lc_topic l \<and> Tier d = lc_tier l) \<and>
    tp_dlq (normalizer_topics g) = indexer_dlq g \<and> lc_group (fast_lane g) \<noteq> lc_group (bulk_lane g)"
proof -
  obtain d where d: "read_doc (or_Value rec) = Inr d" "Validate d = None" "DocID d = k"
    "or_Topic rec = (if Tier d = TierUrgent then tp_fast (normalizer_topics g) else tp_bulk (normalizer_topics g))"
    using lane_record_decodes [OF assms(1,2)] assms(3) by (auto split: if_splits)
  have "Tier d = TierUrgent \<or> Tier d = TierBulk"
    using d(2) by (simp add: Validate_def split: if_splits)
  then have "\<exists>l \<in> {fast_lane g, bulk_lane g}. or_Topic rec = lc_topic l \<and> Tier d = lc_tier l"
    using d(4) by (auto simp: fast_lane_def bulk_lane_def normalizer_topics_def op_tier_defs)
  moreover have "tp_dlq (normalizer_topics g) = indexer_dlq g" "lc_group (fast_lane g) \<noteq> lc_group (bulk_lane g)"
    by (simp_all add: normalizer_topics_def indexer_dlq_def fast_lane_def bulk_lane_def)
  ultimately show ?thesis using d(1-3) by blast
qed

theorem lanes_are_wired_witness:
  "\<exists>rec d. rec \<in> set (fst (handle_record (normalizer_topics (\<lambda>k. [])) ex_texts 0
      (Some (change_event ''d'' (ex_row 42 3) 1700000000000)))) \<and>
    read_doc (or_Value rec) = Inr d \<and> or_Topic rec = lc_topic (fast_lane (\<lambda>k. [])) \<and> Tier d = ''urgent''"
proof -
  have y: "year_of (1700000000000 * 10 ^ 6) \<le> 9999"
    by (simp add: year_of_def year_day_def Let_def day_ns_def epoch_day_def)
  let ?h = "handle_record (normalizer_topics (\<lambda>k. [])) ex_texts 0 (Some (change_event ''d'' (ex_row 42 3) 1700000000000))"
  obtain rec where rec: "?h = ([rec], [])" "or_Key rec = Some (''postgres:documents:'' @ Itoa 42)"
    "or_Topic rec = tp_fast (normalizer_topics (\<lambda>k. []))" "\<exists>d. read_doc (or_Value rec) = Inr d"
    using handle_change_event [of "ex_row 42 3" "''d''" 1700000000000 "normalizer_topics (\<lambda>k. [])" ex_texts 0] y
    by (auto simp: int64_row_def ex_row_def in_int64_def)
  have "or_Value rec \<noteq> None" using rec(4) by (auto simp: read_doc_def split: option.splits)
  from lanes_are_wired [OF _ rec(2) this, of "\<lambda>k. []" ex_texts 0 "Some (change_event ''d'' (ex_row 42 3) 1700000000000)"]
  obtain d l where "read_doc (or_Value rec) = Inr d" "l \<in> {fast_lane (\<lambda>k. []), bulk_lane (\<lambda>k. [])}"
    "or_Topic rec = lc_topic l" "Tier d = lc_tier l"
    using rec(1) by auto
  moreover have "l = fast_lane (\<lambda>k. [])"
    using calculation(2,3) rec(3) by (auto simp: fast_lane_def bulk_lane_def normalizer_topics_def Str_def)
  ultimately show ?thesis using rec(1) by (intro exI [of _ rec] exI [of _ d]) (simp add: fast_lane_def)
qed

text \<open>the query service needs none of its dependencies to start: if the three clients can be
  constructed it listens, whatever the state of OpenSearch, Qdrant and the ML service, and the
  semantic cache is sized only by a positive dimension.
\<close>

theorem query_starts_degraded:
  assumes "length args \<le> 1 \<or> args ! 1 \<noteq> ''healthcheck''"
    and "\<And>a. su_osNew su a = None" "\<And>h p. su_qdNew su h p = None"
  shows "\<exists>cs. query_main args su = Service cs None \<and> List.last cs = ListenHTTP (Str (su_getenv su) ''QUERY_ADDR'' '':8080'') \<and>
    (\<forall>dm. CreateCollection SemCollection dm \<in> set cs \<longrightarrow> 0 < dm)"
proof -
  have "failed (env_sem su) = None"
    using assms(3) by (simp add: env_sem_def NewSem_def failed_def Let_def)
  moreover have "failed (env_sem su) = None \<Longrightarrow> snd (boot (query_steps su)) = None"
    using assms(2,3) by (simp add: query_steps_def opensearch_call_def qdrant_call_def NewQdrant_def failed_def Let_def fatal_def)
  ultimately have "boot (query_steps su) = (map fst (query_steps su), None)"
    using boot_all [of "query_steps su"] by (metis prod.collapse)
  then show ?thesis
    using assms(1) by (auto simp: query_main_def query_steps_def Let_def opensearch_call_def qdrant_call_def)
qed

theorem query_starts_degraded_witness:
  "\<exists>cs. query_main [''app''] ref_startup = Service cs None \<and> List.last cs = ListenHTTP '':8080''"
proof -
  have "\<And>a. su_osNew ref_startup a = None" "\<And>h p. su_qdNew ref_startup h p = None" "su_getenv ref_startup = (\<lambda>k. [])"
    by (simp_all add: ref_startup_def)
  then show ?thesis using query_starts_degraded [of "[''app'']" ref_startup] by (auto simp: Str_def)
qed

text \<open>a trace backend that cannot be set up is only logged at start, but turns the regular end of
  the indexer and of the query service into a crash: \<open>Init\<close> returns a nil function with its error, and the
  deferred call at the end of \<open>main\<close> calls it. Without the error the same end is clean.
\<close>

theorem tracing_error_panics_at_exit:
  assumes "su_getenv su ''OTEL_EXPORTER_OTLP_ENDPOINT'' \<noteq> []" and "su_exporter su = Some e"
  shows "indexer_exit su = ExitPanic \<and> query_exit su ServerClosed = ExitPanic \<and>
    indexer_exit (su\<lparr>su_exporter := None\<rparr>) = ExitOK \<and> query_exit (su\<lparr>su_exporter := None\<rparr>) ServerClosed = ExitOK \<and>
    indexer_main su = indexer_main (su\<lparr>su_exporter := None\<rparr>)"
  using assms
  by (simp add: indexer_exit_def query_exit_def service_shutdown_def tracing_Init_def main_returns_def Let_def
      indexer_main_def opensearch_call_def qdrant_call_def wait_ready_def env_ml_def producer_call_def lane_call_def
      consumer_call_def cong: option.case_cong)

theorem tracing_error_panics_at_exit_witness:
  "indexer_exit (ref_startup\<lparr>su_getenv := (\<lambda>k. ''x''), su_exporter := Some ''bad endpoint''\<rparr>) = ExitPanic"
  using tracing_error_panics_at_exit [of "ref_startup\<lparr>su_getenv := (\<lambda>k. ''x''), su_exporter := Some ''bad endpoint''\<rparr>" "''bad endpoint''"]
  by simp

end
