(* ===== verification/Loadgen.thy ===== *)
theory Loadgen
  imports RateLimit Contract
begin

text \<open>
  Command \<open>loadgen\<close> (\<open>cmd/loadgen/main.go\<close>): the rows and statements it writes, the split of a
  backfill into jobs, a worker of either mode and the rate limiter. The generator
  \<open>math/rand\<close> is a parameter: a function from its state and a bound to a draw and the next
  state (\<open>rng_ok\<close>: a draw is in range). The database is the function from a statement and its
  arguments to an error. The limiter's mutex is held from the clock reading to the
  decision, so an attempt is one atomic step, and workers interleave between attempts.
\<close>

subsection \<open>Generated rows\<close>

type_synonym 'g intn = "'g \<Rightarrow> int \<Rightarrow> int \<times> 'g"

definition categories :: "string list" where
  "categories = [''cdc'', ''streaming'', ''retrieval'', ''rag'', ''indexing'', ''observability'', ''vectors'', ''infra'']"

definition words :: "string list" where
  "words = [''debezium'', ''redpanda'', ''kafka'', ''opensearch'', ''qdrant'', ''vector'', ''bm25'', ''rrf'', ''rerank'',
     ''embedding'', ''faithfulness'', ''citation'', ''freshness'', ''lag'', ''idempotency'', ''dlq'', ''snapshot'',
     ''replication'', ''wal'', ''consumer'', ''partition'', ''throughput'', ''latency'', ''backpressure'', ''semantic'',
     ''hybrid'', ''retrieval'', ''grounded'', ''chunk'', ''tenant'', ''upsert'', ''tombstone'']"

definition upper_char :: "char \<Rightarrow> char" where
  "upper_char c = (if 97 \<le> (of_char c :: nat) \<and> (of_char c :: nat) \<le> 122
     then char_of ((of_char c :: nat) - 32) else c)"

text \<open>\<open>words[rng.Intn(len(words))]\<close> and \<open>categories[...]\<close>.\<close>

definition pick :: "'g intn \<Rightarrow> 'g \<Rightarrow> string list \<Rightarrow> string \<times> 'g" where
  "pick intn g ws = (let (i, g') = intn g (int (length ws)) in (ws ! nat i, g'))"

definition gen_title :: "'g intn \<Rightarrow> 'g \<Rightarrow> string \<times> 'g" where
  "gen_title intn g =
     (let (w1, g1) = pick intn g words; (w2, g2) = pick intn g1 words;
          w1' = (case w1 of [] \<Rightarrow> [] | c # cs \<Rightarrow> upper_char c # cs)
      in (w1' @ '' '' @ w2, g2))"

fun draw_words :: "'g intn \<Rightarrow> nat \<Rightarrow> 'g \<Rightarrow> string list \<times> 'g" where
  "draw_words intn 0 g = ([], g)"
| "draw_words intn (Suc n) g =
     (let (w, g1) = pick intn g words; (ws, g2) = draw_words intn n g1 in (w # ws, g2))"

definition gen_body :: "'g intn \<Rightarrow> 'g \<Rightarrow> string \<times> 'g" where
  "gen_body intn g = (let (ws, g') = draw_words intn 30 g in (Join ws '' '', g'))"

record load_row =
  lr_tenant :: int
  lr_title :: string
  lr_body :: string
  lr_category :: string
  lr_tier :: string

text \<open>The body of the loop of \<open>insertBatch\<close>: tier, tenant, title, body and category are drawn in this order.\<close>

definition gen_row :: "'g intn \<Rightarrow> int \<Rightarrow> 'g \<Rightarrow> load_row \<times> 'g" where
  "gen_row intn urgentPct g =
     (let (u, g1) = intn g 100; (tn, g2) = intn g1 10; (ti, g3) = gen_title intn g2;
          (bo, g4) = gen_body intn g3; (ca, g5) = pick intn g4 categories
      in (\<lparr>lr_tenant = tn + 1, lr_title = ti, lr_body = bo, lr_category = ca,
           lr_tier = (if u < urgentPct then ''urgent'' else ''bulk'')\<rparr>, g5))"

fun gen_rows :: "'g intn \<Rightarrow> int \<Rightarrow> nat \<Rightarrow> 'g \<Rightarrow> load_row list \<times> 'g" where
  "gen_rows intn urgentPct 0 g = ([], g)"
| "gen_rows intn urgentPct (Suc n) g =
     (let (r, g1) = gen_row intn urgentPct g; (rs, g2) = gen_rows intn urgentPct n g1 in (r # rs, g2))"

subsection \<open>Statements\<close>

datatype sql_arg = ArgInt int | ArgStr string

definition placeholder :: "nat \<Rightarrow> string" where
  "placeholder k = CHR ''$'' # Itoa (int k)"

text \<open>\<open>($base+1,...,$base+5)\<close> of row \<open>i\<close>.\<close>

definition row_values :: "nat \<Rightarrow> string" where
  "row_values i = ''('' @ Join (map (\<lambda>k. placeholder (i * 5 + k)) [1..<6]) '','' @ '')''"

definition insert_sql :: "nat \<Rightarrow> string" where
  "insert_sql n = ''INSERT INTO documents (tenant_id,title,body,category,tier) VALUES '' @
     concat (map (\<lambda>i. (if i > 0 then '','' else []) @ row_values i) [0..<n])"

definition row_args :: "load_row \<Rightarrow> sql_arg list" where
  "row_args r = [ArgInt (lr_tenant r), ArgStr (lr_title r), ArgStr (lr_body r), ArgStr (lr_category r), ArgStr (lr_tier r)]"

type_synonym exec = "string \<Rightarrow> sql_arg list \<Rightarrow> string option"

text \<open>A negative capacity makes \<open>make\<close> panic.\<close>

definition insertBatch :: "exec \<Rightarrow> 'g intn \<Rightarrow> int \<Rightarrow> 'g \<Rightarrow> int \<Rightarrow> (string option \<times> 'g) outcome" where
  "insertBatch db intn urgentPct g n =
     (if n < 0 then Panics
      else (let (rows, g') = gen_rows intn urgentPct (nat n) g
            in Returns (db (insert_sql (nat n)) (concat (map row_args rows)), g')))"

text \<open>\<open>updateBatch\<close> stops at the first error; the body is drawn after the id.\<close>

fun update_rows :: "exec \<Rightarrow> 'g intn \<Rightarrow> int \<Rightarrow> 'g \<Rightarrow> nat \<Rightarrow> string option \<times> 'g" where
  "update_rows db intn maxID g 0 = (None, g)"
| "update_rows db intn maxID g (Suc n) =
     (let (i, g1) = intn g maxID; (b, g2) = gen_body intn g1
      in case db ''UPDATE documents SET body=$1 WHERE id=$2'' [ArgStr b, ArgInt (i + 1)] of
           Some e \<Rightarrow> (Some e, g2)
         | None \<Rightarrow> update_rows db intn maxID g2 n)"

definition updateBatch :: "exec \<Rightarrow> 'g intn \<Rightarrow> int \<Rightarrow> 'g \<Rightarrow> int \<Rightarrow> string option \<times> 'g" where
  "updateBatch db intn maxID g n = update_rows db intn maxID g (nat n)"

subsection \<open>The limiter\<close>

record limiter =
  lm_rate :: real
  lm_allow :: real
  lm_last :: int

definition newLimiter :: "int \<Rightarrow> int \<Rightarrow> limiter" where
  "newLimiter rate now = \<lparr>lm_rate = real_of_int rate, lm_allow = real_of_int rate, lm_last = now\<rparr>"

text \<open>One pass of the loop of \<open>waitN\<close> at the clock reading \<open>now\<close>: whether it returns.\<close>

definition attempt :: "limiter \<Rightarrow> int \<Rightarrow> int \<Rightarrow> bool \<times> limiter" where
  "attempt l n now =
     (let a = lm_allow l + lm_rate l * seconds (now - lm_last l);
          a' = (if a > lm_rate l then lm_rate l else a)
      in if a' \<ge> real_of_int n then (True, l\<lparr>lm_allow := a' - real_of_int n, lm_last := now\<rparr>)
         else (False, l\<lparr>lm_allow := a', lm_last := now\<rparr>))"

text \<open>The sleep after a failed pass, in whole nanoseconds.\<close>

definition sleep_ns :: "limiter \<Rightarrow> int \<Rightarrow> int" where
  "sleep_ns l n = \<lfloor>(real_of_int n - lm_allow l) / lm_rate l * 10 ^ 9\<rfloor>"

text \<open>\<open>waitN\<close> over the clock readings of its passes; \<^term>\<open>None\<close> while it has not returned.\<close>

fun waitN :: "limiter \<Rightarrow> int \<Rightarrow> int list \<Rightarrow> limiter option" where
  "waitN l n [] = (if lm_rate l \<le> 0 then Some l else None)"
| "waitN l n (now # later) =
     (if lm_rate l \<le> 0 then Some l
      else (case attempt l n now of (True, l') \<Rightarrow> Some l' | (False, l') \<Rightarrow> waitN l' n later))"

subsection \<open>Backfill and stream\<close>

text \<open>The job sizes the loop of \<open>backfill\<close> sends; it need not end.\<close>

partial_function (option) backfill_jobs :: "int \<Rightarrow> int \<Rightarrow> int list option" where
  [code]: "backfill_jobs batch remaining =
     (if remaining > 0 then
        (let b = (if batch > remaining then remaining else batch)
         in Option.bind (backfill_jobs batch (remaining - b)) (\<lambda>js. Some (b # js)))
      else Some [])"

text \<open>A worker of \<open>backfill\<close> after \<open>waitN\<close>: the jobs it takes and the counter \<open>inserted\<close>.\<close>

fun backfill_worker :: "exec \<Rightarrow> 'g intn \<Rightarrow> int \<Rightarrow> 'g \<Rightarrow> int list \<Rightarrow> int \<Rightarrow> int outcome" where
  "backfill_worker db intn urgentPct g [] inserted = Returns inserted"
| "backfill_worker db intn urgentPct g (n # jobs) inserted =
     (case insertBatch db intn urgentPct g n of
        Panics \<Rightarrow> Panics
      | Returns (Some e, g') \<Rightarrow> backfill_worker db intn urgentPct g' jobs inserted
      | Returns (None, g') \<Rightarrow> backfill_worker db intn urgentPct g' jobs (inserted + n))"

text \<open>One pass of a worker of \<open>stream\<close>: an update or an insert, and the counters (inserted, updated).\<close>

definition stream_pass ::
  "exec \<Rightarrow> 'g intn \<Rightarrow> int \<Rightarrow> int \<Rightarrow> int \<Rightarrow> int \<Rightarrow> 'g \<Rightarrow> int \<times> int \<Rightarrow> ((int \<times> int) \<times> 'g) outcome" where
  "stream_pass db intn batch urgentPct updatePct maxID g counts =
     (let (u, g1) = (if updatePct > 0 then intn g 100 else (0, g))
      in if updatePct > 0 \<and> u < updatePct \<and> maxID > 0
         then (case updateBatch db intn maxID g1 batch of
                 (Some e, g2) \<Rightarrow> Returns (counts, g2)
               | (None, g2) \<Rightarrow> Returns ((fst counts, snd counts + batch), g2))
         else (case insertBatch db intn urgentPct g1 batch of
                 Panics \<Rightarrow> Panics
               | Returns (Some e, g2) \<Rightarrow> Returns (counts, g2)
               | Returns (None, g2) \<Rightarrow> Returns ((fst counts + batch, snd counts), g2)))"

subsection \<open>Specification\<close>

definition rng_ok :: "'g intn \<Rightarrow> bool" where
  "rng_ok intn \<longleftrightarrow> (\<forall>g n. 0 < n \<longrightarrow> 0 \<le> fst (intn g n) \<and> fst (intn g n) < n)"

text \<open>What the pipeline needs of a generated row.\<close>

definition row_ok :: "load_row \<Rightarrow> bool" where
  "row_ok r \<longleftrightarrow> 1 \<le> lr_tenant r \<and> lr_tenant r \<le> 10 \<and> lr_title r \<noteq> [] \<and>
     (\<exists>ws. length ws = 30 \<and> set ws \<subseteq> set words \<and> lr_body r = Join ws '' '') \<and>
     lr_category r \<in> set categories \<and> (lr_tier r = TierUrgent \<or> lr_tier r = TierBulk)"

text \<open>The grants of a sequence of attempts by all workers: the units granted in docs.\<close>

fun granted :: "limiter \<Rightarrow> (int \<times> int) list \<Rightarrow> int" where
  "granted l [] = 0"
| "granted l ((n, now) # as) =
     (case attempt l n now of (ok, l') \<Rightarrow> (if ok then n else 0) + granted l' as)"

subsection \<open>Lemmas\<close>

lemma pick_in: "rng_ok intn \<Longrightarrow> ws \<noteq> [] \<Longrightarrow> pick intn g ws = (w, g') \<Longrightarrow> w \<in> set ws"
proof -
  assume a: "rng_ok intn" "ws \<noteq> []" "pick intn g ws = (w, g')"
  obtain i g1 where i: "intn g (int (length ws)) = (i, g1)" by fastforce
  then have "0 \<le> i \<and> i < int (length ws)" using a(1,2) unfolding rng_ok_def by (metis fst_conv length_greater_0_conv of_nat_0_less_iff)
  moreover have "w = ws ! nat i" using a(3) i by (simp add: pick_def)
  ultimately show ?thesis by (auto intro!: nth_mem)
qed

lemma words_ne [simp]: "words \<noteq> []" "categories \<noteq> []"
  by (simp_all add: words_def categories_def)

lemma draw_words_ok:
  "rng_ok intn \<Longrightarrow> draw_words intn n g = (ws, g') \<Longrightarrow> length ws = n \<and> set ws \<subseteq> set words"
proof (induction n arbitrary: g ws g')
  case (Suc n)
  obtain w g1 where w: "pick intn g words = (w, g1)" by fastforce
  obtain vs g2 where vs: "draw_words intn n g1 = (vs, g2)" by fastforce
  have "ws = w # vs" using Suc.prems(2) w vs by simp
  then show ?case using Suc.IH [OF Suc.prems(1) vs] pick_in [OF Suc.prems(1) _ w] by simp
qed simp

lemma gen_row_ok:
  assumes "rng_ok intn" "gen_row intn pct g = (r, g')"
  shows "row_ok r"
proof -
  obtain u g1 where u: "intn g 100 = (u, g1)" by fastforce
  obtain tn g2 where tn: "intn g1 10 = (tn, g2)" by fastforce
  obtain ti g3 where ti: "gen_title intn g2 = (ti, g3)" by fastforce
  obtain ws g4 where ws: "draw_words intn 30 g3 = (ws, g4)" by fastforce
  obtain ca g5 where ca: "pick intn g4 categories = (ca, g5)" by fastforce
  have r: "r = \<lparr>lr_tenant = tn + 1, lr_title = ti, lr_body = Join ws '' '', lr_category = ca,
      lr_tier = (if u < pct then ''urgent'' else ''bulk'')\<rparr>"
    using assms(2) u tn ti ws ca by (simp add: gen_row_def gen_body_def)
  have "0 \<le> tn \<and> tn < 10" using assms(1) tn unfolding rng_ok_def by (metis fst_conv zero_less_numeral)
  moreover have "ti \<noteq> []" using ti by (auto simp: gen_title_def split: prod.splits)
  moreover have "ca \<in> set categories" using pick_in [OF assms(1) _ ca] by simp
  moreover have "length ws = 30 \<and> set ws \<subseteq> set words" using draw_words_ok [OF assms(1) ws] .
  ultimately show ?thesis unfolding r row_ok_def by (auto simp: TierUrgent_def TierBulk_def)
qed

lemma gen_rows_ok:
  "rng_ok intn \<Longrightarrow> gen_rows intn pct n g = (rs, g') \<Longrightarrow> length rs = n \<and> list_all row_ok rs"
proof (induction n arbitrary: g rs g')
  case (Suc n)
  obtain r g1 where r: "gen_row intn pct g = (r, g1)" by fastforce
  obtain qs g2 where qs: "gen_rows intn pct n g1 = (qs, g2)" by fastforce
  have "rs = r # qs" using Suc.prems(2) r qs by simp
  then show ?case using Suc.IH [OF Suc.prems(1) qs] gen_row_ok [OF Suc.prems(1) r] by simp
qed simp

lemma insert_sql_Join: "insert_sql n = ''INSERT INTO documents (tenant_id,title,body,category,tier) VALUES '' @
    Join (map row_values [0..<n]) '',''"
proof -
  have "Join (map row_values [0..<n]) '','' = concat (map (\<lambda>i. (if i > 0 then '','' else []) @ row_values i) [0..<n])"
  proof (induction n)
    case (Suc n)
    have j: "Join (xs @ [y]) s = (if xs = [] then y else Join xs s @ s @ y)" for xs :: "string list" and y s
      by (induction xs s rule: Join.induct) auto
    show ?case using Suc by (simp add: j)
  qed simp
  then show ?thesis by (simp add: insert_sql_def)
qed

lemma backfill_jobs_ends:
  assumes "0 < batch"
  shows "\<exists>js. backfill_jobs batch docs = Some js \<and> sum_list js = max 0 docs \<and> (\<forall>j \<in> set js. 0 < j \<and> j \<le> batch)"
proof (induction "nat docs" arbitrary: docs rule: less_induct)
  case less
  show ?case
  proof (cases "docs > 0")
    case False
    then show ?thesis by (subst backfill_jobs.simps) simp
  next
    case True
    define b where "b = (if batch > docs then docs else batch)"
    have b: "0 < b" "b \<le> batch" "b \<le> docs" using True assms by (auto simp: b_def)
    then obtain js where "backfill_jobs batch (docs - b) = Some js" "sum_list js = max 0 (docs - b)"
      "\<forall>j \<in> set js. 0 < j \<and> j \<le> batch"
      using less [of "docs - b"] by auto
    then show ?thesis using True b
      by (subst backfill_jobs.simps) (auto simp: Let_def b_def [symmetric])
  qed
qed

text \<open>Without a positive batch size the loop makes no progress and never ends.\<close>

lemma backfill_jobs_Some: "backfill_jobs batch docs = Some js \<Longrightarrow> 0 < batch \<or> docs \<le> 0"
proof (rule backfill_jobs.raw_induct [where P = "\<lambda>batch docs js. 0 < batch \<or> docs \<le> 0"])
  fix rec_jobs :: "int \<Rightarrow> int \<Rightarrow> int list option" and batch remaining :: int and js
  assume ih: "\<And>b r js. rec_jobs b r = Some js \<Longrightarrow> 0 < b \<or> r \<le> 0"
    and body: "(if 0 < remaining then
        let b = if remaining < batch then remaining else batch
        in Option.bind (rec_jobs batch (remaining - b)) (\<lambda>js. Some (b # js))
      else Some []) = Some js"
  show "0 < batch \<or> remaining \<le> (0 :: int)"
  proof (rule ccontr)
    assume c: "\<not> (0 < batch \<or> remaining \<le> 0)"
    then obtain ks where "rec_jobs batch (remaining - batch) = Some ks"
      using body by (auto simp: Let_def bind_eq_Some_conv split: if_splits)
    from ih [OF this] c show False by simp
  qed
qed

lemma backfill_jobs_diverges: "batch \<le> 0 \<Longrightarrow> 0 < docs \<Longrightarrow> backfill_jobs batch docs = None"
  using backfill_jobs_Some [of batch docs] by (cases "backfill_jobs batch docs") auto

lemma attempt_too_big: "0 < lm_rate l \<Longrightarrow> lm_rate l < real_of_int n \<Longrightarrow>
    \<exists>l'. attempt l n now = (False, l') \<and> lm_rate l' = lm_rate l"
  by (auto simp: attempt_def Let_def)

lemma attempt_rate: "attempt l n now = (ok, l') \<Longrightarrow> lm_rate l' = lm_rate l \<and> lm_last l' = now"
  by (auto simp: attempt_def Let_def split: if_splits)

text \<open>An attempt neither creates units beyond the elapsed time's worth nor exceeds the rate.\<close>

lemma attempt_budget:
  assumes "attempt l n now = (ok, l')"
  shows "lm_allow l' + (if ok then real_of_int n else 0) \<le> lm_allow l + lm_rate l * seconds (now - lm_last l)"
  using assms by (auto simp: attempt_def Let_def split: if_splits)

lemma attempt_nonneg:
  assumes "attempt l n now = (ok, l')" "0 \<le> lm_allow l" "0 \<le> lm_rate l" "lm_last l \<le> now"
  shows "0 \<le> lm_allow l'"
proof -
  have "0 \<le> lm_rate l * seconds (now - lm_last l)" using assms(3,4) by (simp add: seconds_def)
  then show ?thesis using assms(1-3) by (auto simp: attempt_def Let_def split: if_splits)
qed

lemma attempt_after_sleep:
  assumes "0 < lm_rate l" "real_of_int n \<le> lm_rate l"
    and "lm_allow l + lm_rate l * seconds (now - lm_last l) \<ge> real_of_int n"
  shows "\<exists>l'. attempt l n now = (True, l')"
  using assms by (auto simp: attempt_def Let_def)

lemma granted_bound:
  "0 \<le> lm_rate l \<Longrightarrow> 0 \<le> lm_allow l \<Longrightarrow> sorted (lm_last l # map snd as @ [until]) \<Longrightarrow>
     real_of_int (granted l as) \<le> lm_allow l + lm_rate l * seconds (until - lm_last l)"
proof (induction as arbitrary: l)
  case Nil
  then show ?case by (simp add: seconds_def)
next
  case (Cons a as)
  obtain n now where a: "a = (n, now)" by fastforce
  obtain ok l' where l': "attempt l n now = (ok, l')" by fastforce
  note r = attempt_rate [OF l'] and budget = attempt_budget [OF l']
  have "real_of_int (granted l' as) \<le> lm_allow l' + lm_rate l' * seconds (until - lm_last l')"
    by (rule Cons.IH) (use Cons.prems attempt_nonneg [OF l'] a r in simp_all)
  moreover have "lm_rate l * seconds (now - lm_last l) + lm_rate l * seconds (until - now) = lm_rate l * seconds (until - lm_last l)"
    by (simp add: seconds_def field_simps)
  ultimately show ?case using budget r a l' by (cases ok) simp_all
qed

subsection \<open>Properties\<close>

text \<open>An insert batch is well formed: the statement has one group of five placeholders per row,
  numbered from 1 without gaps, with exactly one argument for each; and every generated row
  is one the pipeline accepts: a tenant from 1 to 10, a title, thirty known words, a known
  category and a valid tier.\<close>

theorem insertBatch_well_formed:
  assumes "rng_ok intn" "0 \<le> n"
  shows "\<exists>rows g'. insertBatch db intn pct g n = Returns (db
      (''INSERT INTO documents (tenant_id,title,body,category,tier) VALUES '' @
       Join (map (\<lambda>i. ''('' @ Join (map placeholder [5 * i + 1..<5 * i + 6]) '','' @ '')'') [0..<nat n]) '','')
      (concat (map row_args rows)), g') \<and>
    length rows = nat n \<and> list_all row_ok rows \<and> length (concat (map row_args rows)) = 5 * nat n"
proof -
  obtain rows g' where r: "gen_rows intn pct (nat n) g = (rows, g')" by fastforce
  have v: "row_values i = ''('' @ Join (map placeholder [5 * i + 1..<5 * i + 6]) '','' @ '')''" for i
  proof -
    have "map (\<lambda>k. placeholder (i * 5 + k)) [1..<6] = map placeholder [5 * i + 1..<5 * i + 6]"
      by (simp add: upt_rec mult.commute)
    then show ?thesis by (simp add: row_values_def)
  qed
  have "length (concat (map row_args rs)) = 5 * length rs" for rs
    by (induction rs) (simp_all add: row_args_def)
  then show ?thesis
    using assms r gen_rows_ok [OF assms(1) r] unfolding insertBatch_def insert_sql_Join v
    by (intro exI [of _ rows] exI [of _ g']) simp
qed

theorem insertBatch_well_formed_witness:
  "insertBatch (\<lambda>sql args. if length args = 10 then None else Some ''bind'') (\<lambda>g n. (0, g)) 20 () 2 = Returns (None, ())"
proof -
  have "rng_ok (\<lambda>(g :: unit) n. (0, g))" by (simp add: rng_ok_def)
  from insertBatch_well_formed [OF this, of 2 "\<lambda>sql args. if length args = 10 then None else Some ''bind''" 20 "()"]
  show ?thesis by auto
qed

text \<open>The limiter keeps the target rate: whatever the workers ask for and in whatever order their
  attempts come, the units granted until a time never exceed the initial allowance plus
  the rate times the elapsed seconds.\<close>

theorem loadgen_rate_bound:
  assumes "0 \<le> rate" "sorted (start # map snd attempts @ [until])"
  shows "real_of_int (granted (newLimiter rate start) attempts) \<le>
    real_of_int rate + real_of_int rate * seconds (until - start)"
  using granted_bound [of "newLimiter rate start" attempts until] assms by (simp add: newLimiter_def)

theorem loadgen_rate_bound_witness:
  "real_of_int (granted (newLimiter 10 0) [(10, 0), (5, 100000000), (5, 500000000)]) \<le> 10 + 10 * seconds 500000000"
  using loadgen_rate_bound [of 10 0 "[(10, 0), (5, 100000000), (5, 500000000)]" 500000000] by simp

text \<open>A backfill with a positive batch size ends: its jobs are positive, none exceeds the batch
  size, and they add up to the requested number of documents.\<close>

theorem backfill_splits_count:
  assumes "0 < batch"
  shows "\<exists>js. backfill_jobs batch docs = Some js \<and> sum_list js = max 0 docs \<and>
    (\<forall>j \<in> set js. 0 < j \<and> j \<le> batch)"
  using backfill_jobs_ends [OF assms] .

theorem backfill_splits_count_witness:
  "\<exists>js. backfill_jobs 100 250 = Some js \<and> sum_list js = 250 \<and> (\<forall>j \<in> set js. 0 < j \<and> j \<le> 100)"
  using backfill_splits_count [of 100 250] by simp

text \<open>\<open>waitN\<close> returns for every request the rate can cover: a caller that is alone gets its units
  after at most three passes, when it sleeps as long as asked after the first failed pass
  and the clock moves between passes.\<close>

theorem waitN_returns:
  assumes "0 < lm_rate l" "real_of_int n \<le> lm_rate l" "0 \<le> lm_allow l"
    and "t2 - t1 \<ge> sleep_ns (snd (attempt l n t1)) n" "t3 - t2 \<ge> 1"
  shows "\<exists>l'. waitN l n [t1, t2, t3] = Some l'"
proof -
  obtain ok1 l1 where l1: "attempt l n t1 = (ok1, l1)" by fastforce
  obtain ok2 l2 where l2: "attempt l1 n t2 = (ok2, l2)" by fastforce
  note r1 = attempt_rate [OF l1] and r2 = attempt_rate [OF l2]
  have third: "\<exists>l'. attempt l2 n t3 = (True, l')" if "\<not> ok1" "\<not> ok2"
  proof -
    have lt: "lm_allow l2 < real_of_int n" and a2: "lm_allow l2 = lm_allow l1 + lm_rate l1 * seconds (t2 - lm_last l1)"
      using l2 that(2) r1 assms(2) by (auto simp: attempt_def Let_def split: if_splits)
    have "(real_of_int n - lm_allow l1) / lm_rate l * 10 ^ 9 < real_of_int (t2 - t1) + 1"
      using assms(4) l1 r1 unfolding sleep_ns_def by simp linarith
    then have "(real_of_int n - lm_allow l1) / lm_rate l * 10 ^ 9 \<le> real_of_int (t2 - t1) + real_of_int (t3 - t2)"
      using assms(5) by linarith
    then have "real_of_int n - lm_allow l1 \<le> lm_rate l * (seconds (t2 - t1) + seconds (t3 - t2))"
      using assms(1) by (simp add: seconds_def field_simps)
    then have "real_of_int n \<le> lm_allow l2 + lm_rate l2 * seconds (t3 - lm_last l2)"
      using a2 r1 r2 by (simp add: algebra_simps)
    then show ?thesis using attempt_after_sleep [of l2 n t3] assms(1,2) r1 r2 by simp
  qed
  show ?thesis
    using assms(1) l1 l2 r1 r2 third by (cases ok1; cases ok2) auto
qed

theorem waitN_returns_witness:
  "\<exists>l'. waitN \<lparr>lm_rate = 10, lm_allow = 0, lm_last = 0\<rparr> 5 [0, 500000000, 500000001] = Some l'"
  by (rule waitN_returns) (simp_all add: attempt_def Let_def seconds_def sleep_ns_def)

text \<open>A request above the rate never returns: the allowance is capped at the rate, so with a
  batch size larger than the target rate every worker waits for ever.\<close>

theorem waitN_never_returns:
  assumes "0 < lm_rate l" "lm_rate l < real_of_int n"
  shows "waitN l n readings = None"
  using assms
proof (induction readings arbitrary: l)
  case (Cons now later)
  then show ?case using attempt_too_big [of l n now] by fastforce
qed simp

theorem waitN_never_returns_witness: "waitN (newLimiter 50 0) 100 [0, 10 ^ 12] = None"
  by (rule waitN_never_returns) (simp_all add: newLimiter_def)

end
