(* ===== verification/Streaming.thy ===== *)
theory Streaming
  imports Pool
begin

text \<open>
  Command \<open>loadgen\<close> (\<open>cmd/loadgen/main.go\<close>), third part: \<open>stream\<close> with all its workers. They share the
  limiter and the counters, so the mode is a state machine as the pool of \<open>backfill\<close> is: \<open>stream_do\<close> is
  one action of one worker, a test of the deadline, a pass of \<open>waitN\<close>, or a write with its
  counter. \<open>stream_worker\<close> of \<open>Pool\<close> is the loop of one of them on its own.
\<close>

subsection \<open>The workers\<close>

text \<open>A worker, with its generator: at the loop test, in \<open>waitN\<close>, about to write, or returned.\<close>

datatype 'g streamer = AtDeadline 'g | InWait 'g | Applying 'g | Stopped

text \<open>
  What the workers share: the limiter, the deadline and the counters (inserted, updated); and the
  monotonic clock, as last read by one of them.
\<close>

record 'g streaming =
  sm_workers :: "'g streamer list"
  sm_limiter :: limiter
  sm_deadline :: int
  sm_counts :: "int \<times> int"
  sm_now :: int
  sm_panicked :: bool

datatype stream_action = Check nat int | Acquire nat int | Apply nat exec

definition stream_init :: "(int \<Rightarrow> 'g) \<Rightarrow> runConfig \<Rightarrow> int \<Rightarrow> int \<Rightarrow> 'g streaming" where
  "stream_init seed cfg now dur =
     \<lparr>sm_workers = map (\<lambda>w. AtDeadline (seed (int w + 100))) [0..<nat (rc_workers cfg)],
      sm_limiter = newLimiter (rc_rate cfg) now, sm_deadline = now + dur, sm_counts = (0, 0), sm_now = now, sm_panicked = False\<rparr>"

definition set_streamer :: "nat \<Rightarrow> 'g streamer \<Rightarrow> 'g streaming \<Rightarrow> 'g streaming" where
  "set_streamer i k s = s\<lparr>sm_workers := (sm_workers s)[i := k]\<rparr>"

text \<open>One pass of \<open>waitN\<close> on the shared limiter.\<close>

definition acquire :: "runConfig \<Rightarrow> 'g streaming \<Rightarrow> nat \<Rightarrow> 'g \<Rightarrow> int \<Rightarrow> 'g streaming" where
  "acquire cfg s i g now =
     (if lm_rate (sm_limiter s) \<le> 0 then set_streamer i (Applying g) s
      else (case attempt (sm_limiter s) (rc_batch cfg) now of
              (True, l) \<Rightarrow> set_streamer i (Applying g) (s\<lparr>sm_limiter := l, sm_now := now\<rparr>)
            | (False, l) \<Rightarrow> s\<lparr>sm_limiter := l, sm_now := now\<rparr>))"

definition apply_pass :: "'g intn \<Rightarrow> runConfig \<Rightarrow> exec \<Rightarrow> 'g streaming \<Rightarrow> nat \<Rightarrow> 'g \<Rightarrow> 'g streaming" where
  "apply_pass intn cfg db s i g =
     (case stream_pass db intn (rc_batch cfg) (rc_urgentPct cfg) (rc_updatePct cfg) (rc_maxID cfg) g (sm_counts s) of
        Panics \<Rightarrow> s\<lparr>sm_panicked := True\<rparr>
      | Returns (counts, g') \<Rightarrow> set_streamer i (AtDeadline g') (s\<lparr>sm_counts := counts\<rparr>))"

text \<open>One action; \<^term>\<open>None\<close> when it is not possible: another phase, or a clock that goes back.\<close>

fun stream_do :: "'g intn \<Rightarrow> runConfig \<Rightarrow> stream_action \<Rightarrow> 'g streaming \<Rightarrow> 'g streaming option" where
  "stream_do intn cfg (Check i now) s =
     (if \<not> sm_panicked s \<and> i < length (sm_workers s) \<and> sm_now s \<le> now
      then (case sm_workers s ! i of
              AtDeadline g \<Rightarrow> Some (set_streamer i (if now < sm_deadline s then InWait g else Stopped) (s\<lparr>sm_now := now\<rparr>))
            | _ \<Rightarrow> None)
      else None)"
| "stream_do intn cfg (Acquire i now) s =
     (if \<not> sm_panicked s \<and> i < length (sm_workers s) \<and> sm_now s \<le> now
      then (case sm_workers s ! i of InWait g \<Rightarrow> Some (acquire cfg s i g now) | _ \<Rightarrow> None)
      else None)"
| "stream_do intn cfg (Apply i db) s =
     (if \<not> sm_panicked s \<and> i < length (sm_workers s)
      then (case sm_workers s ! i of Applying g \<Rightarrow> Some (apply_pass intn cfg db s i g) | _ \<Rightarrow> None)
      else None)"

fun stream_run :: "'g intn \<Rightarrow> runConfig \<Rightarrow> stream_action list \<Rightarrow> 'g streaming \<Rightarrow> 'g streaming option" where
  "stream_run intn cfg [] s = Some s"
| "stream_run intn cfg (a # acts) s =
     Option.bind (stream_do intn cfg a s) (stream_run intn cfg acts)"

text \<open>\<open>wg.Wait\<close> returns.\<close>

definition stream_finished :: "'g streaming \<Rightarrow> bool" where
  "stream_finished s \<longleftrightarrow> list_all (\<lambda>k. k = Stopped) (sm_workers s)"

subsection \<open>Specification\<close>

definition writes :: "'g streaming \<Rightarrow> int" where
  "writes s = fst (sm_counts s) + snd (sm_counts s)"

text \<open>The batches granted and not yet written, and the actions left to a worker after the deadline.\<close>

definition in_write :: "'g streamer \<Rightarrow> int" where
  "in_write k = (case k of Applying g \<Rightarrow> 1 | _ \<Rightarrow> 0)"

definition left_over :: "'g streamer \<Rightarrow> nat" where
  "left_over k = (case k of AtDeadline g \<Rightarrow> 1 | InWait g \<Rightarrow> 3 | Applying g \<Rightarrow> 2 | Stopped \<Rightarrow> 0)"

definition stream_work :: "'g streaming \<Rightarrow> nat" where
  "stream_work s = sum_list (map left_over (sm_workers s))"

definition is_acquire :: "stream_action \<Rightarrow> bool" where
  "is_acquire a = (case a of Acquire i now \<Rightarrow> True | _ \<Rightarrow> False)"

definition stream_ok :: "runConfig \<Rightarrow> int \<Rightarrow> 'g streaming \<Rightarrow> bool" where
  "stream_ok cfg t0 s \<longleftrightarrow>
     \<not> sm_panicked s \<and> length (sm_workers s) = nat (rc_workers cfg) \<and> t0 \<le> lm_last (sm_limiter s) \<and>
     lm_last (sm_limiter s) \<le> sm_now s \<and> lm_rate (sm_limiter s) = real_of_int (rc_rate cfg) \<and>
     (0 < rc_rate cfg \<longrightarrow> 0 \<le> lm_allow (sm_limiter s) \<and>
        real_of_int (writes s + rc_batch cfg * sum_list (map in_write (sm_workers s))) + lm_allow (sm_limiter s) \<le>
          real_of_int (rc_rate cfg) + real_of_int (rc_rate cfg) * seconds (lm_last (sm_limiter s) - t0))"

subsection \<open>Lemmas\<close>

lemma set_streamer_simps [simp]:
  "sm_workers (set_streamer i k s) = (sm_workers s)[i := k]" "sm_limiter (set_streamer i k s) = sm_limiter s"
  "sm_counts (set_streamer i k s) = sm_counts s" "sm_now (set_streamer i k s) = sm_now s"
  "sm_deadline (set_streamer i k s) = sm_deadline s"
  "sm_panicked (set_streamer i k s) = sm_panicked s" "writes (set_streamer i k s) = writes s"
  by (simp_all add: set_streamer_def writes_def)

lemma in_write_update:
  "i < length ks \<Longrightarrow> sum_list (map in_write (ks[i := k])) = sum_list (map in_write ks) - in_write (ks ! i) + in_write k"
  using sum_list_update_map [of i ks in_write k] by simp

lemma work_update:
  "i < length (sm_workers s) \<Longrightarrow>
   stream_work (set_streamer i k s) + left_over (sm_workers s ! i) = stream_work s + left_over k"
  using sum_list_update_map [of i "sm_workers s" left_over k] by (simp add: stream_work_def)

lemma stream_work_cong: "sm_workers s' = sm_workers s \<Longrightarrow> stream_work s' = stream_work s"
  by (simp add: stream_work_def)

lemma insertBatch_total: "0 \<le> n \<Longrightarrow> insertBatch db intn u g n \<noteq> Panics"
  by (auto simp: insertBatch_def split: prod.splits)

lemma stream_pass_total: "0 \<le> batch \<Longrightarrow> stream_pass db intn batch u up m g counts \<noteq> Panics"
  using insertBatch_total [of batch db intn u] by (auto simp: stream_pass_def Let_def split: prod.splits option.splits outcome.splits)

lemma check_ok:
  assumes "stream_ok cfg t0 s" "stream_do intn cfg (Check i now) s = Some s'"
  shows "stream_ok cfg t0 s' \<and> sm_now s \<le> sm_now s' \<and> sm_deadline s' = sm_deadline s \<and> (sm_deadline s \<le> sm_now s \<longrightarrow> stream_work s' < stream_work s)"
proof -
  obtain g where g: "i < length (sm_workers s)" "sm_workers s ! i = AtDeadline g" "sm_now s \<le> now"
    "s' = set_streamer i (if now < sm_deadline s then InWait g else Stopped) (s\<lparr>sm_now := now\<rparr>)"
    using assms(2) by (auto split: if_splits streamer.splits)
  have "stream_work s' < stream_work s" if "sm_deadline s \<le> sm_now s"
    using work_update [of i "s\<lparr>sm_now := now\<rparr>" Stopped] g that
    by (simp add: left_over_def stream_work_cong [of "s\<lparr>sm_now := now\<rparr>" s])
  moreover have "stream_ok cfg t0 s'"
    using assms(1) g by (auto simp: stream_ok_def in_write_update in_write_def writes_def)
  ultimately show ?thesis using g by simp
qed

lemma acquire_ok:
  assumes "stream_ok cfg t0 s" "stream_do intn cfg (Acquire i now) s = Some s'"
  shows "stream_ok cfg t0 s' \<and> sm_now s \<le> sm_now s' \<and> sm_deadline s' = sm_deadline s \<and> stream_work s' \<le> stream_work s"
proof -
  obtain g where g: "i < length (sm_workers s)" "sm_workers s ! i = InWait g" "sm_now s \<le> now" "s' = acquire cfg s i g now"
    using assms(2) by (auto split: if_splits streamer.splits)
  note wu = work_update [OF g(1), of "Applying g"]
  show ?thesis
  proof (cases "lm_rate (sm_limiter s) \<le> 0")
    case True
    then show ?thesis
      using assms(1) g wu by (auto simp: acquire_def stream_ok_def left_over_def)
  next
    case False
    obtain ok l where a: "attempt (sm_limiter s) (rc_batch cfg) now = (ok, l)" by fastforce
    have r: "0 < rc_rate cfg" "lm_rate (sm_limiter s) = real_of_int (rc_rate cfg)" "lm_last (sm_limiter s) \<le> now"
      using False assms(1) g(3) by (simp_all add: stream_ok_def)
    have l: "lm_rate l = real_of_int (rc_rate cfg)" "lm_last l = now" "0 \<le> lm_allow l"
      using attempt_rate [OF a] attempt_nonneg [OF a] assms(1) r by (simp_all add: stream_ok_def)
    have b: "lm_allow l + (if ok then real_of_int (rc_batch cfg) else 0) \<le>
        lm_allow (sm_limiter s) + real_of_int (rc_rate cfg) * seconds (now - lm_last (sm_limiter s))"
      using attempt_budget [OF a] r(2) by simp
    have split: "real_of_int (rc_rate cfg) * seconds (now - t0) = real_of_int (rc_rate cfg) * seconds (now - lm_last (sm_limiter s)) +
        real_of_int (rc_rate cfg) * seconds (lm_last (sm_limiter s) - t0)"
      by (simp add: seconds_diff algebra_simps)
    have old: "real_of_int (writes s + rc_batch cfg * sum_list (map in_write (sm_workers s))) + lm_allow (sm_limiter s) \<le>
        real_of_int (rc_rate cfg) + real_of_int (rc_rate cfg) * seconds (lm_last (sm_limiter s) - t0)"
      using assms(1) r(1) by (simp add: stream_ok_def)
    have iw: "sum_list (map in_write ((sm_workers s)[i := Applying g])) = sum_list (map in_write (sm_workers s)) + 1"
      using in_write_update [OF g(1)] g(2) by (simp add: in_write_def)
    show ?thesis
    proof (cases ok)
      case True
      then have s': "s' = set_streamer i (Applying g) (s\<lparr>sm_limiter := l, sm_now := now\<rparr>)"
        using g(4) a False by (simp add: acquire_def)
      have "stream_ok cfg t0 s'"
        using assms(1) l r b split old True g(3) by (simp add: s' stream_ok_def iw writes_def algebra_simps)
      moreover have "stream_work s' \<le> stream_work s"
        using work_update [of i "s\<lparr>sm_limiter := l, sm_now := now\<rparr>" "Applying g"] g(1,2)
        by (simp add: s' left_over_def stream_work_def)
      ultimately show ?thesis using s' g(3) by simp
    next
      case no: False
      then have s': "s' = s\<lparr>sm_limiter := l, sm_now := now\<rparr>" using g(4) a False by (simp add: acquire_def)
      have "stream_ok cfg t0 s'"
        using assms(1) l r b split old no g(3) by (simp add: s' stream_ok_def writes_def algebra_simps)
      then show ?thesis using s' g(3) by (simp add: stream_work_def)
    qed
  qed
qed

lemma apply_ok:
  assumes "stream_ok cfg t0 s" "stream_do intn cfg (Apply i db) s = Some s'" "0 \<le> rc_batch cfg"
  shows "stream_ok cfg t0 s' \<and> sm_now s \<le> sm_now s' \<and> sm_deadline s' = sm_deadline s \<and> stream_work s' < stream_work s"
proof -
  obtain g where g: "i < length (sm_workers s)" "sm_workers s ! i = Applying g" "s' = apply_pass intn cfg db s i g"
    using assms(2) by (auto split: if_splits streamer.splits)
  obtain counts g' where p: "stream_pass db intn (rc_batch cfg) (rc_urgentPct cfg) (rc_updatePct cfg) (rc_maxID cfg) g (sm_counts s) = Returns (counts, g')"
    using stream_pass_total [OF assms(3)] by (metis outcome.exhaust prod.collapse)
  have s': "s' = set_streamer i (AtDeadline g') (s\<lparr>sm_counts := counts\<rparr>)" using g(3) p by (simp add: apply_pass_def)
  have w: "writes s' \<le> writes s + rc_batch cfg"
    using stream_pass_counts [OF p] assms(3) by (auto simp: s' writes_def)
  have iw: "sum_list (map in_write ((sm_workers s)[i := AtDeadline g'])) = sum_list (map in_write (sm_workers s)) - 1"
    using in_write_update [OF g(1)] g(2) by (simp add: in_write_def)
  have "writes s' + rc_batch cfg * (sum_list (map in_write (sm_workers s)) - 1) \<le>
      writes s + rc_batch cfg * sum_list (map in_write (sm_workers s))"
    using w by (simp add: algebra_simps)
  then have "real_of_int (writes s' + rc_batch cfg * (sum_list (map in_write (sm_workers s)) - 1)) \<le>
      real_of_int (writes s + rc_batch cfg * sum_list (map in_write (sm_workers s)))" by linarith
  then have "stream_ok cfg t0 s'" using assms(1) unfolding stream_ok_def s' by (auto simp: iw)
  moreover have "stream_work s' < stream_work s"
    using work_update [of i "s\<lparr>sm_counts := counts\<rparr>" "AtDeadline g'"] g(1,2)
    by (simp add: s' left_over_def stream_work_def)
  ultimately show ?thesis by (simp add: s')
qed

lemma stream_run_ok:
  assumes "stream_run intn cfg acts s = Some s'" "stream_ok cfg t0 s" "0 \<le> rc_batch cfg"
  shows "stream_ok cfg t0 s' \<and> sm_now s \<le> sm_now s' \<and> sm_deadline s' = sm_deadline s \<and>
    (sm_deadline s \<le> sm_now s \<longrightarrow> length (filter (\<lambda>a. \<not> is_acquire a) acts) + stream_work s' \<le> stream_work s)"
  using assms
proof (induction acts arbitrary: s)
  case (Cons a acts)
  then obtain s1 where s1: "stream_do intn cfg a s = Some s1" "stream_run intn cfg acts s1 = Some s'"
    by (auto simp: bind_eq_Some_conv)
  have st: "stream_ok cfg t0 s1 \<and> sm_now s \<le> sm_now s1 \<and> sm_deadline s1 = sm_deadline s \<and> (sm_deadline s \<le> sm_now s \<longrightarrow>
      (if is_acquire a then stream_work s1 \<le> stream_work s else stream_work s1 < stream_work s))"
  proof (cases a)
    case (Check i now)
    then show ?thesis using check_ok [OF Cons.prems(2)] s1(1) by (simp add: is_acquire_def)
  next
    case (Acquire i now)
    then show ?thesis using acquire_ok [OF Cons.prems(2)] s1(1) by (simp add: is_acquire_def)
  next
    case (Apply i db)
    then show ?thesis using apply_ok [OF Cons.prems(2) _ Cons.prems(3)] s1(1) by (simp add: is_acquire_def)
  qed
  then show ?case using Cons.IH [OF s1(2)] Cons.prems(3) by (auto split: if_splits)
qed simp

lemma stream_init_ok: "stream_ok cfg now (stream_init seed cfg now dur)"
proof -
  have "sum_list (map in_write (sm_workers (stream_init seed cfg now dur))) = 0"
    by (rule sum_list_0_map) (auto simp: stream_init_def in_write_def)
  then show ?thesis by (simp add: stream_ok_def stream_init_def newLimiter_def writes_def)
qed


lemma stream_work_bound: "stream_work s \<le> 3 * length (sm_workers s)"
proof -
  have "sum_list (map left_over ks) \<le> 3 * length ks" for ks :: "'a streamer list"
    by (induction ks) (auto simp: left_over_def split: streamer.splits)
  then show ?thesis by (simp add: stream_work_def)
qed

text \<open>The limiter grants a batch that the rate covers at some time after any other.\<close>

lemma attempt_later:
  assumes "0 < lm_rate l" "real_of_int n \<le> lm_rate l"
  shows "\<exists>now l'. t \<le> now \<and> attempt l n now = (True, l')"
proof -
  let ?now = "max t (lm_last l + \<lceil>(real_of_int n - lm_allow l) / lm_rate l * 10 ^ 9\<rceil>)"
  have "(real_of_int n - lm_allow l) / lm_rate l * 10 ^ 9 \<le> real_of_int (?now - lm_last l)" by linarith
  then have "real_of_int n - lm_allow l \<le> lm_rate l * seconds (?now - lm_last l)"
    using assms(1) by (simp add: seconds_def field_simps)
  then have "lm_allow l + lm_rate l * seconds (?now - lm_last l) \<ge> real_of_int n" by simp
  from attempt_after_sleep [OF assms this] show ?thesis by (meson max.cobounded1)
qed

lemma stream_progress:
  fixes s :: "'g streaming"
  assumes ok: "stream_ok cfg t0 s" and b: "0 \<le> rc_batch cfg" and r: "rc_rate cfg \<le> 0 \<or> rc_batch cfg \<le> rc_rate cfg"
    and nf: "\<not> stream_finished s"
  shows "\<exists>a s'. stream_do intn cfg a s = Some s' \<and> stream_work s' < stream_work s"
proof -
  have np: "\<not> sm_panicked s" using ok by (simp add: stream_ok_def)
  obtain i where i: "i < length (sm_workers s)" "sm_workers s ! i \<noteq> Stopped"
    using nf by (auto simp: stream_finished_def list_all_length)
  show ?thesis
  proof (cases "sm_workers s ! i")
    case (AtDeadline g)
    let ?now = "max (sm_now s) (sm_deadline s)"
    have "stream_do intn cfg (Check i ?now) s = Some (set_streamer i Stopped (s\<lparr>sm_now := ?now\<rparr>))"
      using AtDeadline i np by simp
    moreover have "stream_work (set_streamer i Stopped (s\<lparr>sm_now := ?now\<rparr>)) < stream_work s"
      using work_update [of i "s\<lparr>sm_now := ?now\<rparr>" Stopped] AtDeadline i
      by (simp add: left_over_def stream_work_cong [of "s\<lparr>sm_now := ?now\<rparr>" s])
    ultimately show ?thesis by blast
  next
    case (Applying g)
    then have d: "stream_do intn cfg (Apply i (\<lambda>sql args. None)) s = Some (apply_pass intn cfg (\<lambda>sql args. None) s i g)"
      using i np by simp
    then show ?thesis using apply_ok [OF ok d b] by blast
  next
    case (InWait g)
    have wu: "stream_work (set_streamer i (Applying g) s) < stream_work s"
      using work_update [OF i(1), of "Applying g"] InWait by (simp add: left_over_def)
    show ?thesis
    proof (cases "lm_rate (sm_limiter s) \<le> 0")
      case True
      then have "stream_do intn cfg (Acquire i (sm_now s)) s = Some (set_streamer i (Applying g) s)"
        using InWait i np by (simp add: acquire_def)
      then show ?thesis using wu by blast
    next
      case False
      then have "real_of_int (rc_batch cfg) \<le> lm_rate (sm_limiter s)" using ok r by (auto simp: stream_ok_def)
      then obtain now l where a: "sm_now s \<le> now" "attempt (sm_limiter s) (rc_batch cfg) now = (True, l)"
        using attempt_later [of "sm_limiter s" "rc_batch cfg" "sm_now s"] False by auto
      then have "stream_do intn cfg (Acquire i now) s =
          Some (set_streamer i (Applying g) (s\<lparr>sm_limiter := l, sm_now := now\<rparr>))"
        using InWait i np False by (simp add: acquire_def)
      moreover have "stream_work (set_streamer i (Applying g) (s\<lparr>sm_limiter := l, sm_now := now\<rparr>)) < stream_work s"
        using wu by (simp add: stream_work_def)
      ultimately show ?thesis by blast
    qed
  qed (use i in simp)
qed

lemma stream_finishes:
  assumes "stream_ok cfg t0 s" "0 \<le> rc_batch cfg" "rc_rate cfg \<le> 0 \<or> rc_batch cfg \<le> rc_rate cfg"
  shows "\<exists>acts s'. length acts \<le> stream_work s \<and> stream_run intn cfg acts s = Some s' \<and> stream_finished s'"
  using assms(1)
proof (induction "stream_work s" arbitrary: s rule: less_induct)
  case less
  show ?case
  proof (cases "stream_finished s")
    case True
    then show ?thesis by (intro exI [of _ "[]"]) simp
  next
    case False
    obtain a s1 where a: "stream_do intn cfg a s = Some s1" "stream_work s1 < stream_work s"
      using stream_progress [OF less.prems assms(2,3) False] by blast
    then have "stream_run intn cfg [a] s = Some s1" by simp
    then have "stream_ok cfg t0 s1" using stream_run_ok [OF _ less.prems assms(2)] by blast
    from less.hyps [OF a(2) this] obtain acts s' where "length acts \<le> stream_work s1"
      "stream_run intn cfg acts s1 = Some s'" "stream_finished s'" by blast
    then show ?thesis using a by (intro exI [of _ "a # acts"] exI [of _ s']) simp
  qed
qed

subsection \<open>Properties\<close>

text \<open>
  C32: the workers of a stream together keep the target rate. Under every schedule of the workers, and
  whatever the database answers, the writes counted until the latest reading of the clock are at
  most the rate times one second more than the elapsed time.
\<close>

theorem stream_keeps_rate:
  assumes "stream_run intn cfg acts (stream_init seed cfg now dur) = Some s"
    and "0 < rc_rate cfg" "0 \<le> rc_batch cfg"
  shows "real_of_int (writes s) \<le> real_of_int (rc_rate cfg) * (1 + seconds (sm_now s - now))"
proof -
  have ok: "stream_ok cfg now s" using stream_run_ok [OF assms(1) stream_init_ok assms(3)] by blast
  have "0 \<le> in_write k" for k :: "'a streamer" by (simp add: in_write_def split: streamer.splits)
  then have "0 \<le> sum_list (map in_write (sm_workers s))" by (intro sum_list_nonneg) auto
  then have "writes s \<le> writes s + rc_batch cfg * sum_list (map in_write (sm_workers s))" using assms(3) by simp
  then have "real_of_int (writes s) \<le> real_of_int (writes s + rc_batch cfg * sum_list (map in_write (sm_workers s)))"
    by linarith
  moreover have "real_of_int (rc_rate cfg) * seconds (lm_last (sm_limiter s) - now) \<le>
      real_of_int (rc_rate cfg) * seconds (sm_now s - now)"
    using ok assms(2) seconds_mono [of "lm_last (sm_limiter s) - now" "sm_now s - now"] by (simp add: stream_ok_def)
  moreover have "0 \<le> lm_allow (sm_limiter s) \<and>
      real_of_int (writes s + rc_batch cfg * sum_list (map in_write (sm_workers s))) + lm_allow (sm_limiter s) \<le>
      real_of_int (rc_rate cfg) + real_of_int (rc_rate cfg) * seconds (lm_last (sm_limiter s) - now)"
    using ok assms(2) by (simp add: stream_ok_def)
  moreover have "real_of_int (rc_rate cfg) * (1 + seconds (sm_now s - now)) =
      real_of_int (rc_rate cfg) + real_of_int (rc_rate cfg) * seconds (sm_now s - now)" by (simp add: algebra_simps)
  ultimately show ?thesis by linarith
qed

theorem stream_keeps_rate_witness:
  "\<exists>s. stream_run (\<lambda>g n. (0, g)) (ex_config 2)
      [Check 0 1, Check 1 2, Acquire 0 3, Acquire 1 4, Apply 0 (\<lambda>sql args. None), Apply 1 (\<lambda>sql args. Some ''down'')]
      (stream_init (\<lambda>i. ()) (ex_config 2) 0 (10 ^ 9)) = Some s \<and> writes s = 100 \<and>
    real_of_int (writes s) \<le> 500 * (1 + seconds 4)"
proof -
  let ?acts = "[Check 0 1, Check 1 2, Acquire 0 3, Acquire 1 4, Apply 0 (\<lambda>sql args. None), Apply 1 (\<lambda>sql args. Some ''down'')]"
  obtain s where s: "stream_run (\<lambda>g n. (0, g)) (ex_config 2) ?acts (stream_init (\<lambda>i. ()) (ex_config 2) 0 (10 ^ 9)) = Some s"
    "writes s = 100" "sm_now s = 4"
    by (simp add: stream_init_def ex_config_def set_streamer_def newLimiter_def acquire_def attempt_def seconds_def
        apply_pass_def stream_pass_def insertBatch_def split_def Let_def writes_def upt_rec)
  with stream_keeps_rate [OF s(1)] show ?thesis by (auto simp: ex_config_def)
qed

text \<open>
  a stream stops. Once a worker has read a time after the deadline, every schedule has at most
  three more actions per worker besides attempts at the limiter; and if the rate covers a
  batch (or does not limit), from every reachable state the command can go on to its end, with at
  most three actions per worker, and it never panics.
\<close>

theorem stream_stops:
  assumes "stream_run intn cfg acts (stream_init seed cfg now dur) = Some s"
    and "0 \<le> rc_batch cfg" "rc_rate cfg \<le> 0 \<or> rc_batch cfg \<le> rc_rate cfg"
  shows "(\<forall>acts' s'. sm_deadline s \<le> sm_now s \<and> stream_run intn cfg acts' s = Some s' \<longrightarrow>
       length (filter (\<lambda>a. \<not> is_acquire a) acts') \<le> 3 * nat (rc_workers cfg) \<and> \<not> sm_panicked s') \<and>
    (\<exists>acts' s'. length acts' \<le> 3 * nat (rc_workers cfg) \<and> stream_run intn cfg acts' s = Some s' \<and>
       stream_finished s')"
proof -
  have ok: "stream_ok cfg now s" using stream_run_ok [OF assms(1) stream_init_ok assms(2)] by blast
  then have wb: "stream_work s \<le> 3 * nat (rc_workers cfg)" using stream_work_bound [of s] by (simp add: stream_ok_def)
  obtain acts' s' where f: "length acts' \<le> stream_work s" "stream_run intn cfg acts' s = Some s'" "stream_finished s'"
    using stream_finishes [OF ok assms(2,3)] by blast
  have "length (filter (\<lambda>a. \<not> is_acquire a) acts'') \<le> 3 * nat (rc_workers cfg) \<and> \<not> sm_panicked s''"
    if "sm_deadline s \<le> sm_now s" "stream_run intn cfg acts'' s = Some s''" for acts'' s''
    using stream_run_ok [OF that(2) ok assms(2)] that(1) wb by (simp add: stream_ok_def)
  then show ?thesis using f wb by (meson le_trans)
qed

theorem stream_stops_witness:
  "\<exists>acts s'. length acts \<le> 6 \<and> stream_finished s' \<and>
     stream_run (\<lambda>g n. (0, g)) (ex_config 2) acts (stream_init (\<lambda>i. ()) (ex_config 2) 0 (10 ^ 9)) = Some s'"
  using stream_stops [of "\<lambda>g n. (0, g)" "ex_config 2" "[]" "\<lambda>i. ()" 0 "10 ^ 9"] by (auto simp: ex_config_def)

end
