(* ===== verification/Spec2Isabelle.thy ===== *)
theory Spec2Isabelle
  imports Isolation Startup Streaming
begin

text \<open>
  A verification development of a search and retrieval system: a change-data-capture write
  path that keeps a lexical and a vector index fresh, and a read path that answers questions
  over them with citations.

  \<^bold>\<open>The program.\<close> Postgres row changes reach Redpanda through Debezium. Command \<open>normalizer\<close> turns
  each event into a canonical document and routes it by tier to \<open>docs.fast\<close> or \<open>docs.bulk\<close>,
  bad events to \<open>docs.dlq\<close>. Command \<open>indexer\<close> consumes both lanes, keeps the newest version per
  document, writes OpenSearch (the version authority) and then Qdrant, commits its in-memory
  guard and bumps the cache generation of each changed tenant. Command \<open>query\<close> serves \<open>/search\<close> and
  \<open>/ask\<close>: rate limit, authentication and tenant scope, exact and semantic answer cache, BM25
  and vector lanes fused by reciprocal rank, reranking, answer generation, citations and
  a faithfulness score. Command \<open>loadgen\<close> writes test rows at a target rate.

  \<^bold>\<open>Theories and sources\<close> (paths under \<open>src/\<close>).
  \<^item> \<open>Prelude\<close>: the string, number and sorting functions of Go's library that the code calls,
    and the lemmas on them; the locale \<open>strict_weak_order\<close> (what a \<open>less\<close> function must satisfy
    for a stable sort to be a function of the multiset) is interpreted by every comparison
    of the code.
  \<^item> \<open>Json\<close>, \<open>Timestamp\<close>, \<open>Wire\<close>: \<open>encoding/json\<close> decoding into structs, the RFC 3339 form of times
    with its calendar, the JSON of documents and the dead-letter envelope.
  \<^item> \<open>Sha1\<close>: \<open>crypto/sha1\<close> on 32-bit words, for cache keys.
  \<^item> \<open>Contract\<close> (\<open>internal/contract/doc.go\<close>), \<open>Guard\<close> (\<open>internal/idempotency/guard.go\<close>, with the
    locale \<open>version_guard\<close>), \<open>Opensearch\<close>, \<open>Qdrant\<close>, \<open>Cache\<close>, \<open>Semcache\<close>, \<open>Mlclient\<close>, \<open>Config\<close> (the
    packages of these names under \<open>internal/\<close>; \<open>Config\<close> also \<open>internal/kafka\<close>).
  \<^item> \<open>Normalizer\<close>: \<open>internal/normalizer/normalizer.go\<close> and the loop of \<open>cmd/normalizer/main.go\<close>.
  \<^item> \<open>Indexer\<close>: \<open>apply\<close> of \<open>cmd/indexer/main.go\<close>; \<open>Lane\<close>: \<open>runLane\<close>, \<open>flushBatch\<close>, \<open>toDLQ\<close>, \<open>mustReady\<close>
    and \<open>probeDim\<close> of the same file, the lane as a step relation, with a call of \<open>apply\<close> as one step.
  \<^item> \<open>Interleave\<close>, \<open>Races\<close>: \<open>apply\<close> cut into its single accesses to shared state, and any number of
    goroutines taking these actions in any order, with failures and crashes.
  \<^item> \<open>Obs\<close>: \<open>internal/obs/metrics.go\<close>, the metric families and the observations of the commands.
  \<^item> \<open>Fusion\<close> (\<open>internal/retrieve/fusion.go\<close>), \<open>Sentences\<close> and \<open>Rag\<close> (\<open>internal/rag/*.go\<close>), \<open>RateLimit\<close>
    (\<open>cmd/query/middleware.go\<close>), \<open>Query\<close> (\<open>cmd/query/main.go\<close>, with the locale \<open>ranker\<close>).
  \<^item> \<open>Asking\<close>: \<open>handleAsk\<close> cut into its single accesses to shared state. \<open>Freshness\<close>, \<open>Answers\<close>, \<open>Isolation\<close>: the actions
    of the indexing goroutines, the accesses of any number of requests and the expiry of cached
    answers, interleaved over one OpenSearch, Qdrant, Redis and semantic cache.
  \<^item> \<open>Startup\<close>: how \<open>main\<close> of the three services starts and ends, with \<open>internal/tracing\<close> and the client
    constructors of \<open>internal/kafka\<close>.
  \<^item> \<open>Loadgen\<close>: rows, statements and the limiter of \<open>cmd/loadgen/main.go\<close>; \<open>Pool\<close>: its \<open>main\<close> and the worker
    pool of a backfill as a state machine; \<open>Streaming\<close>: the workers of a stream as another.
  \<^item> This theory: properties of the write path as a whole and of write and read path together.

  \<^bold>\<open>State and effects.\<close> A struct is a record, a package-level operation a definition that takes
  and returns the state it changes. What the program does not own is an argument: the
  OpenSearch cluster, the vector store, Redis, the ML and chat services, the database, the
  random generator, the clock, the iteration order of maps. The documented behaviour of
  these is stated as named predicates (\<open>external_versioning\<close>, \<open>upsert_spec\<close>, \<open>delete_spec\<close>,
  \<open>query_spec\<close>, \<open>search_spec\<close>, \<open>mget_spec\<close>, \<open>redis_spec\<close>, \<open>sem_spec\<close>, \<open>history_search\<close>, \<open>points_kept\<close>,
  \<open>range_ok\<close>, \<open>rng_ok\<close>), each with a
  reference implementation that satisfies it. Go errors are values of sum or option types;
  a run-time panic is the value \<open>Panics\<close> (or \<open>ApplyIndexPanic\<close>). \<open>int64\<close> is \<^typ>\<open>int\<close> with its range stated,
  SHA-1 is on \<^typ>\<open>32 word\<close>, \<open>float64\<close> and \<open>float32\<close> are \<^typ>\<open>real\<close>.

  \<^bold>\<open>What is shown.\<close>
  \<^item> \<open>Indexer\<close>: batches, deduplication, the guard and map order are invisible: a run is a
    refinement of writing every document on its own; replays and reorderings are harmless;
    both stores agree; \<open>apply\<close> succeeds when the services answer. \<open>Lane\<close>: over every
    interleaving of polls, failures, crashes and the other lane, no committed record is lost
    but one whose dead-letter produce failed; the flush rule bounds the wait; \<open>mustReady\<close> terminates. \<open>Interleave\<close>, \<open>Races\<close>: uninterrupted, the
    single actions compute \<open>apply\<close>; interleaved, OpenSearch and the guard stay safe, and the
    two stores agree as long as no document is on both lanes.
  \<^item> \<open>Normalizer\<close>, \<open>Wire\<close>, \<open>Timestamp\<close>: row changes survive encoding, routing and decoding, field by field; lane
    records decode to valid documents for commit times JSON can express; committed records were published.
  \<^item> \<open>Fusion\<close>: RRF computes the stated ranking; MMR is greedy. \<open>Rag\<close>: extractive answers are verbatim, cited and
    score 1; the scores and citations are what they should be. \<open>Query\<close>: tenant isolation, authentication,
    degradation, caching. \<open>Asking\<close>: uninterrupted, the accesses compute \<open>handleAsk\<close>. \<open>Answers\<close>: interleaved
    with writes in any way, an answer, cached or not, misses no write whose generation bump the
    request saw. \<open>Isolation\<close>: in the same system, as long as no document changes its tenant, every answer a tenant
    gets was generated from documents of that tenant. \<open>RateLimit\<close>: the limiter is a token bucket per client if the
    idle time before eviction refills a burst, and gives tokens away if it does not. \<open>Loadgen\<close>, \<open>Pool\<close>,
    \<open>Streaming\<close>: well-formed statements; under every schedule a backfill accounts for every row and never
    gets stuck, and a stream keeps the rate and stops.
  \<^item> \<open>Startup\<close>: the indexer consumes only when everything it writes to is there; the topics and consumer groups of
    the commands fit. \<open>Obs\<close>: the metrics register.
  \<^item> Where the code does not do what a comment or the documentation says, the behaviour is stated as
    a theorem as well: deletes that never take effect, a vector lane that is empty for every
    tenant, records lost after a produce error, a retry that skips Qdrant, a semantic hit
    that ignores filters, a race of the lanes that leaves an older version in the vector store, a
    dead-letter record that cannot be produced, a change after the year 9999 that becomes a null record, a bucket
    refilled by its eviction, a crash at exit after a failed set-up of tracing, a backfill that hangs without workers, a semantic
    cache that is never invalidated without Redis, a document read after it left the tenant.

  \<^bold>\<open>Bounds and fuel.\<close> The scanners \<open>strip_markers\<close> and \<open>find_markers\<close> recurse on the
  text; their number counts the characters of a matched marker still to be skipped. \<open>dur_groups\<close> takes
  the length of its input as fuel: each group consumes at least one character, so it never runs out.
  \<open>sha1_blocks\<close>, \<open>dec_digits\<close> and the calendar are total functions with termination proofs. Loops that
  may run for ever are \<open>backfill_jobs\<close> (a \<open>partial_function\<close>, proved to end for positive batch
  sizes) and \<open>waitN\<close> and \<open>mustReady\<close>, which consume a list of clock readings and are proved to end
  after a stated number of them. The consumer loops are step functions iterated over events; the
  pool of a backfill is one over scheduled actions, and a run of it, refused attempts at the limiter aside, has at most
  five actions per row and one per worker; a stream has at most three per worker after its deadline. A start is a list of calls, and \<open>boot\<close> recurses on it.
  A request to \<open>/ask\<close> is answered after at most eight accesses (\<open>ask_steps\<close> takes one scheduling choice for
  each); runs of writers and readers count their steps, so that a generation stays within
  \<open>int64\<close> by a bound on that number.

  \<^bold>\<open>Not modelled.\<close> Log output, spans and the latency histograms of the query service: they do not
  influence results. The call sites of the label values of metrics. The registry, the exposition format and the default buckets of the metrics library; the parsing of
  flags; the delivery of signals, which appear as events. Floating-point rounding: scores are real numbers, so a tie of two fused documents in
  the model may be broken by rounding in the program; nor does \<open>k + rank + 1\<close> in \<open>RRF\<close> wrap around here, where \<open>k\<close> is a
  configured integer. Deadlines, except as errors of
  the calls they interrupt. A bulk request is one action of the cluster, whose items may fail one by one (\<open>item_failure\<close>); its
  versions of deleted documents do not expire. In \<open>Freshness\<close> Redis answers every call. Non-ASCII case and space. The Python ML service and the evaluation and deployment files.
\<close>

subsection \<open>The pipeline\<close>

text \<open>A row change the pipeline carries: decodable, valid, and stamped within the range of JSON times.\<close>

definition good_change :: "string \<times> documentRow \<times> int \<Rightarrow> bool" where
  "good_change c = (case c of (op, row, ms) \<Rightarrow>
     int64_row row \<and> 0 \<le> dr_Version row \<and> (op = ''d'' \<or> dr_Title row \<noteq> [] \<or> dr_Body row \<noteq> []) \<and>
     in_int64 ms \<and> 0 < ms \<and> year_of (ms * 10 ^ 6) \<le> 9999 \<and> op \<in> {''c'', ''u'', ''r'', ''d''})"

text \<open>The documents the indexer decodes from what the normalizer publishes for an event.\<close>

definition delivered :: "topics \<Rightarrow> err_texts \<Rightarrow> time \<Rightarrow> string \<times> documentRow \<times> int \<Rightarrow> canonical_doc set" where
  "delivered tp y now c = (case c of (op, row, ms) \<Rightarrow>
     {d. \<exists>rec \<in> set (fst (handle_record tp y now (Some (change_event op row ms)))). read_doc (or_Value rec) = Inr d})"

definition change_doc :: "string \<times> documentRow \<times> int \<Rightarrow> canonical_doc" where
  "change_doc c = (case c of (op, row, ms) \<Rightarrow>
     buildDoc row (if op = ''d'' then OpDelete else OpUpsert) (ms * 10 ^ 6))"

lemma change_doc_fields:
  "DocID (change_doc (op, row, ms)) = ''postgres:documents:'' @ Itoa (dr_ID row)"
  "Source (change_doc (op, row, ms)) = ''postgres''" "TenantID (change_doc (op, row, ms)) = dr_TenantID row"
  "Op (change_doc (op, row, ms)) = (if op = ''d'' then ''delete'' else ''upsert'')"
  "Version (change_doc (op, row, ms)) = dr_Version row" "CommitTS (change_doc (op, row, ms)) = ms * 10 ^ 6"
  "Title (change_doc (op, row, ms)) = dr_Title row" "Body (change_doc (op, row, ms)) = dr_Body row"
  "Category (Metadata (change_doc (op, row, ms))) = dr_Category row"
  unfolding change_doc_def prod.case buildDoc_change by simp_all

lemma delivered_good:
  assumes "good_change c"
  shows "delivered tp y now c = {change_doc c}"
proof -
  obtain op row ms where c: "c = (op, row, ms)" by (cases c)
  obtain rec where "handle_record tp y now (Some (change_event op row ms)) = ([rec], [])"
    "read_doc (or_Value rec) = Inr (buildDoc row (if op = ''d'' then OpDelete else OpUpsert) (ms * 10 ^ 6))"
    using assms handle_change_event [of row op ms tp y now] unfolding good_change_def c by auto
  then show ?thesis by (auto simp: delivered_def change_doc_def c)
qed

lemma newest_of_set:
  assumes "d \<in> set docs" "\<And>e. e \<in> set docs \<Longrightarrow> DocID e = DocID d \<Longrightarrow> e = d \<or> Version e < Version d"
  shows "map_of (newestByDoc docs) (DocID d) = Some d"
proof -
  obtain e where e: "map_of (newestByDoc docs) (DocID d) = Some e"
    using assms(1) newestByDoc_None by (metis image_eqI not_None_eq)
  then have "e \<in> set docs" "DocID e = DocID d" "Version d \<le> Version e"
    using newestByDoc_Some newestByDoc_max [OF e assms(1)] by blast+
  then show ?thesis using assms(2) [of e] e by auto
qed

definition ex_ms :: int where "ex_ms = 1700000000000"

lemma good_ex_row:
  assumes "op \<in> {''c'', ''u'', ''r'', ''d''}" "in_int64 i" "in_int64 v" "0 \<le> v"
  shows "good_change (op, ex_row i v, ex_ms)"
proof -
  have "year_of (ex_ms * 10 ^ 6) \<le> 9999"
    by (simp add: ex_ms_def year_of_def year_day_def Let_def day_ns_def epoch_day_def)
  moreover have "int64_row (ex_row i v)" "in_int64 ex_ms" "0 < ex_ms"
    using assms(2,3) by (simp_all add: int64_row_def ex_row_def in_int64_def ex_ms_def)
  moreover have "dr_Version (ex_row i v) = v" "dr_Title (ex_row i v) \<noteq> []" by (simp_all add: ex_row_def)
  ultimately show ?thesis unfolding good_change_def prod.case using assms(1,4) by metis
qed

text \<open>A vector store that answers with the point of one id, if it meets the filter.\<close>

definition point_query :: "(string \<rightharpoonup> point) query_api" where
  "point_query m v must n =
     (case m ''a'' of None \<Rightarrow> Inr []
      | Some p \<Rightarrow> if list_all (\<lambda>c. matches c p) must then Inr [(pt_Payload p, 1)] else Inr [])"

definition point_query_deps :: "(os_doc list, string \<rightharpoonup> point, string \<rightharpoonup> rvalue, sem_entry list) qdeps" where
  "point_query_deps = \<lparr>q_search = ref_search, q_mget = ref_mget, q_query = point_query,
     q_http = (\<lambda>r. TransportError ''down''), q_redis = ref_redis,
     q_semquery = ref_sem_query (\<lambda>a b. 1), q_semupsert = ref_sem_upsert,
     q_chat = (\<lambda>r. TransportError ''down''), q_parse = NotJSON\<rparr>"

lemma query_spec_point: "query_spec (q_query point_query_deps) (\<lambda>m. m)"
  by (fastforce simp: query_spec_def point_query_deps_def point_query_def intro: ranI split: option.splits if_splits)

text \<open>C3: The write path end to end, from Debezium events to OpenSearch. Take any row changes the
  pipeline accepts, published by the normalizer, decoded by the indexer and applied without error in any
  batches, in any order and with any repetitions: if one change of a row has a strictly higher version
  than every other change of the row in the run, and than what the index holds for it, then the index ends up with that
  version and, under it, with the tenant, title, body, category and commit time of that change,
  or, if the change is a delete, with no document. (A delete that carries the version of
  the row it deletes, as Debezium sends it, is not strictly newer: \<open>deleted_row_stays_searchable\<close>.)\<close>

theorem pipeline_newest_version_wins:
  assumes "deps_ok x vos vqd" "guard_sound (w_guard w) (vos (w_os w))" "apply_run x w bs = Some w'"
    and "set (concat bs) = (\<Union>c \<in> set changes. delivered tp y now c)"
    and "list_all good_change changes" "(op, row, ms) \<in> set changes"
    and "\<And>op' row' ms'. (op', row', ms') \<in> set changes \<Longrightarrow> dr_ID row' = dr_ID row \<Longrightarrow>
      (op', row', ms') = (op, row, ms) \<or> dr_Version row' < dr_Version row"
    and "newer (vos (w_os w)) (''postgres:documents:'' @ Itoa (dr_ID row)) (dr_Version row)"
  shows "vos (w_os w') (''postgres:documents:'' @ Itoa (dr_ID row)) =
    Some (dr_Version row,
      if op = ''d'' then None
      else Some \<lparr>os_DocID = ''postgres:documents:'' @ Itoa (dr_ID row), os_Source = ''postgres'',
        os_TenantID = Itoa (dr_TenantID row), os_Title = dr_Title row, os_Body = dr_Body row,
        os_Category = dr_Category row, os_Version = dr_Version row, os_CommitTS = ms * 10 ^ 6\<rparr>)"
proof -
  let ?d = "change_doc (op, row, ms)"
  have "delivered tp y now c = {change_doc c}" if "c \<in> set changes" for c
    using delivered_good assms(5) that by (simp add: list_all_iff)
  then have docs: "set (concat bs) = change_doc ` set changes" using assms(4) by auto
  then have d: "?d \<in> set (concat bs)" using assms(6) by (metis image_eqI)
  have "map_of (newestByDoc (concat bs)) (DocID ?d) = Some ?d"
  proof (rule newest_of_set [OF d])
    fix e assume "e \<in> set (concat bs)" and i: "DocID e = DocID ?d"
    then obtain op' row' ms' where c: "(op', row', ms') \<in> set changes" and e: "e = change_doc (op', row', ms')"
      unfolding docs by auto
    have "dr_ID row' = dr_ID row" using i unfolding e by (simp add: change_doc_def)
    from assms(7) [OF c this] show "e = ?d \<or> Version e < Version ?d"
      using e by (auto simp: change_doc_def)
  qed
  then have "vos (w_os w') (DocID ?d) = ext_apply (vos (w_os w)) (bulk_op_of ?d) (DocID ?d)"
    using apply_run_sequential [OF assms(1-3)] by (simp add: sequential_newest)
  then show ?thesis
    using assms(8) ext_apply_at [of "vos (w_os w)" "bulk_op_of ?d"]
    by (simp add: change_doc_fields op_tier_defs os_doc_of_def)
qed

theorem pipeline_newest_version_wins_witness:
  "\<exists>w'. apply_run ref_deps ref_world
      [[change_doc (''u'', ex_row 42 2, ex_ms)], [change_doc (''c'', ex_row 42 1, ex_ms)]] = Some w' \<and>
    w_os w' (''postgres:documents:'' @ Itoa 42) =
      Some (2, Some \<lparr>os_DocID = ''postgres:documents:'' @ Itoa 42, os_Source = ''postgres'', os_TenantID = Itoa 7,
        os_Title = ''t'', os_Body = ''b'', os_Category = [], os_Version = 2, os_CommitTS = ex_ms * 10 ^ 6\<rparr>)"
proof -
  let ?bs = "[[change_doc (''u'', ex_row 42 2, ex_ms)], [change_doc (''c'', ex_row 42 1, ex_ms)]]"
  let ?cs = "[(''c'', ex_row 42 1, ex_ms), (''u'', ex_row 42 2, ex_ms)]"
  obtain w1 where w1: "apply_batch ref_deps ref_world (?bs ! 0) = (None, w1)"
    using apply_batch_succeeds [OF deps_ok_ref responsive_ref] by blast
  obtain w2 where w2: "apply_batch ref_deps w1 (?bs ! 1) = (None, w2)"
    using apply_batch_succeeds [OF deps_ok_ref responsive_ref] by blast
  have run: "apply_run ref_deps ref_world ?bs = Some w2" using w1 w2 by simp
  have good: "list_all good_change ?cs" using good_ex_row [of "''c''" 42 1] good_ex_row [of "''u''" 42 2] by (simp add: in_int64_def)
  have dl: "set (concat ?bs) = (\<Union>c\<in>set ?cs. delivered ex_topics ex_texts 0 c)"
    using good delivered_good by auto
  have m: "(''u'', ex_row 42 2, ex_ms) \<in> set ?cs" by simp
  have "guard_sound (w_guard ref_world) (w_os ref_world)" by (simp add: ref_world_def)
  moreover have "(op', row', ms') = (''u'', ex_row 42 2, ex_ms) \<or> dr_Version row' < dr_Version (ex_row 42 2)"
    if "(op', row', ms') \<in> set ?cs" for op' row' ms'
    using that by (auto simp: ex_row_def)
  moreover have "newer (w_os ref_world) i v" for i v by (simp add: ref_world_def newer_def)
  ultimately have "w_os w2 (''postgres:documents:'' @ Itoa (dr_ID (ex_row 42 2))) =
      Some (dr_Version (ex_row 42 2), if ''u'' = ''d'' then None else Some
        \<lparr>os_DocID = ''postgres:documents:'' @ Itoa (dr_ID (ex_row 42 2)), os_Source = ''postgres'',
        os_TenantID = Itoa (dr_TenantID (ex_row 42 2)), os_Title = dr_Title (ex_row 42 2), os_Body = dr_Body (ex_row 42 2),
        os_Category = dr_Category (ex_row 42 2), os_Version = dr_Version (ex_row 42 2), os_CommitTS = ex_ms * 10 ^ 6\<rparr>)"
    by (intro pipeline_newest_version_wins [OF deps_ok_ref _ run dl good m]) blast+
  then show ?thesis using run by (intro exI [of _ w2]) (simp add: ex_row_def)
qed

lemma int_tenants_put:
  "int_tenants m \<Longrightarrow> (\<And>p. p \<in> set ps \<Longrightarrow> \<exists>n. map_of (pt_Payload p) ''tenant_id'' = Some (PInt n)) \<Longrightarrow>
    int_tenants (put_points m ps)"
proof (induction ps arbitrary: m)
  case (Cons p ps)
  have "int_tenants (m(pt_ID p \<mapsto> p))"
    using Cons.prems unfolding int_tenants_def by (auto simp: ran_def split: if_splits)
  then show ?case using Cons by (simp add: put_points_Cons)
qed simp

lemma int_tenants_drop: "int_tenants m \<Longrightarrow> int_tenants (drop_points m cs)"
  unfolding int_tenants_def drop_points_def ran_def by (auto split: option.splits if_splits)

lemma int_tenants_apply:
  assumes ok: "deps_ok x vos vqd" and inv: "int_tenants (vqd (w_qd w))" and run: "apply_batch x w docs = (None, w')"
  shows "int_tenants (vqd (w_qd w'))"
  using run
proof (cases rule: apply_batch_None)
  case (written applied points)
  obtain mv where "list_all2 (\<lambda>d p. \<exists>v. p = point_of (d_uuid5 x) mv d v)
      (upserts applied (toApply (d_range x) (w_guard w) docs)) points"
    using embed_points_Inr [OF written(3)] by blast
  then have "\<exists>n. map_of (pt_Payload p) ''tenant_id'' = Some (PInt n)" if "p \<in> set points" for p
    using that by (auto simp: list_all2_conv_all_nth in_set_conv_nth point_of_def)
  then show ?thesis
    using write_qdrant_ok [OF written(4)] ok inv int_tenants_drop int_tenants_put
    by (simp add: deps_ok_def)
qed (use inv in simp)

lemma int_tenants_run:
  assumes "deps_ok x vos vqd"
  shows "int_tenants (vqd (w_qd w)) \<Longrightarrow> apply_run x w bs = Some w' \<Longrightarrow> int_tenants (vqd (w_qd w'))"
proof (induction bs arbitrary: w)
  case (Cons b bs)
  then obtain w1 where "apply_batch x w b = (None, w1)" "apply_run x w1 bs = Some w'"
    by (auto split: prod.splits option.splits)
  then show ?case using Cons int_tenants_apply [OF assms] by blast
qed simp

text \<open>C34: Deletes do not take effect. Debezium's delete event carries the image of the row as it was
  last written, hence its version, and both the guard and OpenSearch's external versioning
  require a higher one: if the index holds the row at that version, applying the delete
  leaves the document live in the index and its point in the vector store.\<close>

theorem deleted_row_stays_searchable:
  assumes "deps_ok x vos vqd" "good_change (''d'', row, ms)" "set docs = delivered tp y now (''d'', row, ms)"
    and "vos (w_os w) (''postgres:documents:'' @ Itoa (dr_ID row)) = Some (dr_Version row, Some doc)"
    and "apply_batch x w docs = (None, w')"
  shows "vos (w_os w') (''postgres:documents:'' @ Itoa (dr_ID row)) = Some (dr_Version row, Some doc) \<and> w_qd w' = w_qd w"
proof -
  have "set docs = {buildDoc row OpDelete (ms * 10 ^ 6)}"
    using assms(3) delivered_good [OF assms(2)] by (simp add: change_doc_def)
  then have "\<not> newer (vos (w_os w)) (DocID d) (Version d)" if "d \<in> set docs" for d
    using that assms(4) by (simp add: newer_def)
  from apply_batch_stale [OF assms(1) this assms(5)] assms(4) show ?thesis by simp
qed

theorem deleted_row_stays_searchable_witness:
  "\<exists>w'. apply_batch ref_deps (ref_world\<lparr>w_os := [''postgres:documents:'' @ Itoa 42 \<mapsto>
       (3, Some (os_doc_of (buildDoc (ex_row 42 3) OpUpsert 0)))]\<rparr>) [change_doc (''d'', ex_row 42 3, ex_ms)] = (None, w') \<and>
    w_os w' (''postgres:documents:'' @ Itoa 42) = Some (3, Some (os_doc_of (buildDoc (ex_row 42 3) OpUpsert 0)))"
proof -
  let ?w = "ref_world\<lparr>w_os := [''postgres:documents:'' @ Itoa 42 \<mapsto> (3, Some (os_doc_of (buildDoc (ex_row 42 3) OpUpsert 0)))]\<rparr>"
  obtain w' where w': "apply_batch ref_deps ?w [change_doc (''d'', ex_row 42 3, ex_ms)] = (None, w')"
    using apply_batch_succeeds [OF deps_ok_ref responsive_ref] by blast
  have good: "good_change (''d'', ex_row 42 3, ex_ms)" by (rule good_ex_row) (simp_all add: in_int64_def)
  have "set [change_doc (''d'', ex_row 42 3, ex_ms)] = delivered ex_topics ex_texts 0 (''d'', ex_row 42 3, ex_ms)"
    using delivered_good [OF good] by simp
  from deleted_row_stays_searchable [OF deps_ok_ref good this _ w']
  have "w_os w' (''postgres:documents:'' @ Itoa 42) = Some (3, Some (os_doc_of (buildDoc (ex_row 42 3) OpUpsert 0)))"
    by (simp add: ex_row_def)
  with w' show ?thesis by blast
qed

text \<open>C35: With an API key configured the vector lane never contributes: the indexer stores the
  tenant of a point as an integer, and the query filters it as a keyword, so after any
  indexing run a tenant's vector search returns nothing.\<close>

theorem tenant_vector_search_empty:
  assumes "deps_ok x vos vqd" "int_tenants (vqd (w_qd w))" "apply_run x w bs = Some w'"
    and "query_spec (q_query z) vqd" "authTenant s r = (tenant, True)" "s_apiKey s \<noteq> []"
  shows "vector_lane z s (w_qd w') query (scopeFilters fs tenant) qvec = []"
proof -
  have "tenant \<noteq> []" using assms(5,6) by (auto simp: authTenant_def Let_def split: if_splits)
  then show ?thesis
    by (rule vector_lane_tenant [OF assms(4) int_tenants_run [OF assms(1-3)]])
qed

theorem tenant_vector_search_empty_witness:
  "\<exists>w'. apply_run ref_deps ref_world [[ex_doc ''a'' 1 OpUpsert]] = Some w' \<and>
    vector_lane point_query_deps ref_server (w_qd w') ''wal'' (scopeFilters [] ''7'') (Some [1]) = []"
proof -
  obtain w' where w': "apply_run ref_deps ref_world [[ex_doc ''a'' 1 OpUpsert]] = Some w'"
    using apply_batch_succeeds [OF deps_ok_ref responsive_ref, of ref_world "[ex_doc ''a'' 1 OpUpsert]"] by auto
  have a: "authTenant ref_server (ex_request []) = (''7'', True)" by code_simp
  have "vector_lane point_query_deps ref_server (w_qd w') ''wal'' (scopeFilters [] ''7'') (Some [1]) = []"
    by (rule tenant_vector_search_empty [OF deps_ok_ref _ w' _ a])
       (simp_all add: ref_world_def int_tenants_def ref_server_def query_spec_point)
  with w' show ?thesis by blast
qed

text \<open>C11: A write makes a tenant's cached answers unreachable. After a successful \<open>apply\<close> that wrote a
  document of a tenant, a semantic lookup of that tenant at its generation misses if every
  stored entry of the tenant is of the generation before the write or an older one, and the text hashed
  for the exact-match key differs from that of every request under such a generation.\<close>

theorem write_invalidates_caches:
  assumes "deps_ok x vos vqd" "apply_batch x w docs = (None, w')"
    and "redis_spec (d_redis x)" "has_rdb (d_cache x)"
    and "d \<in> set (written_docs x (w_guard w) (vos (w_os w)) docs)"
    and "counter_value (r_get (d_redis x) (w_rd w) (genKey (Itoa (TenantID d)))) = Some n" "in_int64 (n + 1)"
    and "sem_spec qapi uapi view sim"
    and "\<And>e. e \<in> set (view v) \<Longrightarrow> se_tenant e = Itoa (TenantID d) \<Longrightarrow> \<exists>m \<le> n. se_gen e = Itoa m"
    and "g = Generation (d_redis x) (d_cache x) (w_rd w') (Itoa (TenantID d))"
  shows "snd (snd (Lookup qapi c v vec (Itoa (TenantID d)) g)) = False \<and>
    (\<forall>q fs q' fs' m. m \<le> n \<longrightarrow> key_material q fs g \<noteq> key_material q' fs' m)"
proof -
  have g: "g = n + 1" using apply_batch_bumps [OF assms(1-7)] assms(10) by simp
  have "\<not> snd (snd (Lookup qapi c v vec (Itoa (TenantID d)) g))"
  proof
    assume hit: "snd (snd (Lookup qapi c v vec (Itoa (TenantID d)) g))"
    then obtain a score where "Lookup qapi c v vec (Itoa (TenantID d)) g = (a, score, True)" by (metis prod.collapse)
    from Lookup_hit [OF assms(8) this] obtain e where "e \<in> set (view v)" "se_gen e = Itoa g" "se_tenant e = Itoa (TenantID d)"
      by auto
    then show False using assms(9) [of e] g by auto
  qed
  moreover have "m < g" if "m \<le> n" for m using that g by simp
  ultimately show ?thesis using key_material_gen by (metis order_less_irrefl)
qed

theorem write_invalidates_caches_witness:
  "\<exists>w'. apply_batch ref_deps ref_world [ex_doc ''a'' 1 OpUpsert] = (None, w') \<and>
    snd (snd (Lookup (ref_sem_query (\<lambda>a b. 1)) \<lparr>sc_threshold = 0, sc_enabled = True\<rparr>
      [\<lparr>se_Vector = [1], se_tenant = Itoa 7, se_gen = Itoa 0, se_answer = JText JNull\<rparr>] [1] (Itoa 7)
      (Generation ref_redis (d_cache ref_deps) (w_rd w') (Itoa 7)))) = False"
proof -
  let ?v = "[\<lparr>se_Vector = [1], se_tenant = Itoa 7, se_gen = Itoa 0, se_answer = JText JNull\<rparr>]"
  obtain w' where w': "apply_batch ref_deps ref_world [ex_doc ''a'' 1 OpUpsert] = (None, w')"
    using apply_batch_succeeds [OF deps_ok_ref responsive_ref] by blast
  have wr: "ex_doc ''a'' 1 OpUpsert \<in> set (written_docs ref_deps (w_guard ref_world) (w_os ref_world) [ex_doc ''a'' 1 OpUpsert])"
    by (simp add: written_docs_def apply_defs ref_defs map_filter_simps)
  have rs: "redis_spec (d_redis ref_deps)" "has_rdb (d_cache ref_deps)" by (simp_all add: ref_deps_def redis_spec_ref)
  have n: "counter_value (r_get (d_redis ref_deps) (w_rd ref_world)
        (genKey (Itoa (TenantID (ex_doc ''a'' 1 OpUpsert))))) = Some 0" "in_int64 (0 + 1)"
    by (simp_all add: ref_deps_def ref_world_def ref_redis_def counter_value_def in_int64_def)
  have "snd (snd (Lookup (ref_sem_query (\<lambda>a b. 1)) \<lparr>sc_threshold = 0, sc_enabled = True\<rparr> ?v [1]
      (Itoa (TenantID (ex_doc ''a'' 1 OpUpsert)))
      (Generation (d_redis ref_deps) (d_cache ref_deps) (w_rd w') (Itoa (TenantID (ex_doc ''a'' 1 OpUpsert)))))) = False"
    by (rule conjunct1 [OF write_invalidates_caches [OF deps_ok_ref w' rs wr n sem_spec_ref _ refl]]) auto
  with w' show ?thesis by (simp add: ref_deps_def ex_doc_def)
qed

end
